(* ===== verification/RL_Prelude.thy ===== *)
theory RL_Prelude
  imports Main "HOL-Library.Word"
begin

text \<open>
  Shared vocabulary of the development: the machine integers the crate uses, the
  saturating operations of the Rust standard library on them, results as sums, and the
  generic facts on strings that several components need.  The collections declared
  here are filled by the component theories.
\<close>

section \<open>Fact collections\<close>

named_theorems rl_defs \<open>definitions of the model that evaluation unfolds\<close>

named_theorems rl_unat \<open>readings of word operations as natural numbers\<close>

named_theorems rl_frame \<open>fields an operation leaves unchanged\<close>

section \<open>Machine integers\<close>

text \<open>
  The widths of the Rust source: \<open>u64\<close>, \<open>u32\<close> and \<open>u128\<close> are read with \<open>unat\<close>;
  \<open>i64\<close> is the same 64-bit word read with \<open>sint\<close>.
\<close>

type_synonym u32 = "32 word"
type_synonym u64 = "64 word"
type_synonym u128 = "128 word"
type_synonym i64 = "64 word"

text \<open>The results \<open>Result<T, E>\<close> of the source: \<open>Inl\<close> is \<open>Err\<close>, \<open>Inr\<close> is \<open>Ok\<close>.\<close>

type_synonym ('e, 'a) result = "'e + 'a"

lemma map_sum_ident [simp]: "map_sum id (\<lambda>x. x) s = s"
  by (cases s) simp_all

text \<open>\<open>u64::saturating_add\<close> and \<open>u64::saturating_sub\<close>.\<close>

definition saturating_add :: "u64 \<Rightarrow> u64 \<Rightarrow> u64" where
  "saturating_add a b = (if unat a + unat b < 2 ^ 64 then a + b else - 1)"

definition saturating_sub :: "u64 \<Rightarrow> u64 \<Rightarrow> u64" where
  "saturating_sub a b = (if b \<le> a then a - b else 0)"

lemma unat_less_64: "unat (a :: u64) < 18446744073709551616"
  using unsigned_less [of a, where 'a = nat] by simp

lemma unat_less_32: "unat (a :: u32) < 4294967296"
  using unsigned_less [of a, where 'a = nat] by simp

lemma unat_max_64 [rl_unat]: "unat (- 1 :: u64) = 2 ^ 64 - 1"
  by (simp add: unsigned_minus_1_eq_mask mask_eq_exp_minus_1)

lemma unat_saturating_add [rl_unat]:
  "unat (saturating_add a b) = min (unat a + unat b) (2 ^ 64 - 1)"
  by (auto simp: saturating_add_def unat_max_64 unat_word_ariths min_def)

lemma unat_saturating_sub [rl_unat]:
  "unat (saturating_sub a b) = unat a - unat b"
  by (auto simp: saturating_sub_def unat_sub word_le_nat_alt)

lemma unat_max [rl_unat]: "unat (max a b :: u64) = max (unat a) (unat b)"
  by (simp add: max_def word_le_nat_alt)

lemma u64_eq_iff: "(a :: u64) = b \<longleftrightarrow> unat a = unat b"
  by (simp add: word_unat_eq_iff)

section \<open>Strings\<close>

text \<open>
  A Rust \<open>String\<close> is its UTF-8 bytes, so it is modelled as a list of 8-bit characters.
  Every operation the crate applies to strings (concatenation, replacing one ASCII
  character, testing for emptiness, comparing) is the same on bytes as on scalar values,
  because an ASCII byte never occurs inside a multi-byte sequence.
\<close>

text \<open>\<open>str::replace(c, to)\<close> for a character pattern.\<close>

definition replace_char :: "char \<Rightarrow> string \<Rightarrow> string \<Rightarrow> string" where
  "replace_char c to s = concat (map (\<lambda>x. if x = c then to else [x]) s)"

lemma replace_char_Nil [simp]: "replace_char c to [] = []"
  by (simp add: replace_char_def)

lemma replace_char_Cons [simp]:
  "replace_char c to (x # s) = (if x = c then to else [x]) @ replace_char c to s"
  by (simp add: replace_char_def)

lemma replace_char_append: "replace_char c to (s @ t) = replace_char c to s @ replace_char c to t"
  by (simp add: replace_char_def)

text \<open>Two strings split at a separator that occurs in neither first part agree part by part.\<close>

lemma split_at_unique:
  assumes "xs @ c # ys = xs' @ c # ys'" "c \<notin> set xs" "c \<notin> set xs'"
  shows "xs = xs' \<and> ys = ys'"
  using assms
proof (induction xs arbitrary: xs')
  case Nil
  then show ?case by (cases xs') auto
next
  case (Cons x xs)
  then show ?case by (cases xs') auto
qed

lemma split_at_unique_rev:
  assumes "xs @ c # ys = xs' @ c # ys'" "c \<notin> set ys" "c \<notin> set ys'"
  shows "xs = xs' \<and> ys = ys'"
proof -
  have "rev ys @ c # rev xs = rev ys' @ c # rev xs'"
    using arg_cong [OF assms(1), of rev] by simp
  from split_at_unique [OF this] assms(2,3) show ?thesis by simp
qed

end
