(* ===== verification/RL_Time.thy ===== *)
theory RL_Time
  imports RL_Prelude
begin

text \<open>
  The parts of \<open>std::time\<close> the crate uses: \<open>Duration\<close> as its pair of whole seconds and
  sub-second nanoseconds at their machine widths, and \<open>Instant\<close> as a reading of the
  monotonic clock in nanoseconds.  Both carry the derived order of the library type.
\<close>

section \<open>Duration\<close>

datatype Duration = Duration (as_secs: u64) (subsec_nanos: u32)

text \<open>
  The library keeps the nanoseconds below one second; \<open>wf_duration\<close> names that type
  invariant of \<open>std::time::Duration\<close>.
\<close>

definition wf_duration :: "Duration \<Rightarrow> bool" where
  "wf_duration d \<longleftrightarrow> unat (subsec_nanos d) < 1000000000"

definition dur_nanos :: "Duration \<Rightarrow> nat" where
  "dur_nanos d = unat (as_secs d) * 1000000000 + unat (subsec_nanos d)"

text \<open>\<open>#[derive(PartialOrd, Ord)]\<close> on the pair: lexicographic.\<close>

instantiation Duration :: linorder
begin

definition less_eq_Duration :: "Duration \<Rightarrow> Duration \<Rightarrow> bool" where
  "less_eq_Duration a b \<longleftrightarrow>
     as_secs a < as_secs b \<or> as_secs a = as_secs b \<and> subsec_nanos a \<le> subsec_nanos b"

definition less_Duration :: "Duration \<Rightarrow> Duration \<Rightarrow> bool" where
  "less_Duration a b \<longleftrightarrow>
     as_secs a < as_secs b \<or> as_secs a = as_secs b \<and> subsec_nanos a < subsec_nanos b"

instance
proof
  fix a b c :: Duration
  show "(a < b) = (a \<le> b \<and> \<not> b \<le> a)"
    by (auto simp: less_eq_Duration_def less_Duration_def)
  show "a \<le> a" by (simp add: less_eq_Duration_def)
  show "a \<le> b \<Longrightarrow> b \<le> c \<Longrightarrow> a \<le> c" by (auto simp: less_eq_Duration_def)
  show "a \<le> b \<Longrightarrow> b \<le> a \<Longrightarrow> a = b"
    by (cases a; cases b) (auto simp: less_eq_Duration_def)
  show "a \<le> b \<or> b \<le> a" by (auto simp: less_eq_Duration_def)
qed

end

definition from_secs :: "u64 \<Rightarrow> Duration" where
  "from_secs s = Duration s 0"

definition from_millis :: "u64 \<Rightarrow> Duration" where
  "from_millis m = Duration (m div 1000) (ucast (m mod 1000) * 1000000)"

definition as_millis :: "Duration \<Rightarrow> u128" where
  "as_millis d = ucast (as_secs d) * 1000 + ucast (subsec_nanos d div 1000000)"

text \<open>The duration of a given number of nanoseconds, when it is in range.\<close>

definition duration_of_nanos :: "nat \<Rightarrow> Duration" where
  "duration_of_nanos n = Duration (of_nat (n div 1000000000)) (of_nat (n mod 1000000000))"

lemma wf_from_secs [simp]: "wf_duration (from_secs s)"
  by (simp add: wf_duration_def from_secs_def)

lemma dur_nanos_from_secs [simp]: "dur_nanos (from_secs s) = unat s * 1000000000"
  by (simp add: dur_nanos_def from_secs_def)

lemma unat_millis_nanos:
  "unat (ucast (m mod 1000) * 1000000 :: u32) = unat (m :: u64) mod 1000 * 1000000"
proof -
  have "unat m mod 1000 < 1000" by simp
  then have "unat m mod 1000 < 2 ^ 32" by simp
  then have "unat (ucast (m mod 1000) :: u32) = unat m mod 1000"
    by (simp add: unsigned_ucast_eq unat_mod take_bit_nat_eq_self)
  moreover have "unat m mod 1000 * 1000000 < 4294967296"
    using mod_less_divisor [of 1000 "unat m"] by simp
  ultimately show ?thesis by (simp add: unat_word_ariths)
qed

lemma wf_from_millis [simp]: "wf_duration (from_millis m)"
  using mod_less_divisor [of 1000 "unat m"]
  by (simp add: wf_duration_def from_millis_def unat_millis_nanos)

lemma dur_nanos_from_millis [simp]: "dur_nanos (from_millis m) = unat m * 1000000"
proof -
  have "unat (m div 1000) = unat m div 1000" by (simp add: unat_div)
  moreover have "n div 1000 * 1000000000 + n mod 1000 * 1000000 = n * 1000000" for n :: nat
    using div_mult_mod_eq [of n 1000] by linarith
  ultimately show ?thesis
    by (simp add: dur_nanos_def from_millis_def unat_millis_nanos)
qed

lemma dur_nanos_less:
  assumes "wf_duration d"
  shows "dur_nanos d < 18446744073709551616 * 1000000000"
proof -
  have "unat (as_secs d) \<le> 18446744073709551615" using unat_less_64 [of "as_secs d"] by simp
  then show ?thesis using assms by (simp add: dur_nanos_def wf_duration_def)
qed

lemma duration_of_nanos_inverse:
  assumes "n < 18446744073709551616 * 1000000000"
  shows "dur_nanos (duration_of_nanos n) = n" "wf_duration (duration_of_nanos n)"
proof -
  have *: "n div 1000000000 < 18446744073709551616" using assms by (simp add: less_mult_imp_div_less)
  have "n mod 1000000000 < 4294967296" using mod_less_divisor [of 1000000000 n] by linarith
  with * show "dur_nanos (duration_of_nanos n) = n"
    by (simp add: dur_nanos_def duration_of_nanos_def unat_of_nat)
  show "wf_duration (duration_of_nanos n)"
    using \<open>n mod 1000000000 < 4294967296\<close>
    by (simp add: wf_duration_def duration_of_nanos_def unat_of_nat)
qed

lemma less_eq_Duration_nanos:
  assumes "wf_duration a" "wf_duration b"
  shows "a \<le> b \<longleftrightarrow> dur_nanos a \<le> dur_nanos b"
proof -
  have "unat (as_secs a) < unat (as_secs b) \<or>
      unat (as_secs a) = unat (as_secs b) \<and> unat (subsec_nanos a) \<le> unat (subsec_nanos b) \<longleftrightarrow>
      unat (as_secs a) * 1000000000 + unat (subsec_nanos a)
        \<le> unat (as_secs b) * 1000000000 + unat (subsec_nanos b)"
    using assms unfolding wf_duration_def by arith
  then show ?thesis
    by (simp add: less_eq_Duration_def dur_nanos_def word_less_nat_alt word_le_nat_alt u64_eq_iff)
qed

lemma less_Duration_nanos:
  "wf_duration a \<Longrightarrow> wf_duration b \<Longrightarrow> a < b \<longleftrightarrow> dur_nanos a < dur_nanos b"
  using less_eq_Duration_nanos [of b a] by (simp add: not_le [symmetric])

lemma unat_as_millis:
  "unat (as_millis d) = unat (as_secs d) * 1000 + unat (subsec_nanos d) div 1000000"
proof -
  have s: "unat (ucast (as_secs d) :: u128) = unat (as_secs d)"
    and n: "unat (ucast (subsec_nanos d div 1000000) :: u128) = unat (subsec_nanos d) div 1000000"
    using unat_less_64 [of "as_secs d"] unat_less_32 [of "subsec_nanos d"]
    by (simp_all add: unsigned_ucast_eq unat_div take_bit_nat_eq_self)
  have "unat (as_secs d) * 1000 + unat (subsec_nanos d) div 1000000 < 2 ^ 128"
    using unat_less_64 [of "as_secs d"] unat_less_32 [of "subsec_nanos d"] by simp
  then show ?thesis by (simp add: as_millis_def unat_word_ariths s n)
qed

lemma unat_as_millis_floor:
  "wf_duration d \<Longrightarrow> unat (as_millis d) = dur_nanos d div 1000000"
  by (simp add: unat_as_millis dur_nanos_def)

section \<open>Instant\<close>

text \<open>
  A reading of the monotonic clock.  On Unix the library keeps it as signed 64-bit seconds
  and nanoseconds below one second; as one signed count of nanoseconds the range of that
  pair ends at \<open>instant_max\<close>.
\<close>

datatype Instant = Instant (instant_nanos: int)

definition instant_max :: int where
  "instant_max = (2 ^ 63 - 1) * 1000000000 + 999999999"

instantiation Instant :: linorder
begin

definition less_eq_Instant :: "Instant \<Rightarrow> Instant \<Rightarrow> bool" where
  "less_eq_Instant a b \<longleftrightarrow> instant_nanos a \<le> instant_nanos b"

definition less_Instant :: "Instant \<Rightarrow> Instant \<Rightarrow> bool" where
  "less_Instant a b \<longleftrightarrow> instant_nanos a < instant_nanos b"

instance
  by standard
    (auto simp: less_eq_Instant_def less_Instant_def intro: Instant.expand)

end

definition checked_add :: "Instant \<Rightarrow> Duration \<Rightarrow> Instant option" where
  "checked_add i d =
     (let t = instant_nanos i + int (dur_nanos d)
      in if t \<le> instant_max then Some (Instant t) else None)"

definition saturating_duration_since :: "Instant \<Rightarrow> Instant \<Rightarrow> Duration" where
  "saturating_duration_since i earlier =
     duration_of_nanos (nat (instant_nanos i - instant_nanos earlier))"

lemma checked_add_Some:
  "checked_add i d = Some j \<Longrightarrow> instant_nanos j = instant_nanos i + int (dur_nanos d)"
  by (auto simp: checked_add_def Let_def split: if_splits)

lemma checked_add_None:
  "checked_add i d = None \<longleftrightarrow> instant_max < instant_nanos i + int (dur_nanos d)"
  by (auto simp: checked_add_def Let_def)

text \<open>A clock reading and an instant in range are at most \<open>2 ^ 64\<close> seconds apart.\<close>

definition instant_range :: "Instant \<Rightarrow> bool" where
  "instant_range i \<longleftrightarrow> - (2 ^ 63) * 1000000000 \<le> instant_nanos i \<and> instant_nanos i \<le> instant_max"

lemma dur_nanos_saturating_since:
  assumes "instant_range i" "instant_range earlier"
  shows "dur_nanos (saturating_duration_since i earlier)
       = nat (instant_nanos i - instant_nanos earlier)"
    and "wf_duration (saturating_duration_since i earlier)"
proof -
  have "nat (instant_nanos i - instant_nanos earlier) < 18446744073709551616 * 1000000000"
    using assms unfolding instant_range_def instant_max_def by (auto simp: nat_less_iff)
  then show "dur_nanos (saturating_duration_since i earlier)
      = nat (instant_nanos i - instant_nanos earlier)"
    and "wf_duration (saturating_duration_since i earlier)"
    by (simp_all add: saturating_duration_since_def duration_of_nanos_inverse)
qed

lemma checked_add_range:
  "instant_range i \<Longrightarrow> checked_add i d = Some j \<Longrightarrow> instant_range j"
  by (auto simp: checked_add_def Let_def instant_range_def split: if_splits)

end
