(* ===== verification/RL_Format.thy ===== *)
theory RL_Format
  imports RL_Prelude
begin

text \<open>
  Decimal formatting of integers, as \<open>Display\<close> of \<open>u64\<close> and \<open>i64\<close> prints them in the
  header values, error messages and keys of the crate, with a reader that inverts it.
\<close>

definition digit_char :: "nat \<Rightarrow> char" where
  "digit_char d = char_of (48 + d)"

fun show_nat :: "nat \<Rightarrow> string" where
  "show_nat n = (if n < 10 then [digit_char n] else show_nat (n div 10) @ [digit_char (n mod 10)])"

declare show_nat.simps [simp del]

definition show_u64 :: "u64 \<Rightarrow> string" where
  "show_u64 w = show_nat (unat w)"

definition show_i64 :: "i64 \<Rightarrow> string" where
  "show_i64 w = (if sint w < 0 then ''-'' @ show_nat (nat (- sint w)) else show_nat (nat (sint w)))"

definition is_digit :: "char \<Rightarrow> bool" where
  "is_digit c \<longleftrightarrow> 48 \<le> (of_char c :: nat) \<and> (of_char c :: nat) \<le> 57"

definition read_nat :: "string \<Rightarrow> nat" where
  "read_nat s = foldl (\<lambda>a c. a * 10 + (of_char c - 48)) 0 s"

lemma of_char_digit_char: "d < 10 \<Longrightarrow> (of_char (digit_char d) :: nat) = 48 + d"
  by (simp add: digit_char_def)

lemma is_digit_digit_char [simp]: "d < 10 \<Longrightarrow> is_digit (digit_char d)"
  by (simp add: is_digit_def of_char_digit_char)

lemma show_nat_digits: "list_all is_digit (show_nat n)"
proof (induction n rule: show_nat.induct)
  case (1 n)
  then show ?case
    by (cases "n < 10") (simp_all add: show_nat.simps [of n])
qed

lemma show_nat_not_Nil [simp]: "show_nat n \<noteq> []"
  by (subst show_nat.simps) simp

lemma read_nat_snoc: "read_nat (s @ [c]) = read_nat s * 10 + (of_char c - 48)"
  by (simp add: read_nat_def)

lemma read_show_nat [simp]: "read_nat (show_nat n) = n"
proof (induction n rule: show_nat.induct)
  case (1 n)
  show ?case
  proof (cases "n < 10")
    case True
    then show ?thesis
      by (simp add: show_nat.simps [of n] read_nat_def of_char_digit_char)
  next
    case False
    with 1 have "read_nat (show_nat (n div 10)) = n div 10" by simp
    with False show ?thesis
      by (simp add: show_nat.simps [of n] read_nat_snoc of_char_digit_char)
  qed
qed

lemma read_show_u64 [simp]: "read_nat (show_u64 w) = unat w"
  by (simp add: show_u64_def)

lemma show_nat_inject [simp]: "show_nat m = show_nat n \<longleftrightarrow> m = n"
  by (metis read_show_nat)

lemma show_u64_inject [simp]: "show_u64 a = show_u64 b \<longleftrightarrow> a = b"
  by (simp add: show_u64_def word_unat_eq_iff)

lemma show_u64_digits: "list_all is_digit (show_u64 w)"
  by (simp add: show_u64_def show_nat_digits)

lemma not_digit_notin_show_u64: "\<not> is_digit c \<Longrightarrow> c \<notin> set (show_u64 w)"
  using show_u64_digits [of w] by (auto simp: list_all_iff)

text \<open>Digits up to the first character that is not one: how a reader consumes a number.\<close>

definition take_digits :: "string \<Rightarrow> string \<times> string" where
  "take_digits s = (takeWhile is_digit s, dropWhile is_digit s)"

lemma take_digits_show:
  assumes "rest = [] \<or> \<not> is_digit (hd rest)"
  shows "take_digits (show_u64 w @ rest) = (show_u64 w, rest)"
proof -
  have all: "\<And>c. c \<in> set (show_u64 w) \<Longrightarrow> is_digit c"
    using show_u64_digits [of w] by (simp add: list_all_iff)
  have "takeWhile is_digit rest = []" "dropWhile is_digit rest = rest"
    using assms by (cases rest; simp)+
  with all show ?thesis
    by (simp add: take_digits_def takeWhile_append2 dropWhile_append2)
qed

end
