(* ===== verification/RL_Error.thy ===== *)
theory RL_Error
  imports RL_Time RL_Format
begin

text \<open>
  \<open>src/src/limiter/error.rs\<close>: the failures of a charged request, with their
  machine-readable code and diagnostic message, and the failures of the builder with theirs.
\<close>

datatype RateLimitError =
    Key string string
  | Quota string string
  | Store string string

fun code :: "RateLimitError \<Rightarrow> string" where
  "code (Key c _) = c"
| "code (Quota c _) = c"
| "code (Store c _) = c"

text \<open>The \<open>#[error(...)]\<close> format of each variant.\<close>

fun error_to_string :: "RateLimitError \<Rightarrow> string" where
  "error_to_string (Key c m) = ''client key unavailable ('' @ c @ ''): '' @ m"
| "error_to_string (Quota c m) = ''rate-limit quota unavailable ('' @ c @ ''): '' @ m"
| "error_to_string (Store c m) = ''rate-limit store unavailable ('' @ c @ ''): '' @ m"

datatype ConfigError =
    WindowTooShort Duration Duration
  | EmptyPolicyName

section \<open>The messages of configuration errors\<close>

text \<open>
  \<open>Debug\<close> of \<open>Duration\<close> in the standard library, which the message uses: the largest unit that
  leaves a whole part, and as many decimals as the value has.
\<close>

function frac_digits :: "nat \<Rightarrow> nat \<Rightarrow> string" where
  "frac_digits part divisor =
     (if part = 0 \<or> divisor = 0 then []
      else digit_char (part div divisor) # frac_digits (part mod divisor) (divisor div 10))"
  by pat_completeness auto
termination by (relation "measure snd") auto

declare frac_digits.simps [simp del]

definition fmt_decimal :: "nat \<Rightarrow> nat \<Rightarrow> nat \<Rightarrow> string \<Rightarrow> string" where
  "fmt_decimal integer_part fractional_part divisor postfix =
     show_nat integer_part @
     (if fractional_part = 0 then [] else ''.'' @ frac_digits fractional_part divisor) @ postfix"

definition debug_duration :: "Duration \<Rightarrow> string" where
  "debug_duration d =
     (let secs = unat (as_secs d); nanos = unat (subsec_nanos d)
      in if 0 < secs then fmt_decimal secs nanos 100000000 ''s''
         else if 1000000 \<le> nanos then fmt_decimal (nanos div 1000000) (nanos mod 1000000) 100000 ''ms''
         else if 1000 \<le> nanos then fmt_decimal (nanos div 1000) (nanos mod 1000) 100 [CHR 0xC2, CHR 0xB5, CHR ''s'']
         else fmt_decimal nanos 0 1 ''ns'')"

fun config_error_to_string :: "ConfigError \<Rightarrow> string" where
  "config_error_to_string (WindowTooShort w m) =
     ''rate-limit window '' @ debug_duration w @ '' is shorter than the minimum '' @ debug_duration m"
| "config_error_to_string EmptyPolicyName = ''empty policy name''"

lemma window_too_short_message:
  "config_error_to_string (WindowTooShort (Duration 0 999990) (Duration 0 1000000)) =
     ''rate-limit window 999.99'' @ [CHR 0xC2, CHR 0xB5] @ ''s is shorter than the minimum 1ms''"
  by (simp add: debug_duration_def fmt_decimal_def frac_digits.simps show_nat.simps digit_char_def
      char_of_def bit_iff_odd)

end
