(* ===== verification/RL_Http.thy ===== *)
theory RL_Http
  imports RL_Prelude
begin

text \<open>
  The values of the \<open>http\<close> crate that cross the middleware.  A request is its head (method,
  URI, version, headers and the extensions of other layers, all opaque here), the one
  extension slot this crate writes, and its body.  A response is its status, its header
  map and its body; version and extensions of a response are never touched.

  The header map and the header-value parser belong to the \<open>http\<close> crate, so they are
  parameters: a \<open>header_api\<close> gives the operations the code calls, and
  \<open>header_api_ok\<close> is what that crate documents about them.
\<close>

section \<open>Requests and responses\<close>

record ('p, 'x, 'b) request =
  parts :: 'p
  extension :: "'x option"
  body :: 'b

record ('h, 'b) response =
  status :: nat
  headers :: 'h
  res_body :: 'b

text \<open>\<open>StatusCode\<close> constants the crate names, and that of \<open>Response::new\<close>.\<close>

definition OK :: nat where "OK = 200"
definition TOO_MANY_REQUESTS :: nat where "TOO_MANY_REQUESTS = 429"
definition INTERNAL_SERVER_ERROR :: nat where "INTERNAL_SERVER_ERROR = 500"
definition SERVICE_UNAVAILABLE :: nat where "SERVICE_UNAVAILABLE = 503"

lemmas status_defs [rl_defs] =
  OK_def TOO_MANY_REQUESTS_def INTERNAL_SERVER_ERROR_def SERVICE_UNAVAILABLE_def

text \<open>
  \<open>Request::into_parts\<close> and \<open>Request::from_parts\<close>: the head (with the extensions) and the
  body are separated and joined again.
\<close>

definition into_parts :: "('p, 'x, 'b) request \<Rightarrow> ('p \<times> 'x option) \<times> 'b" where
  "into_parts r = ((parts r, extension r), body r)"

definition from_parts :: "'p \<times> 'x option \<Rightarrow> 'b \<Rightarrow> ('p, 'x, 'b) request" where
  "from_parts ps b = \<lparr>parts = fst ps, extension = snd ps, body = b\<rparr>"

text \<open>
  Methods generic in the body type cannot inspect the body; they see the request with a
  unit body.
\<close>

definition request_head :: "('p, 'x, 'b) request \<Rightarrow> ('p, 'x, unit) request" where
  "request_head r = from_parts (fst (into_parts r)) ()"

lemma from_into_parts [simp]: "from_parts (fst (into_parts r)) (snd (into_parts r)) = r"
  by (simp add: from_parts_def into_parts_def)

lemma into_from_parts [simp]: "into_parts (from_parts ps b) = (ps, b)"
  by (simp add: from_parts_def into_parts_def)

section \<open>The header map\<close>

record ('h, 'v) header_api =
  hm_new :: 'h
  hm_append :: "'h \<Rightarrow> string \<Rightarrow> 'v \<Rightarrow> 'h"
  hm_get_all :: "'h \<Rightarrow> string \<Rightarrow> 'v list"
  hv_from_str :: "string \<Rightarrow> 'v option"
  hv_as_bytes :: "'v \<Rightarrow> string"

definition visible_ascii :: "char \<Rightarrow> bool" where
  "visible_ascii c \<longleftrightarrow> 32 \<le> (of_char c :: nat) \<and> (of_char c :: nat) < 127"

text \<open>
  Documented behaviour: a fresh map has no values; \<open>append\<close> adds a value after those of the
  same name and leaves the other names alone; \<open>HeaderValue::from_str\<close> accepts every string of
  visible ASCII characters, and the value it gives carries the bytes of the string.
\<close>

definition header_api_ok :: "('h, 'v) header_api \<Rightarrow> bool" where
  "header_api_ok api \<longleftrightarrow>
     (\<forall>n. hm_get_all api (hm_new api) n = []) \<and>
     (\<forall>h m v n. hm_get_all api (hm_append api h m v) n =
        (if n = m then hm_get_all api h n @ [v] else hm_get_all api h n)) \<and>
     (\<forall>s. list_all visible_ascii s \<longrightarrow> (\<exists>v. hv_from_str api s = Some v)) \<and>
     (\<forall>s v. hv_from_str api s = Some v \<longrightarrow> hv_as_bytes api v = s)"

lemma header_api_new: "header_api_ok api \<Longrightarrow> hm_get_all api (hm_new api) n = []"
  by (simp add: header_api_ok_def)

lemma header_api_append:
  "header_api_ok api \<Longrightarrow> hm_get_all api (hm_append api h m v) n =
     (if n = m then hm_get_all api h n @ [v] else hm_get_all api h n)"
  by (simp add: header_api_ok_def)

lemma header_api_from_str:
  assumes "header_api_ok api" "list_all visible_ascii s"
  obtains v where "hv_from_str api s = Some v" "hv_as_bytes api v = s"
  using assms unfolding header_api_ok_def by blast

lemma header_api_bytes: "header_api_ok api \<Longrightarrow> hv_from_str api s = Some v \<Longrightarrow> hv_as_bytes api v = s"
  by (simp add: header_api_ok_def)

text \<open>The values of one name, as the bytes on the wire.\<close>

definition header_values :: "('h, 'v) header_api \<Rightarrow> ('h, 'b) response \<Rightarrow> string \<Rightarrow> string list" where
  "header_values api r n = map (hv_as_bytes api) (hm_get_all api (headers r) n)"

text \<open>
  A header map that keeps its entries in the order they were appended, and a parser that
  takes the visible ASCII strings: an instance of the interface for closed evaluations.
\<close>

definition list_header_api :: "((string \<times> string) list, string) header_api" where
  "list_header_api =
     \<lparr>hm_new = [],
      hm_append = (\<lambda>h n v. h @ [(n, v)]),
      hm_get_all = (\<lambda>h n. map snd (filter (\<lambda>p. fst p = n) h)),
      hv_from_str = (\<lambda>s. if list_all visible_ascii s then Some s else None),
      hv_as_bytes = (\<lambda>v. v)\<rparr>"

lemma list_header_api_ok: "header_api_ok list_header_api"
  by (simp add: header_api_ok_def list_header_api_def)

end
