(* ===== verification/RL_Policy.thy ===== *)
theory RL_Policy
  imports RL_Error RL_Format RL_Http
begin

text \<open>
  \<open>src/src/limiter/store.rs\<close> (the value types of the Store seam) and
  \<open>src/src/limiter/policy.rs\<close> (policy state, scoped keys, request context).
\<close>

section \<open>Store values\<close>

datatype StoreFailureMode = Reject | Allow

definition default_store_failure_mode :: StoreFailureMode where
  "default_store_failure_mode = Reject"

record Usage =
  used :: u64
  reset_after :: Duration

text \<open>The usages the contract of the seam allows: a positive count and a valid duration.\<close>

definition wf_usage :: "Usage \<Rightarrow> bool" where
  "wf_usage u \<longleftrightarrow> used u \<noteq> 0 \<and> wf_duration (reset_after u)"

section \<open>Policy state\<close>

datatype RateLimitFields = Draft7 | Draft11 | Disabled

record Policy =
  name :: string
  limit :: u64
  window :: Duration
  p_used :: u64
  p_reset_after :: Duration

definition from_usage :: "string \<Rightarrow> Duration \<Rightarrow> u64 \<Rightarrow> Usage \<Rightarrow> (RateLimitError, Policy) result" where
  "from_usage nm win lim u =
     (if used u = 0 then Inl (Store ''invalid_usage'' ''rate-limit store returned zero usage'')
      else Inr \<lparr>name = nm, limit = lim, window = win,
                p_used = used u, p_reset_after = reset_after u\<rparr>)"

definition remaining :: "Policy \<Rightarrow> u64" where
  "remaining p = saturating_sub (limit p) (p_used p)"

definition is_rate_limited :: "Policy \<Rightarrow> bool" where
  "is_rate_limited p \<longleftrightarrow> p_used p > limit p"

record RateLimitContext =
  policies :: "Policy list"

definition context_new :: RateLimitContext where
  "context_new = \<lparr>policies = []\<rparr>"

text \<open>\<open>RateLimitContext::policies\<close>.\<close>

definition borrow_policies :: "RateLimitContext \<Rightarrow> Policy list" where
  "borrow_policies c = policies c"

record ResponseMetadata =
  policy :: Policy
  m_fields :: RateLimitFields

definition metadata_new :: "Policy \<Rightarrow> RateLimitFields \<Rightarrow> ResponseMetadata" where
  "metadata_new p f = \<lparr>policy = p, m_fields = f\<rparr>"

lemma metadata_new_sel [simp]: "policy (metadata_new p f) = p" "m_fields (metadata_new p f) = f"
  by (simp_all add: metadata_new_def)

type_synonym ('p, 'b) http_request = "('p, RateLimitContext, 'b) request"

section \<open>Scoped keys\<close>

definition escape_key_part :: "string \<Rightarrow> string" where
  "escape_key_part value = replace_char (CHR '':'') ''%3A'' (replace_char (CHR ''%'') ''%25'' value)"

definition make_key :: "string \<Rightarrow> string \<Rightarrow> string" where
  "make_key policy_name client_key =
     escape_key_part policy_name @ '':'' @ escape_key_part client_key"

text \<open>
  \<open>get_or_insert_default\<close> on the context slot of the request extensions, then a push at the
  end of its policy vector.
\<close>

definition append_context :: "('p, 'b) http_request \<Rightarrow> ResponseMetadata \<Rightarrow> ('p, 'b) http_request" where
  "append_context request metadata =
     (let ctx = (case extension request of Some c \<Rightarrow> c | None \<Rightarrow> context_new)
      in request\<lparr>extension := Some (ctx\<lparr>policies := policies ctx @ [policy metadata]\<rparr>)\<rparr>)"

section \<open>Properties of policy states\<close>

lemma from_usage_error_iff: "isl (from_usage nm win lim u) \<longleftrightarrow> used u = 0"
  by (simp add: from_usage_def)

lemma unat_remaining: "unat (remaining p) = unat (limit p) - unat (p_used p)"
  by (simp add: remaining_def unat_saturating_sub)

lemma is_rate_limited_unat: "is_rate_limited p \<longleftrightarrow> unat (limit p) < unat (p_used p)"
  by (simp add: is_rate_limited_def word_less_nat_alt)

text \<open>
  Remaining quota is the truncated difference of limit and usage; a rate-limited policy
  has none left, and a policy with quota left is never rate limited.  The only usage at which
  an admitted request leaves no quota is the limit itself.
\<close>

theorem remaining_and_limited:
  "unat (remaining p) = unat (limit p) - unat (p_used p) \<and>
   (is_rate_limited p \<longleftrightarrow> unat (limit p) < unat (p_used p)) \<and>
   (remaining p = 0 \<longleftrightarrow> is_rate_limited p \<or> p_used p = limit p)"
  by (auto simp: unat_remaining is_rate_limited_unat u64_eq_iff)

section \<open>Properties of scoped keys\<close>

fun escape_chars :: "string \<Rightarrow> string" where
  "escape_chars [] = []"
| "escape_chars (c # s) =
     (if c = CHR ''%'' then ''%25'' else if c = CHR '':'' then ''%3A'' else [c]) @ escape_chars s"

text \<open>The two passes of \<open>escape_key_part\<close> amount to one pass over the characters.\<close>

lemma escape_key_part_eq: "escape_key_part s = escape_chars s"
  by (induction s) (auto simp: escape_key_part_def replace_char_append)

lemma colon_notin_escape: "CHR '':'' \<notin> set (escape_key_part s)"
  by (simp add: escape_key_part_eq) (induction s; simp)

text \<open>The reader that undoes the escaping.\<close>

fun unescape :: "string \<Rightarrow> string" where
  "unescape (a # b # c # s) =
     (if a = CHR ''%'' then
        (if b = CHR ''2'' \<and> c = CHR ''5'' then CHR ''%'' # unescape s
         else if b = CHR ''3'' \<and> c = CHR ''A'' then CHR '':'' # unescape s
         else a # unescape (b # c # s))
      else a # unescape (b # c # s))"
| "unescape s = s"

lemma unescape_Cons: "c \<noteq> CHR ''%'' \<Longrightarrow> unescape (c # s) = c # unescape s"
  by (cases s rule: unescape.cases) auto

lemma unescape_escape: "unescape (escape_chars s) = s"
  by (induction s) (auto simp: unescape_Cons)

definition split_key :: "string \<Rightarrow> string \<times> string" where
  "split_key k = (unescape (takeWhile (\<lambda>c. c \<noteq> CHR '':'') k),
                  unescape (tl (dropWhile (\<lambda>c. c \<noteq> CHR '':'') k)))"

text \<open>
  C31. the policy name and the client key can be read back from a scoped key, whatever
  colons and percent signs they contain.
\<close>

theorem split_make_key: "split_key (make_key policy_name client_key) = (policy_name, client_key)"
proof -
  have n: "\<And>c. c \<in> set (escape_key_part policy_name) \<Longrightarrow> c \<noteq> CHR '':''"
    using colon_notin_escape by metis
  show ?thesis
    by (simp add: split_key_def make_key_def takeWhile_append2 dropWhile_append2 n)
      (simp add: escape_key_part_eq unescape_escape)
qed

lemma escape_key_part_inject: "escape_key_part s = escape_key_part t \<longleftrightarrow> s = t"
proof
  assume "escape_key_part s = escape_key_part t"
  then have "unescape (escape_chars s) = unescape (escape_chars t)"
    by (simp only: escape_key_part_eq)
  then show "s = t" by (simp only: unescape_escape)
qed simp

lemma make_key_inject: "make_key p c = make_key p' c' \<longleftrightarrow> p = p' \<and> c = c'"
proof
  assume "make_key p c = make_key p' c'"
  then have "escape_key_part p @ CHR '':'' # escape_key_part c
      = escape_key_part p' @ CHR '':'' # escape_key_part c'"
    by (simp add: make_key_def)
  from split_at_unique [OF this colon_notin_escape colon_notin_escape]
  show "p = p' \<and> c = c'" by (simp add: escape_key_part_inject)
qed simp

text \<open>A scoped key has exactly one colon.\<close>

lemma count_colon_make_key: "count_list (make_key p c) (CHR '':'') = 1"
  using colon_notin_escape [of p] colon_notin_escape [of c]
  by (simp add: make_key_def count_list_append count_list_0_iff)

section \<open>Properties of the request context\<close>

lemma append_context_frame [rl_frame]:
  "parts (append_context r m) = parts r" "body (append_context r m) = body r"
  by (simp_all add: append_context_def Let_def)

definition context_policies :: "('p, 'b) http_request \<Rightarrow> Policy list" where
  "context_policies r = (case extension r of None \<Rightarrow> [] | Some c \<Rightarrow> borrow_policies c)"

lemma context_policies_append [simp]:
  "context_policies (append_context r m) = context_policies r @ [policy m]"
  by (simp add: context_policies_def borrow_policies_def append_context_def context_new_def Let_def split: option.split)

end
