(* ===== verification/RL_Response.thy ===== *)
theory RL_Response
  imports RL_Policy
begin

text \<open>
  \<open>src/src/limiter/response.rs\<close>: the structured reason of a middleware response, the
  default factory, and the decoration of responses with Rate Limit Fields.
\<close>

section \<open>Definitions\<close>

definition RATE_LIMIT :: string where "RATE_LIMIT = ''ratelimit''"
definition RATE_LIMIT_POLICY :: string where "RATE_LIMIT_POLICY = ''ratelimit-policy''"
definition RETRY_AFTER :: string where "RETRY_AFTER = ''retry-after''"

lemmas header_name_defs [rl_defs] = RATE_LIMIT_def RATE_LIMIT_POLICY_def RETRY_AFTER_def

definition default_rate_limit_fields :: RateLimitFields where
  "default_rate_limit_fields = Draft11"

datatype ResponseReason =
    Reason_RateLimited Policy
  | Reason_Error RateLimitError

fun status_code :: "ResponseReason \<Rightarrow> nat" where
  "status_code (Reason_RateLimited _) = TOO_MANY_REQUESTS"
| "status_code (Reason_Error (Key _ _)) = INTERNAL_SERVER_ERROR"
| "status_code (Reason_Error (Quota _ _)) = INTERNAL_SERVER_ERROR"
| "status_code (Reason_Error (Store _ _)) = SERVICE_UNAVAILABLE"

text \<open>
  A response factory is its \<open>build\<close> method.  It belongs to the application and may log, so it
  acts on the world \<open>'w\<close>.
\<close>

type_synonym ('w, 'p, 'b, 'h, 'r) factory =
  "('p, 'b) http_request \<Rightarrow> ResponseReason \<Rightarrow> 'w \<Rightarrow> ('h, 'r) response \<times> 'w"

text \<open>\<open>Response::new\<close>, and the \<open>build\<close> of \<open>DefaultResponseFactory\<close> for a body with a default.\<close>

definition response_new :: "('h, 'v) header_api \<Rightarrow> 'r \<Rightarrow> ('h, 'r) response" where
  "response_new hdr b = \<lparr>status = OK, headers = hm_new hdr, res_body = b\<rparr>"

definition default_build :: "('h, 'v) header_api \<Rightarrow> 'r \<Rightarrow> ('w, 'p, 'b, 'h, 'r) factory" where
  "default_build hdr default_body request reason w =
     ((response_new hdr default_body)\<lparr>status := status_code reason\<rparr>, w)"

datatype ('p, 'b) MiddlewareResponse =
    Middleware_RateLimited "('p, 'b) http_request" ResponseMetadata
  | Middleware_Error "('p, 'b) http_request" RateLimitError

definition ceil_seconds :: "Duration \<Rightarrow> u64" where
  "ceil_seconds duration =
     max (saturating_add (as_secs duration) (if subsec_nanos duration \<noteq> 0 then 1 else 0)) 1"

definition quoted :: "string \<Rightarrow> string" where
  "quoted s = [CHR 0x22] @ s @ [CHR 0x22]"

definition format_rate_limit_fields :: "ResponseMetadata \<Rightarrow> (string \<times> string) option" where
  "format_rate_limit_fields metadata =
     (if m_fields metadata = Disabled then None
      else
        let lim = show_u64 (limit (policy metadata));
            rem = show_u64 (remaining (policy metadata));
            reset = show_u64 (ceil_seconds (p_reset_after (policy metadata)));
            win = show_u64 (ceil_seconds (window (policy metadata)))
        in case m_fields metadata of
             Draft7 \<Rightarrow>
               Some (lim @ '';w='' @ win,
                     ''limit='' @ lim @ '', remaining='' @ rem @ '', reset='' @ reset)
           | Draft11 \<Rightarrow>
               (let policy_name = name (policy metadata)
                in Some (quoted policy_name @ '';q='' @ lim @ '';w='' @ win,
                         quoted policy_name @ '';r='' @ rem @ '';t='' @ reset))
           | Disabled \<Rightarrow> None)"

definition append_header ::
  "('h, 'v) header_api \<Rightarrow> ('h, 'r) response \<Rightarrow> string \<Rightarrow> string \<Rightarrow> ('h, 'r) response" where
  "append_header hdr response nm value =
     (case hv_from_str hdr value of
        Some v \<Rightarrow> response\<lparr>headers := hm_append hdr (headers response) nm v\<rparr>
      | None \<Rightarrow> response)"

definition append_rate_limit_fields ::
  "('h, 'v) header_api \<Rightarrow> ('h, 'r) response \<Rightarrow> ResponseMetadata \<Rightarrow> ('h, 'r) response" where
  "append_rate_limit_fields hdr response metadata =
     (case format_rate_limit_fields metadata of
        None \<Rightarrow> response
      | Some (pol, rate_limit) \<Rightarrow>
          append_header hdr (append_header hdr response RATE_LIMIT_POLICY pol) RATE_LIMIT rate_limit)"

definition append_rate_limited_response_headers ::
  "('h, 'v) header_api \<Rightarrow> ('h, 'r) response \<Rightarrow> ResponseMetadata \<Rightarrow> ('h, 'r) response" where
  "append_rate_limited_response_headers hdr response metadata =
     append_header hdr (append_rate_limit_fields hdr response metadata) RETRY_AFTER
       (show_u64 (ceil_seconds (p_reset_after (policy metadata))))"

definition append_inner_response_headers ::
  "('h, 'v) header_api \<Rightarrow> ('h, 'r) response \<Rightarrow> ResponseMetadata option \<Rightarrow> ('h, 'r) response" where
  "append_inner_response_headers hdr response metadata =
     (case metadata of Some m \<Rightarrow> append_rate_limit_fields hdr response m | None \<Rightarrow> response)"

fun finalize ::
  "('h, 'v) header_api \<Rightarrow> ('p, 'b) MiddlewareResponse \<Rightarrow> ('w, 'p, 'b, 'h, 'r) factory
    \<Rightarrow> 'w \<Rightarrow> ('h, 'r) response \<times> 'w" where
  "finalize hdr (Middleware_RateLimited request metadata) build w =
     (let reason = Reason_RateLimited (policy metadata);
          (response, w') = build request reason w
      in (append_rate_limited_response_headers hdr response metadata, w'))"
| "finalize hdr (Middleware_Error request error) build w = build request (Reason_Error error) w"

section \<open>Rounding\<close>

lemma unat_ceil_seconds:
  "unat (ceil_seconds d) =
     max (min (unat (as_secs d) + (if subsec_nanos d \<noteq> 0 then 1 else 0)) (2 ^ 64 - 1)) 1"
  by (simp add: ceil_seconds_def unat_max unat_saturating_add)

lemma ceil_nanos:
  assumes "wf_duration d"
  shows "(dur_nanos d + 999999999) div 1000000000 =
    unat (as_secs d) + (if subsec_nanos d \<noteq> 0 then 1 else 0)"
proof (cases "subsec_nanos d = 0")
  case True
  then show ?thesis by (simp add: dur_nanos_def)
next
  case False
  then have "0 < unat (subsec_nanos d)" by (simp add: unat_gt_0)
  with assms False show ?thesis
    by (simp add: dur_nanos_def wf_duration_def div_nat_eqI)
qed

text \<open>
  The seconds the fields report are the duration rounded up to whole seconds, at least
  one, and never more than a \<open>u64\<close> holds.
\<close>

theorem ceil_seconds_spec:
  assumes "wf_duration d"
  shows "unat (ceil_seconds d) =
    max 1 (min ((dur_nanos d + 999999999) div 1000000000) (2 ^ 64 - 1))"
  unfolding ceil_nanos [OF assms] unat_ceil_seconds by (simp only: max.commute)

theorem ceil_seconds_spec_witness:
  "wf_duration (Duration 59 1) \<and> unat (ceil_seconds (Duration 59 1)) = 60"
proof -
  have w: "wf_duration (Duration 59 1)" by (simp add: wf_duration_def)
  show ?thesis using w ceil_seconds_spec [OF w] by (simp add: dur_nanos_def)
qed

section \<open>Header values\<close>

lemma visible_digits: "list_all is_digit s \<Longrightarrow> list_all visible_ascii s"
  by (auto simp: list_all_iff is_digit_def visible_ascii_def)

lemma visible_literal [simp]:
  "visible_ascii (CHR '';'')" "visible_ascii (CHR ''='')" "visible_ascii (CHR '','')"
  "visible_ascii (CHR '' '')" "visible_ascii (CHR ''w'')" "visible_ascii (CHR ''q'')"
  "visible_ascii (CHR ''r'')" "visible_ascii (CHR ''t'')" "visible_ascii (CHR ''l'')"
  "visible_ascii (CHR ''i'')" "visible_ascii (CHR ''m'')" "visible_ascii (CHR ''e'')"
  "visible_ascii (CHR ''a'')" "visible_ascii (CHR ''n'')" "visible_ascii (CHR ''g'')"
  "visible_ascii (CHR ''s'')"
  by (simp_all add: visible_ascii_def)

lemma visible_show_u64 [simp]: "list_all visible_ascii (show_u64 w)"
  by (rule visible_digits) (rule show_u64_digits)

lemma visible_quoted [simp]: "list_all visible_ascii (quoted s) = list_all visible_ascii s"
  by (simp add: quoted_def visible_ascii_def)

text \<open>\<open>append_header\<close> adds the values the header map takes, and drops the others.\<close>

lemma header_values_append_if:
  assumes "header_api_ok hdr"
  shows "header_values hdr (append_header hdr r n s) m =
    header_values hdr r m @ (if m = n \<and> hv_from_str hdr s \<noteq> None then [s] else [])"
proof (cases "hv_from_str hdr s")
  case None
  then show ?thesis by (simp add: append_header_def)
next
  case (Some v)
  then have "hv_as_bytes hdr v = s" using header_api_bytes [OF assms] by simp
  then show ?thesis by (simp add: header_values_def append_header_def Some header_api_append [OF assms])
qed

lemma header_values_append_header:
  assumes "header_api_ok hdr" "list_all visible_ascii s"
  shows "header_values hdr (append_header hdr r n s) m =
    header_values hdr r m @ (if m = n then [s] else [])"
proof -
  obtain v where "hv_from_str hdr s = Some v" using header_api_from_str [OF assms] by metis
  then show ?thesis by (simp add: header_values_append_if [OF assms(1)])
qed

lemma append_header_frame [rl_frame]:
  "status (append_header hdr r n s) = status r" "res_body (append_header hdr r n s) = res_body r"
  by (simp_all add: append_header_def split: option.split)

lemma append_rate_limit_fields_frame [rl_frame]:
  "status (append_rate_limit_fields hdr r m) = status r"
  "res_body (append_rate_limit_fields hdr r m) = res_body r"
  by (simp_all add: append_rate_limit_fields_def append_header_frame split: option.split prod.split)

lemma append_rate_limited_frame [rl_frame]:
  "status (append_rate_limited_response_headers hdr r m) = status r"
  "res_body (append_rate_limited_response_headers hdr r m) = res_body r"
  by (simp_all add: append_rate_limited_response_headers_def append_header_frame
      append_rate_limit_fields_frame)

lemma append_inner_frame [rl_frame]:
  "status (append_inner_response_headers hdr r m) = status r"
  "res_body (append_inner_response_headers hdr r m) = res_body r"
  by (simp_all add: append_inner_response_headers_def append_rate_limit_fields_frame
      split: option.split)

text \<open>The two fields, named by what the configured revision emits.\<close>

definition field_values :: "ResponseMetadata \<Rightarrow> string \<Rightarrow> string list" where
  "field_values m n =
     (case format_rate_limit_fields m of
        None \<Rightarrow> []
      | Some (pol, rl) \<Rightarrow>
          if n = RATE_LIMIT_POLICY then [pol] else if n = RATE_LIMIT then [rl] else [])"

definition visible_name :: "ResponseMetadata \<Rightarrow> bool" where
  "visible_name m \<longleftrightarrow> (m_fields m = Draft11 \<longrightarrow> list_all visible_ascii (name (policy m)))"

lemma visible_fields:
  assumes "visible_name m" "format_rate_limit_fields m = Some (pol, rl)"
  shows "list_all visible_ascii pol" "list_all visible_ascii rl"
  using assms
  by (auto simp: visible_name_def format_rate_limit_fields_def Let_def
      split: RateLimitFields.splits if_splits)

lemma header_names_distinct [simp]:
  "RATE_LIMIT \<noteq> RATE_LIMIT_POLICY" "RATE_LIMIT_POLICY \<noteq> RATE_LIMIT"
  "RETRY_AFTER \<noteq> RATE_LIMIT" "RATE_LIMIT \<noteq> RETRY_AFTER"
  "RETRY_AFTER \<noteq> RATE_LIMIT_POLICY" "RATE_LIMIT_POLICY \<noteq> RETRY_AFTER"
  by (simp_all add: header_name_defs)

lemma header_values_append_taken:
  assumes "header_api_ok hdr"
  shows "header_values hdr (append_rate_limit_fields hdr r m) n =
    header_values hdr r n @ filter (\<lambda>s. hv_from_str hdr s \<noteq> None) (field_values m n)"
  by (auto simp: append_rate_limit_fields_def field_values_def header_values_append_if [OF assms]
      split: option.split)

lemma header_fields_taken:
  assumes "header_api_ok hdr" "visible_name m"
  shows "filter (\<lambda>s. hv_from_str hdr s \<noteq> None) (field_values m n) = field_values m n"
proof -
  have "hv_from_str hdr s \<noteq> None" if "list_all visible_ascii s" for s
    using header_api_from_str [OF assms(1) that] by auto
  then show ?thesis
    using visible_fields [OF assms(2)] by (simp add: field_values_def split: option.split)
qed

lemma header_values_append_fields:
  assumes "header_api_ok hdr" "visible_name m"
  shows "header_values hdr (append_rate_limit_fields hdr r m) n =
    header_values hdr r n @ field_values m n"
  by (simp only: header_values_append_taken [OF assms(1)] header_fields_taken [OF assms])

lemma field_values_other:
  "n \<noteq> RATE_LIMIT \<Longrightarrow> n \<noteq> RATE_LIMIT_POLICY \<Longrightarrow> field_values m n = []"
  by (simp add: field_values_def split: option.split prod.split)

lemma field_values_Disabled: "m_fields m = Disabled \<Longrightarrow> field_values m n = []"
  by (simp add: field_values_def format_rate_limit_fields_def)

text \<open>
  C39. a rate-limited response keeps the factory's status, body and headers.  After the existing
  values it gains those fields of the configured revision that \<open>HeaderValue::from_str\<close> takes, in
  the order written, and always exactly one \<open>Retry-After\<close> with the rounded-up reset time, also
  when the fields are disabled or refused.  No field is refused under \<open>Draft7\<close>, nor under
  \<open>Draft11\<close> when the policy name is visible ASCII; other names the builder accepts may lose both
  fields, and nothing else.
\<close>

theorem rate_limited_headers:
  assumes "header_api_ok hdr"
  shows "header_values hdr (append_rate_limited_response_headers hdr r m) n =
      header_values hdr r n @ filter (\<lambda>s. hv_from_str hdr s \<noteq> None) (field_values m n) @
      (if n = RETRY_AFTER then [show_u64 (ceil_seconds (p_reset_after (policy m)))] else [])
    \<and> (m_fields m = Draft7 \<or> list_all visible_ascii (name (policy m)) \<longrightarrow>
         filter (\<lambda>s. hv_from_str hdr s \<noteq> None) (field_values m n) = field_values m n)
    \<and> status (append_rate_limited_response_headers hdr r m) = status r
    \<and> res_body (append_rate_limited_response_headers hdr r m) = res_body r"
  using header_fields_taken [OF assms, of m]
  by (auto simp: append_rate_limited_response_headers_def append_header_frame
      append_rate_limit_fields_frame header_values_append_header [OF assms]
      header_values_append_taken [OF assms] visible_name_def)

definition sample_metadata :: "RateLimitFields \<Rightarrow> ResponseMetadata" where
  "sample_metadata f =
     \<lparr>policy = \<lparr>name = ''api'', limit = 2, window = Duration 60 0,
                p_used = 3, p_reset_after = Duration 41 5\<rparr>, m_fields = f\<rparr>"

lemma sample_visible: "visible_name (sample_metadata f)"
  by (simp add: visible_name_def sample_metadata_def visible_ascii_def)

lemma show_42: "show_nat 42 = ''42''"
  by code_simp

text \<open>A name with a line feed in it, which no header value can carry.\<close>

definition unprintable_metadata :: ResponseMetadata where
  "unprintable_metadata = (sample_metadata Draft11)
     \<lparr>policy := (policy (sample_metadata Draft11))\<lparr>name := [CHR 0x0A]\<rparr>\<rparr>"

theorem rate_limited_headers_witness:
  "header_values list_header_api
     (append_rate_limited_response_headers list_header_api (response_new list_header_api ())
        unprintable_metadata) RETRY_AFTER = [''42''] \<and>
   header_values list_header_api
     (append_rate_limited_response_headers list_header_api (response_new list_header_api ())
        unprintable_metadata) RATE_LIMIT = [] \<and>
   length (header_values list_header_api
     (append_rate_limited_response_headers list_header_api (response_new list_header_api ())
        (sample_metadata Draft11)) RATE_LIMIT) = 1"
proof -
  note spec = rate_limited_headers [OF list_header_api_ok, of "response_new list_header_api ()"]
  have refused: "filter (\<lambda>s. hv_from_str list_header_api s \<noteq> None) (field_values unprintable_metadata n) = []" for n
    by (auto simp: filter_empty_conv field_values_def format_rate_limit_fields_def unprintable_metadata_def
        sample_metadata_def list_header_api_def visible_ascii_def Let_def split: if_splits)
  have new: "header_values list_header_api (response_new list_header_api ()) n = []" for n
    by (simp add: header_values_def response_new_def list_header_api_def)
  have shown: "show_u64 (ceil_seconds (p_reset_after (policy unprintable_metadata))) = ''42''"
    by (simp add: unprintable_metadata_def sample_metadata_def show_u64_def unat_ceil_seconds show_42)
  have "list_all visible_ascii (name (policy (sample_metadata Draft11)))"
    using sample_visible [of Draft11] by (simp add: visible_name_def sample_metadata_def)
  then show ?thesis
    using spec [of unprintable_metadata RETRY_AFTER] spec [of unprintable_metadata RATE_LIMIT]
      spec [of "sample_metadata Draft11" RATE_LIMIT]
    unfolding refused new shown
    by (simp add: field_values_def format_rate_limit_fields_def sample_metadata_def Let_def)
qed

section \<open>Reading the fields back\<close>

text \<open>
  A reader for the structured-field syntax the fields use: a quoted string, in which a
  backslash escapes only a quote or a backslash, and integer parameters.
\<close>

fun read_sf_string :: "string \<Rightarrow> (string \<times> string) option" where
  "read_sf_string [] = None"
| "read_sf_string (c # s) =
     (if c = CHR 0x22 then Some ([], s)
      else if c = CHR 0x5C then
        (case s of
           d # s' \<Rightarrow> if d = CHR 0x22 \<or> d = CHR 0x5C
                     then map_option (apfst ((#) d)) (read_sf_string s') else None
         | [] \<Rightarrow> None)
      else map_option (apfst ((#) c)) (read_sf_string s))"

definition strip_prefix :: "string \<Rightarrow> string \<Rightarrow> string option" where
  "strip_prefix p s = (if take (length p) s = p then Some (drop (length p) s) else None)"

definition read_number :: "string \<Rightarrow> (nat \<times> string) option" where
  "read_number s = (case take_digits s of (ds, rest) \<Rightarrow> if ds = [] then None else Some (read_nat ds, rest))"

text \<open>Labelled integers one after the other, up to the end of the value.\<close>

fun read_params :: "string list \<Rightarrow> string \<Rightarrow> nat list option" where
  "read_params [] s = (if s = [] then Some [] else None)"
| "read_params (l # ls) s =
     (case strip_prefix l s of
        None \<Rightarrow> None
      | Some s' \<Rightarrow> (case read_number s' of
          None \<Rightarrow> None
        | Some (n, s'') \<Rightarrow> map_option ((#) n) (read_params ls s'')))"

definition read_item :: "string list \<Rightarrow> string \<Rightarrow> (string \<times> nat list) option" where
  "read_item labels s =
     (case s of
        [] \<Rightarrow> None
      | c # s' \<Rightarrow> if c \<noteq> CHR 0x22 then None
          else (case read_sf_string s' of
                  None \<Rightarrow> None
                | Some (nm, rest) \<Rightarrow> map_option (Pair nm) (read_params labels rest)))"

lemma strip_prefix_append [simp]: "strip_prefix p (p @ s) = Some s"
  by (simp add: strip_prefix_def)

lemma read_number_show:
  "rest = [] \<or> \<not> is_digit (hd rest) \<Longrightarrow> read_number (show_u64 w @ rest) = Some (unat w, rest)"
  by (simp add: read_number_def take_digits_show) (simp add: show_u64_def)

lemma read_sf_string_plain:
  "CHR 0x22 \<notin> set nm \<Longrightarrow> CHR 0x5C \<notin> set nm \<Longrightarrow> read_sf_string (nm @ CHR 0x22 # rest) = Some (nm, rest)"
  by (induction nm) auto

fun show_params :: "(string \<times> u64) list \<Rightarrow> string" where
  "show_params [] = []"
| "show_params ((l, v) # ps) = l @ show_u64 v @ show_params ps"

text \<open>Labels that start with a character that is not a digit delimit the numbers.\<close>

lemma read_params_show:
  "list_all (\<lambda>(l, v). l \<noteq> [] \<and> \<not> is_digit (hd l)) ps \<Longrightarrow>
   read_params (map fst ps) (show_params ps) = Some (map (unat \<circ> snd) ps)"
proof (induction ps)
  case Nil
  then show ?case by simp
next
  case (Cons p ps)
  obtain l v where p: "p = (l, v)" by (cases p)
  have "show_params ps = [] \<or> \<not> is_digit (hd (show_params ps))"
    using Cons.prems by (cases ps) auto
  then have "read_number (show_u64 v @ show_params ps) = Some (unat v, show_params ps)"
    by (rule read_number_show)
  with Cons p show ?case by simp
qed

lemma read_item_show:
  assumes "CHR 0x22 \<notin> set nm" "CHR 0x5C \<notin> set nm"
    and "list_all (\<lambda>(l, v). l \<noteq> [] \<and> \<not> is_digit (hd l)) ps"
  shows "read_item (map fst ps) (quoted nm @ show_params ps) = Some (nm, map (unat \<circ> snd) ps)"
  by (simp add: read_item_def quoted_def read_sf_string_plain [OF assms(1,2)]
      read_params_show [OF assms(3)])

lemma not_digit_literal [simp]:
  "\<not> is_digit (CHR '';'')" "\<not> is_digit (CHR ''l'')" "\<not> is_digit (CHR '','')"
  by (simp_all add: is_digit_def)

text \<open>
  C38. under draft 11 both fields read back, by structured-field rules, to the policy name and
  the numbers of the policy state, provided the name has neither a quote nor a backslash.
\<close>

theorem draft11_roundtrip:
  assumes "m_fields m = Draft11"
    and "CHR 0x22 \<notin> set (name (policy m))" "CHR 0x5C \<notin> set (name (policy m))"
  shows "\<exists>pol rl. format_rate_limit_fields m = Some (pol, rl) \<and>
    read_item ['';q='', '';w=''] pol =
      Some (name (policy m), [unat (limit (policy m)), unat (ceil_seconds (window (policy m)))]) \<and>
    read_item ['';r='', '';t=''] rl =
      Some (name (policy m),
        [unat (limit (policy m)) - unat (p_used (policy m)),
         unat (ceil_seconds (p_reset_after (policy m)))])"
  using read_item_show [OF assms(2,3), of "[('';q='', limit (policy m)),
      ('';w='', ceil_seconds (window (policy m)))]"]
    read_item_show [OF assms(2,3), of "[('';r='', remaining (policy m)),
      ('';t='', ceil_seconds (p_reset_after (policy m)))]"]
  by (simp add: format_rate_limit_fields_def assms(1) unat_remaining Let_def)

theorem draft11_roundtrip_witness:
  "m_fields (sample_metadata Draft11) = Draft11 \<and>
   (\<exists>pol rl. format_rate_limit_fields (sample_metadata Draft11) = Some (pol, rl) \<and>
      read_item ['';q='', '';w=''] pol = Some (''api'', [2, 60]) \<and>
      read_item ['';r='', '';t=''] rl = Some (''api'', [0, 42]))"
  using draft11_roundtrip [of "sample_metadata Draft11"]
  by (simp add: sample_metadata_def unat_ceil_seconds)

text \<open>
  Under draft 7 both fields read back to the limit, the window, the remaining quota and
  the reset time; the policy name is not carried.
\<close>

theorem draft7_roundtrip:
  assumes "m_fields m = Draft7"
  shows "\<exists>pol rl. format_rate_limit_fields m = Some (pol, rl) \<and>
    read_params ['''', '';w=''] pol =
      Some [unat (limit (policy m)), unat (ceil_seconds (window (policy m)))] \<and>
    read_params [''limit='', '', remaining='', '', reset=''] rl =
      Some [unat (limit (policy m)), unat (limit (policy m)) - unat (p_used (policy m)),
            unat (ceil_seconds (p_reset_after (policy m)))]"
proof -
  let ?p = "policy m"
  have "read_params ['''', '';w=''] (show_u64 (limit ?p) @ '';w='' @ show_u64 (ceil_seconds (window ?p)))
      = Some [unat (limit ?p), unat (ceil_seconds (window ?p))]"
    using read_params_show [of "[('';w='', ceil_seconds (window ?p))]"]
    by (simp add: strip_prefix_def read_number_show)
  moreover have "read_params [''limit='', '', remaining='', '', reset='']
      (''limit='' @ show_u64 (limit ?p) @ '', remaining='' @ show_u64 (remaining ?p)
        @ '', reset='' @ show_u64 (ceil_seconds (p_reset_after ?p)))
      = Some [unat (limit ?p), unat (limit ?p) - unat (p_used ?p),
          unat (ceil_seconds (p_reset_after ?p))]"
    using read_params_show [of "[(''limit='', limit ?p), ('', remaining='', remaining ?p),
        ('', reset='', ceil_seconds (p_reset_after ?p))]"]
    by (simp add: unat_remaining)
  ultimately show ?thesis
    by (simp add: format_rate_limit_fields_def assms Let_def del: read_params.simps)
qed

theorem draft7_roundtrip_witness:
  "m_fields (sample_metadata Draft7) = Draft7 \<and>
   (\<exists>pol rl. format_rate_limit_fields (sample_metadata Draft7) = Some (pol, rl) \<and>
      read_params ['''', '';w=''] pol = Some [2, 60] \<and>
      read_params [''limit='', '', remaining='', '', reset=''] rl = Some [2, 0, 42])"
  using draft7_roundtrip [of "sample_metadata Draft7"]
  by (simp add: sample_metadata_def unat_ceil_seconds)

section \<open>Responses to errors\<close>

text \<open>
  With the default factory an error of the middleware is answered with an empty default
  response: status 500 for a key or quota error, 503 for a store error, never 429, and neither
  rate-limit fields nor \<open>Retry-After\<close>; the world is left as it is.
\<close>

theorem default_error_responses:
  "\<exists>response. finalize hdr (Middleware_Error request e) (default_build hdr b) w = (response, w) \<and>
     headers response = hm_new hdr \<and> res_body response = b \<and>
     status response = (case e of Store c m \<Rightarrow> 503 | _ \<Rightarrow> 500)"
  by (cases e) (simp_all add: default_build_def response_new_def status_defs)

end
