(* ===== verification/RL_Async.thy ===== *)
theory RL_Async
  imports RL_Prelude
begin

text \<open>
  Futures and Tower services, as the language and the \<open>tower_service\<close> traits describe them.

  A future is what polling it does: given the world (everything shared with the rest of the
  process: the store, the clock, other tasks) it gives the new world and either a result,
  or the future to poll next, or a panic.  The type is coinductive, so a future may stay
  pending forever.  The value of a completed future is gone, as a Rust future must not be
  polled again.
\<close>

section \<open>Futures\<close>

datatype ('a, 'f) poll = Pending 'f | Ready 'a | Panic string

codatatype ('w, 'a) future = Future (poll_future: "'w \<Rightarrow> ('a, ('w, 'a) future) poll \<times> 'w")

text \<open>\<open>std::future::ready\<close>.\<close>

definition ready :: "'a \<Rightarrow> ('w, 'a) future" where
  "ready a = Future (\<lambda>w. (Ready a, w))"

lemma poll_ready [simp]: "poll_future (ready a) w = (Ready a, w)"
  by (simp add: ready_def)

text \<open>A future that is pending for \<open>n\<close> polls and then ready.\<close>

fun delayed :: "nat \<Rightarrow> 'a \<Rightarrow> ('w, 'a) future" where
  "delayed 0 a = ready a"
| "delayed (Suc n) a = Future (\<lambda>w. (Pending (delayed n a), w))"

section \<open>Awaiting\<close>

text \<open>
  \<open>awaits R f w r w'\<close>: the executor polls \<open>f\<close> from world \<open>w\<close> until it is ready with \<open>r\<close>,
  leaving world \<open>w'\<close>.  Between two polls other tasks may change the world by a step of \<open>R\<close>;
  with \<open>R\<close> the equality nothing interferes, with \<open>R\<close> always true anything may.
\<close>

inductive awaits ::
  "('w \<Rightarrow> 'w \<Rightarrow> bool) \<Rightarrow> ('w, 'a) future \<Rightarrow> 'w \<Rightarrow> 'a \<Rightarrow> 'w \<Rightarrow> bool" for R where
  awaits_ready: "poll_future f w = (Ready r, w') \<Longrightarrow> awaits R f w r w'"
| awaits_pending: "poll_future f w = (Pending f', w1) \<Longrightarrow> R w1 w2 \<Longrightarrow> awaits R f' w2 r w' \<Longrightarrow>
     awaits R f w r w'"

lemma awaits_unfold:
  "awaits R f w r w' \<longleftrightarrow>
     (case poll_future f w of
        (Ready x, v) \<Rightarrow> r = x \<and> w' = v
      | (Pending g, v) \<Rightarrow> \<exists>v2. R v v2 \<and> awaits R g v2 r w'
      | (Panic m, v) \<Rightarrow> False)"
  by (subst awaits.simps) (auto split: prod.split poll.split)

lemma awaits_ready_iff [simp]: "awaits R (ready a) w r w' \<longleftrightarrow> r = a \<and> w' = w"
  by (simp add: awaits_unfold)

lemma awaits_deterministic:
  assumes "awaits (=) f w r w'" "awaits (=) f w r2 w2"
  shows "r2 = r \<and> w2 = w'"
  using assms
proof (induction arbitrary: r2 w2 rule: awaits.induct)
  case (awaits_ready f w r w')
  then show ?case by (auto elim: awaits.cases)
next
  case (awaits_pending f w f' w1 w2' r w')
  from awaits_pending.prems awaits_pending.hyps(1,2) have "awaits (=) f' w2' r2 w2"
    by (auto elim: awaits.cases)
  then show ?case by (rule awaits_pending.IH)
qed

lemma awaits_mono: "awaits R f w r w' \<Longrightarrow> (\<And>a b. R a b \<Longrightarrow> S a b) \<Longrightarrow> awaits S f w r w'"
  by (induction rule: awaits.induct) (auto intro: awaits.intros)

lemma awaits_delayed: "awaits (=) (delayed n a) w a w"
  by (induction n) (auto intro: awaits.intros)

text \<open>
  Running a future for at most a given number of polls with nothing interfering, for closed
  evaluations: \<open>None\<close> when it is still pending or has panicked.
\<close>

fun block_on :: "nat \<Rightarrow> ('w, 'a) future \<Rightarrow> 'w \<Rightarrow> ('a \<times> 'w) option" where
  "block_on 0 f w = None"
| "block_on (Suc n) f w =
     (case poll_future f w of
        (Ready r, w') \<Rightarrow> Some (r, w')
      | (Pending f', w') \<Rightarrow> block_on n f' w'
      | (Panic m, w') \<Rightarrow> None)"

lemma block_on_awaits: "block_on n f w = Some (r, w') \<Longrightarrow> awaits (=) f w r w'"
  by (induction n arbitrary: f w) (auto split: prod.splits poll.splits intro: awaits.intros)

lemma awaits_block_on: "awaits (=) f w r w' \<Longrightarrow> \<exists>n. block_on n f w = Some (r, w')"
proof (induction rule: awaits.induct)
  case (awaits_ready f w r w')
  then have "block_on 1 f w = Some (r, w')" by simp
  then show ?case ..
next
  case (awaits_pending f w f' w1 w2 r w')
  then obtain n where "block_on n f' w2 = Some (r, w')" by blast
  with awaits_pending.hyps have "block_on (Suc n) f w = Some (r, w')" by simp
  then show ?case ..
qed

section \<open>Certain completion\<close>

text \<open>
  \<open>finishes R f w\<close>: polled from \<open>w\<close>, the future \<open>f\<close> becomes ready after finitely many polls and
  never panics, whatever steps of \<open>R\<close> other tasks take between the polls.
\<close>

inductive finishes :: "('w \<Rightarrow> 'w \<Rightarrow> bool) \<Rightarrow> ('w, 'a) future \<Rightarrow> 'w \<Rightarrow> bool" for R where
  finishes_ready: "poll_future f w = (Ready r, w') \<Longrightarrow> finishes R f w"
| finishes_pending: "poll_future f w = (Pending f', w1) \<Longrightarrow> (\<And>w2. R w1 w2 \<Longrightarrow> finishes R f' w2) \<Longrightarrow>
     finishes R f w"

lemma finishes_unfold:
  "finishes R f w \<longleftrightarrow>
     (case poll_future f w of
        (Ready x, v) \<Rightarrow> True
      | (Pending g, v) \<Rightarrow> \<forall>v2. R v v2 \<longrightarrow> finishes R g v2
      | (Panic m, v) \<Rightarrow> False)"
  by (subst finishes.simps) (auto split: prod.split poll.split)

lemma finishes_ready_future [simp]: "finishes R (ready a) w"
  by (simp add: finishes_unfold)

lemma finishes_delayed: "finishes R (delayed n a) w"
proof (induction n arbitrary: w)
  case (Suc n)
  then show ?case by (subst finishes_unfold) simp
qed simp

lemma finishes_awaits: "finishes (=) f w \<Longrightarrow> \<exists>r w'. awaits (=) f w r w'"
  by (induction rule: finishes.induct) (auto intro: awaits.intros)

section \<open>Services\<close>

text \<open>
  The \<open>tower_service::Service\<close> and \<open>Clone\<close> methods of an inner service whose instances have
  type \<open>'s\<close>.  An instance is passed explicitly, so that it is visible which instance a
  method is called on.
\<close>

record ('w, 's, 'req, 'res, 'e) service =
  svc_poll_ready :: "'s \<Rightarrow> 'w \<Rightarrow> ('e + unit, unit) poll \<times> 's \<times> 'w"
  svc_call :: "'s \<Rightarrow> 'req \<Rightarrow> 'w \<Rightarrow> ('w, 'e + 'res) future \<times> 's \<times> 'w"
  svc_clone :: "'s \<Rightarrow> 'w \<Rightarrow> 's \<times> 'w"

end
