(* ===== verification/RL_Ip.thy ===== *)
theory RL_Ip
  imports RL_Format
begin

text \<open>
  The addresses of \<open>std::net\<close> and their \<open>Display\<close> form, which is the text the built-in extractors
  turn an address into: dotted decimals, and for version 6 lower-case hexadecimal groups with the
  first longest run of at least two zero groups left out.  A reader shows that the text
  determines the address.
\<close>

section \<open>Addresses\<close>

type_synonym u8 = "8 word"
type_synonym u16 = "16 word"

datatype Ipv4Addr = Ipv4Addr u8 u8 u8 u8

datatype Ipv6Addr = Ipv6Addr u16 u16 u16 u16 u16 u16 u16 u16

datatype IpAddr = V4 Ipv4Addr | V6 Ipv6Addr

fun octets :: "Ipv4Addr \<Rightarrow> u8 list" where
  "octets (Ipv4Addr a b c d) = [a, b, c, d]"

fun segments :: "Ipv6Addr \<Rightarrow> u16 list" where
  "segments (Ipv6Addr a b c d e f g h) = [a, b, c, d, e, f, g, h]"

text \<open>\<open>Ipv6Addr::to_ipv4_mapped\<close>.\<close>

fun to_ipv4_mapped :: "Ipv6Addr \<Rightarrow> Ipv4Addr option" where
  "to_ipv4_mapped (Ipv6Addr a b c d e f g h) =
     (if [a, b, c, d, e, f] = [0, 0, 0, 0, 0, 0xFFFF]
      then Some (Ipv4Addr (ucast (g div 256)) (ucast g) (ucast (h div 256)) (ucast h))
      else None)"

section \<open>Their text\<close>

definition hex_char :: "nat \<Rightarrow> char" where
  "hex_char d = char_of (if d < 10 then 48 + d else 87 + d)"

text \<open>\<open>{:x}\<close>.\<close>

fun show_hex :: "nat \<Rightarrow> string" where
  "show_hex n = (if n < 16 then [hex_char n] else show_hex (n div 16) @ [hex_char (n mod 16)])"

declare show_hex.simps [simp del]

text \<open>Words with a separator between them.\<close>

fun separated :: "char \<Rightarrow> string list \<Rightarrow> string" where
  "separated c [] = []"
| "separated c (x # xs) = x @ concat (map (\<lambda>y. c # y) xs)"

definition ipv4_to_string :: "Ipv4Addr \<Rightarrow> string" where
  "ipv4_to_string ip = separated (CHR ''.'') (map (\<lambda>b. show_nat (unat b)) (octets ip))"

text \<open>The loop that finds the span of zeros: the longest so far, the current one, and the index.\<close>

record span =
  sp_start :: nat
  sp_len :: nat

fun zero_span :: "span \<Rightarrow> span \<Rightarrow> nat \<Rightarrow> u16 list \<Rightarrow> span" where
  "zero_span longest current i [] = longest"
| "zero_span longest current i (segment # rest) =
     (if segment = 0
      then let start = (if sp_len current = 0 then i else sp_start current);
               current' = \<lparr>sp_start = start, sp_len = sp_len current + 1\<rparr>;
               longest' = (if sp_len current' > sp_len longest then current' else longest)
           in zero_span longest' current' (i + 1) rest
      else zero_span longest \<lparr>sp_start = 0, sp_len = 0\<rparr> (i + 1) rest)"

definition fmt_subslice :: "u16 list \<Rightarrow> string" where
  "fmt_subslice chunk = separated (CHR '':'') (map (\<lambda>s. show_hex (unat s)) chunk)"

definition ipv6_to_string :: "Ipv6Addr \<Rightarrow> string" where
  "ipv6_to_string ip =
     (case to_ipv4_mapped ip of
        Some ipv4 \<Rightarrow> ''::ffff:'' @ ipv4_to_string ipv4
      | None \<Rightarrow>
          (let zeroes = zero_span \<lparr>sp_start = 0, sp_len = 0\<rparr> \<lparr>sp_start = 0, sp_len = 0\<rparr> 0 (segments ip)
           in if sp_len zeroes > 1
              then fmt_subslice (take (sp_start zeroes) (segments ip)) @ ''::'' @
                   fmt_subslice (drop (sp_start zeroes + sp_len zeroes) (segments ip))
              else fmt_subslice (segments ip)))"

fun ip_to_string :: "IpAddr \<Rightarrow> string" where
  "ip_to_string (V4 ip) = ipv4_to_string ip"
| "ip_to_string (V6 ip) = ipv6_to_string ip"

section \<open>Reading an address back\<close>

fun split_on :: "char \<Rightarrow> string \<Rightarrow> string list" where
  "split_on c [] = [[]]"
| "split_on c (x # s) = (if x = c then [] # split_on c s
     else case split_on c s of [] \<Rightarrow> [[x]] | t # ts \<Rightarrow> (x # t) # ts)"

definition hex_value :: "char \<Rightarrow> nat" where
  "hex_value c = (if (of_char c :: nat) < 58 then of_char c - 48 else of_char c - 87)"

definition read_hex :: "string \<Rightarrow> nat" where
  "read_hex s = foldl (\<lambda>a c. a * 16 + hex_value c) 0 s"

fun ipv4_of :: "nat list \<Rightarrow> Ipv4Addr option" where
  "ipv4_of [a, b, c, d] = Some (Ipv4Addr (of_nat a) (of_nat b) (of_nat c) (of_nat d))"
| "ipv4_of _ = None"

fun ipv6_of :: "nat list \<Rightarrow> Ipv6Addr option" where
  "ipv6_of [a, b, c, d, e, f, g, h] =
     Some (Ipv6Addr (of_nat a) (of_nat b) (of_nat c) (of_nat d) (of_nat e) (of_nat f) (of_nat g) (of_nat h))"
| "ipv6_of _ = None"

definition read_ipv4 :: "string \<Rightarrow> Ipv4Addr option" where
  "read_ipv4 s = ipv4_of (map read_nat (split_on (CHR ''.'') s))"

text \<open>The groups before an omission, as many zeros as are missing, and the groups after it.\<close>

definition expand :: "string list \<Rightarrow> nat list" where
  "expand ws =
     (let before = takeWhile (\<lambda>w. w \<noteq> []) ws; after = filter (\<lambda>w. w \<noteq> []) (dropWhile (\<lambda>w. w \<noteq> []) ws)
      in map read_hex before @ replicate (8 - length before - length after) 0 @ map read_hex after)"

fun mapped :: "Ipv4Addr \<Rightarrow> Ipv6Addr" where
  "mapped (Ipv4Addr a b c d) =
     Ipv6Addr 0 0 0 0 0 0xFFFF (ucast a * 256 + ucast b) (ucast c * 256 + ucast d)"

definition read_ip :: "string \<Rightarrow> IpAddr option" where
  "read_ip s =
     (if CHR '':'' \<notin> set s then map_option V4 (read_ipv4 s)
      else if CHR ''.'' \<in> set s then map_option (\<lambda>ip. V6 (mapped ip)) (read_ipv4 (drop 7 s))
      else map_option V6 (ipv6_of (expand (split_on (CHR '':'') s))))"

section \<open>Words and separators\<close>

lemma split_on_whole: "c \<notin> set x \<Longrightarrow> split_on c x = [x]"
  by (induction x) auto

lemma split_on_word: "c \<notin> set x \<Longrightarrow> split_on c (x @ c # s) = x # split_on c s"
  by (induction x) auto

lemma split_on_separated:
  assumes "\<forall>x \<in> set xs. c \<notin> set x"
  shows "split_on c (separated c xs @ c # s) = (if xs = [] then [[]] else xs) @ split_on c s"
    and "xs \<noteq> [] \<Longrightarrow> split_on c (separated c xs) = xs"
proof -
  have more: "split_on c (x @ concat (map ((#) c) xs) @ c # s) = x # xs @ split_on c s" if "c \<notin> set x" for x
    using that assms
  proof (induction xs arbitrary: x)
    case (Cons y ys)
    then show ?case by (simp add: split_on_word)
  qed (simp add: split_on_word)
  have last: "split_on c (x @ concat (map ((#) c) xs)) = x # xs" if "c \<notin> set x" for x
    using that assms
  proof (induction xs arbitrary: x)
    case (Cons y ys)
    then show ?case by (simp add: split_on_word)
  qed (simp add: split_on_whole)
  show "split_on c (separated c xs @ c # s) = (if xs = [] then [[]] else xs) @ split_on c s"
  proof (cases xs)
    case (Cons x ys)
    then show ?thesis
      using assms more [of "[]"] by (cases ys) (simp_all add: split_on_word)
  qed simp
  show "split_on c (separated c xs) = xs" if "xs \<noteq> []"
    using that assms last [of "[]"] by (cases xs) (simp_all add: split_on_word)
qed

lemma set_separated: "set (separated c xs) \<subseteq> {c} \<union> (\<Union>x \<in> set xs. set x)"
  by (cases xs) auto

section \<open>Hexadecimal groups\<close>

definition is_hex :: "char \<Rightarrow> bool" where
  "is_hex c \<longleftrightarrow> is_digit c \<or> 97 \<le> (of_char c :: nat) \<and> (of_char c :: nat) \<le> 102"

lemma hex_char: "d < 16 \<Longrightarrow> is_hex (hex_char d) \<and> hex_value (hex_char d) = d"
  by (auto simp: hex_char_def is_hex_def is_digit_def hex_value_def)

lemma show_hex_chars: "list_all is_hex (show_hex n)"
proof (induction n rule: show_hex.induct)
  case (1 n)
  then show ?case by (cases "n < 16") (simp_all add: show_hex.simps [of n] hex_char)
qed

lemma show_hex_not_Nil [simp]: "show_hex n \<noteq> []" "[] \<noteq> show_hex n"
  by (subst show_hex.simps, simp)+

lemma read_show_hex [simp]: "read_hex (show_hex n) = n"
proof (induction n rule: show_hex.induct)
  case (1 n)
  show ?case
  proof (cases "n < 16")
    case False
    with 1 have "read_hex (show_hex (n div 16)) = n div 16" by simp
    with False show ?thesis by (simp add: show_hex.simps [of n] read_hex_def hex_char)
  qed (simp add: show_hex.simps [of n] read_hex_def hex_char)
qed

lemma hex_no_separator: "CHR '':'' \<notin> set (show_hex n)" "CHR ''.'' \<notin> set (show_hex n)"
  using show_hex_chars [of n] by (auto simp: list_all_iff is_hex_def is_digit_def)

lemma digits_no_separator: "CHR '':'' \<notin> set (show_nat n)" "CHR ''.'' \<notin> set (show_nat n)"
  using show_nat_digits [of n] by (auto simp: list_all_iff is_digit_def)

section \<open>The span of zeros\<close>

definition zeros_at :: "u16 list \<Rightarrow> span \<Rightarrow> bool" where
  "zeros_at xs sp \<longleftrightarrow> sp_start sp + sp_len sp \<le> length xs \<and>
     (\<forall>j. sp_start sp \<le> j \<and> j < sp_start sp + sp_len sp \<longrightarrow> xs ! j = 0)"

lemma zero_span_zeros:
  assumes "xs = dn @ rest" "i = length dn" "zeros_at xs longest" "zeros_at xs current"
    and "0 < sp_len current \<longrightarrow> sp_start current + sp_len current = i"
  shows "zeros_at xs (zero_span longest current i rest)"
  using assms
proof (induction rest arbitrary: dn i longest current)
  case (Cons x rest)
  have x: "xs ! i = x" "i < length xs" using Cons.prems(1,2) by (simp_all add: nth_append)
  show ?case
  proof (cases "x = 0")
    case True
    let ?current = "\<lparr>sp_start = if sp_len current = 0 then i else sp_start current, sp_len = sp_len current + 1\<rparr>"
    have now: "zeros_at xs ?current"
      using Cons.prems(4,5) x True by (auto simp: zeros_at_def less_Suc_eq)
    have "zeros_at xs (zero_span l ?current (i + 1) rest)" if "zeros_at xs l" for l
      using Cons.prems(1,2,5) by (intro Cons.IH [OF _ _ that now, of "dn @ [x]"]) auto
    then show ?thesis using True now Cons.prems(3) by (simp add: Let_def)
  next
    case False
    have none: "zeros_at xs \<lparr>sp_start = 0, sp_len = 0\<rparr>" by (simp add: zeros_at_def)
    have "zeros_at xs (zero_span longest \<lparr>sp_start = 0, sp_len = 0\<rparr> (i + 1) rest)"
      using Cons.prems(1,2) by (intro Cons.IH [OF _ _ Cons.prems(3) none, of "dn @ [x]"]) auto
    with False show ?thesis by simp
  qed
qed simp

lemma zeros_at_split:
  assumes "zeros_at xs sp"
  shows "xs = take (sp_start sp) xs @ replicate (sp_len sp) 0 @ drop (sp_start sp + sp_len sp) xs"
  using assms by (intro nth_equalityI) (auto simp: zeros_at_def nth_append)

section \<open>The text determines the address\<close>

lemma read_ipv4_to_string: "read_ipv4 (ipv4_to_string ip) = Some ip"
proof -
  have "split_on (CHR ''.'') (ipv4_to_string ip) = map (\<lambda>b. show_nat (unat b)) (octets ip)"
    unfolding ipv4_to_string_def
    by (rule split_on_separated(2)) (auto simp: digits_no_separator, cases ip, simp)
  then show ?thesis by (cases ip) (simp add: read_ipv4_def)
qed

lemma ipv4_chars: "CHR '':'' \<notin> set (ipv4_to_string ip)" "CHR ''.'' \<in> set (ipv4_to_string ip)"
  by (cases ip; simp add: ipv4_to_string_def digits_no_separator)+

lemma mapped_to_ipv4:
  assumes "to_ipv4_mapped ip = Some ipv4"
  shows "mapped ipv4 = ip"
proof -
  have join: "ucast (ucast (g div 256) :: u8) * 256 + ucast (ucast g :: u8) = g" for g :: u16
  proof -
    have "unat g < 65536" using unsigned_less [of g, where 'a = nat] by simp
    then have "unat g div 256 < 256" by (simp add: less_mult_imp_div_less)
    then show ?thesis
      by (simp add: word_unat_eq_iff unat_word_ariths unsigned_ucast_eq unat_div take_bit_eq_mod)
  qed
  show ?thesis using assms by (cases ip) (auto simp: join split: if_splits)
qed

lemma expand_words:
  assumes "length a + length b \<le> 8"
  shows "expand ((if a = [] then [[]] else map (\<lambda>s. show_hex (unat s)) a) @ [] #
      (if b = [] then [[]] else map (\<lambda>s. show_hex (unat s)) b)) =
    map unat a @ replicate (8 - length a - length b) 0 @ map unat b"
  by (auto simp: expand_def takeWhile_append dropWhile_append filter_map comp_def takeWhile_map dropWhile_map
      takeWhile_eq_all_conv dropWhile_eq_Nil_conv)

lemma expand_ipv6:
  assumes "to_ipv4_mapped ip = None"
  shows "expand (split_on (CHR '':'') (ipv6_to_string ip)) = map unat (segments ip)"
proof -
  define sp where "sp = zero_span \<lparr>sp_start = 0, sp_len = 0\<rparr> \<lparr>sp_start = 0, sp_len = 0\<rparr> 0 (segments ip)"
  have len: "length (segments ip) = 8" by (cases ip) simp
  have words: "\<forall>x \<in> set (map (\<lambda>s. show_hex (unat s)) xs). CHR '':'' \<notin> set x" for xs :: "u16 list"
    by (simp add: hex_no_separator)
  show ?thesis
  proof (cases "sp_len sp > 1")
    case True
    have "zeros_at (segments ip) sp"
      unfolding sp_def by (rule zero_span_zeros [of _ "[]"]) (simp_all add: zeros_at_def)
    note zs = this zeros_at_split [OF this]
    let ?a = "take (sp_start sp) (segments ip)" and ?b = "drop (sp_start sp + sp_len sp) (segments ip)"
    have n: "length ?a + length ?b \<le> 8" "8 - length ?a - length ?b = sp_len sp"
      using zs(1) len by (auto simp: zeros_at_def)
    have shown: "ipv6_to_string ip = separated (CHR '':'') (map (\<lambda>s. show_hex (unat s)) ?a) @ CHR '':'' # CHR '':'' #
        separated (CHR '':'') (map (\<lambda>s. show_hex (unat s)) ?b)"
      using assms True by (simp add: ipv6_to_string_def sp_def [symmetric] Let_def fmt_subslice_def)
    have rest: "split_on (CHR '':'') (separated (CHR '':'') (map (\<lambda>s. show_hex (unat s)) ?b)) =
        (if ?b = [] then [[]] else map (\<lambda>s. show_hex (unat s)) ?b)"
      using split_on_separated(2) [OF words [of ?b]] by auto
    have "split_on (CHR '':'') (ipv6_to_string ip) =
        (if ?a = [] then [[]] else map (\<lambda>s. show_hex (unat s)) ?a) @ [] #
        (if ?b = [] then [[]] else map (\<lambda>s. show_hex (unat s)) ?b)"
      unfolding shown by (subst split_on_separated(1) [OF words]) (simp add: rest)
    then show ?thesis
      by (simp only: expand_words [OF n(1)] n(2)) (subst (3) zs(2), simp)
  next
    case False
    then have "split_on (CHR '':'') (ipv6_to_string ip) = map (\<lambda>s. show_hex (unat s)) (segments ip)"
      using assms split_on_separated(2) [OF words [of "segments ip"]] len
      by (cases "segments ip = []") (simp_all add: ipv6_to_string_def sp_def [symmetric] Let_def fmt_subslice_def)
    then show ?thesis
      by (simp add: expand_def takeWhile_map dropWhile_map comp_def len takeWhile_eq_all_conv [THEN iffD2])
  qed
qed

lemma fmt_subslice_no_dot: "CHR ''.'' \<notin> set (fmt_subslice xs)"
proof
  assume "CHR ''.'' \<in> set (fmt_subslice xs)"
  with set_separated have "CHR ''.'' \<in> {CHR '':''} \<union> (\<Union>x \<in> set (map (\<lambda>s. show_hex (unat s)) xs). set x)"
    unfolding fmt_subslice_def by (rule subsetD)
  then show False by (simp add: hex_no_separator)
qed

lemma ipv6_chars: "to_ipv4_mapped ip = None \<Longrightarrow> CHR ''.'' \<notin> set (ipv6_to_string ip)"
  by (simp add: ipv6_to_string_def Let_def fmt_subslice_no_dot)

lemma ipv6_colon: "CHR '':'' \<in> set (ipv6_to_string ip)"
proof -
  have "CHR '':'' \<in> set (fmt_subslice (segments ip))" by (cases ip) (simp add: fmt_subslice_def)
  then show ?thesis by (simp add: ipv6_to_string_def Let_def split: option.split)
qed

lemma read_ip_to_string: "read_ip (ip_to_string ip) = Some ip"
proof (cases ip)
  case (V4 ipv4)
  then show ?thesis by (simp add: read_ip_def ipv4_chars read_ipv4_to_string)
next
  case (V6 ipv6)
  show ?thesis
  proof (cases "to_ipv4_mapped ipv6")
    case None
    have "ipv6_of (map unat (segments ipv6)) = Some ipv6" by (cases ipv6) simp
    then show ?thesis by (simp add: V6 read_ip_def ipv6_colon ipv6_chars [OF None] expand_ipv6 [OF None])
  next
    case (Some ipv4)
    then show ?thesis
      by (simp add: V6 read_ip_def ipv6_colon)
        (simp add: ipv6_to_string_def ipv4_chars read_ipv4_to_string mapped_to_ipv4)
  qed
qed

lemma ip_to_string_inject [simp]: "ip_to_string a = ip_to_string b \<longleftrightarrow> a = b"
  by (metis option.inject read_ip_to_string)

end
