(* ===== verification/RL_Key_Extractor.thy ===== *)
theory RL_Key_Extractor
  imports RL_Policy RL_Async RL_Ip
begin

text \<open>
  \<open>src/src/limiter/key_extractor.rs\<close> and \<open>src/src/limiter/limit.rs\<close>: the request-facing seams.

  \<open>extract\<close> and \<open>limit\<close> are generic in the request body, so they are functions of the request
  with a unit body.  The \<open>http_extract\<close> crate that finds socket and client addresses is not
  part of the repository: a \<open>client_ip_api\<close> carries its three functions, with errors given
  by their \<open>to_string\<close>; the addresses it finds are those of \<open>RL_Ip\<close>.
\<close>

section \<open>The KeyExtractor seam\<close>

record ('w, 'p, 'key) key_extractor =
  ke_extract :: "('p, unit) http_request \<Rightarrow> 'w \<Rightarrow> (RateLimitError, 'key) result \<times> 'w"
  ke_to_string :: "'key \<Rightarrow> string"

record 'p client_ip_api =
  extract_socket_ip :: "('p, unit) http_request \<Rightarrow> IpAddr option"
  extract_proxy_client_ip :: "('p, unit) http_request \<Rightarrow> (string, IpAddr option) result"
  extract_client_ip :: "'p \<Rightarrow> (string, IpAddr option) result"

text \<open>\<open>Option::ok_or_else\<close>.\<close>

definition ok_or :: "'e \<Rightarrow> 'a option \<Rightarrow> ('e, 'a) result" where
  "ok_or e x = (case x of Some a \<Rightarrow> Inr a | None \<Rightarrow> Inl e)"

definition ip_extract ::
  "'p client_ip_api \<Rightarrow> ('p, unit) http_request \<Rightarrow> (RateLimitError, IpAddr) result" where
  "ip_extract ipapi request =
     ok_or (Key ''socket_ip_unavailable''
                ''request extensions do not contain a socket ip address'')
       (extract_socket_ip ipapi request)"

definition client_ip_extract ::
  "'p client_ip_api \<Rightarrow> ('p, unit) http_request \<Rightarrow> (RateLimitError, IpAddr) result" where
  "client_ip_extract ipapi request =
     (case extract_proxy_client_ip ipapi request of
        Inl error \<Rightarrow> Inl (Key ''invalid_client_ip'' error)
      | Inr found \<Rightarrow>
          ok_or (Key ''client_ip_unavailable''
                     ''request does not contain a client or socket IP address'') found)"

definition trusted_proxy_extract ::
  "'p client_ip_api \<Rightarrow> (IpAddr \<Rightarrow> bool) \<Rightarrow> ('p, unit) http_request \<Rightarrow> (RateLimitError, IpAddr) result" where
  "trusted_proxy_extract ipapi is_trusted_proxy request =
     (case ok_or (Key ''socket_ip_unavailable''
                      ''request extensions do not contain a socket ip address'')
             (extract_socket_ip ipapi request) of
        Inl error \<Rightarrow> Inl error
      | Inr peer \<Rightarrow>
          if \<not> is_trusted_proxy peer then Inr peer
          else (case extract_client_ip ipapi (parts request) of
                  Inl error \<Rightarrow> Inl (Key ''invalid_client_ip'' error)
                | Inr client_ip \<Rightarrow> Inr (case client_ip of Some ip \<Rightarrow> ip | None \<Rightarrow> peer)))"

text \<open>The three built-in extractors as values of the seam; they do not touch the world.\<close>

definition pure_extractor ::
  "(('p, unit) http_request \<Rightarrow> (RateLimitError, 'key) result) \<Rightarrow> ('key \<Rightarrow> string) \<Rightarrow> ('w, 'p, 'key) key_extractor" where
  "pure_extractor f disp = \<lparr>ke_extract = (\<lambda>r w. (f r, w)), ke_to_string = disp\<rparr>"

definition IpKeyExtractor :: "'p client_ip_api \<Rightarrow> ('w, 'p, IpAddr) key_extractor" where
  "IpKeyExtractor ipapi = pure_extractor (ip_extract ipapi) ip_to_string"

definition ClientIpKeyExtractor :: "'p client_ip_api \<Rightarrow> ('w, 'p, IpAddr) key_extractor" where
  "ClientIpKeyExtractor ipapi = pure_extractor (client_ip_extract ipapi) ip_to_string"

definition TrustedProxyClientIpKeyExtractor ::
  "'p client_ip_api \<Rightarrow> (IpAddr \<Rightarrow> bool) \<Rightarrow> ('w, 'p, IpAddr) key_extractor" where
  "TrustedProxyClientIpKeyExtractor ipapi is_trusted_proxy =
     pure_extractor (trusted_proxy_extract ipapi is_trusted_proxy) ip_to_string"

section \<open>The LimitProvider seam\<close>

type_synonym ('w, 'p) limit_provider =
  "('p, unit) http_request \<Rightarrow> 'w \<Rightarrow> ('w, (RateLimitError, u64) result) future \<times> 'w"

text \<open>\<open>impl LimitProvider for u64\<close>.\<close>

definition fixed_limit :: "u64 \<Rightarrow> ('w, 'p) limit_provider" where
  "fixed_limit n request w = (ready (Inr n), w)"

section \<open>Properties\<close>

text \<open>Every failure of a built-in extractor is a key error, so it is answered by rejection.\<close>

definition is_key_error :: "RateLimitError \<Rightarrow> bool" where
  "is_key_error e = (case e of Key _ _ \<Rightarrow> True | _ \<Rightarrow> False)"

text \<open>
  The built-in extractors fail with key errors only.
\<close>

theorem builtin_extractors_key_errors:
  "Inl e \<in> {ip_extract ipapi r, client_ip_extract ipapi r, trusted_proxy_extract ipapi trusted r} \<Longrightarrow>
   is_key_error e"
  by (auto simp: ip_extract_def client_ip_extract_def trusted_proxy_extract_def ok_or_def
      is_key_error_def split: option.splits sum.splits if_splits)

definition sample_ip_api :: "string client_ip_api" where
  "sample_ip_api =
     \<lparr>extract_socket_ip = (\<lambda>r. None),
      extract_proxy_client_ip = (\<lambda>r. Inr None),
      extract_client_ip = (\<lambda>p. Inr None)\<rparr>"

theorem builtin_extractors_key_errors_witness:
  "is_key_error (Key ''socket_ip_unavailable'' ''request extensions do not contain a socket ip address'')"
proof (rule builtin_extractors_key_errors [of _ sample_ip_api
      "\<lparr>parts = '''', extension = None, body = ()\<rparr>" "\<lambda>_. True"])
  show "Inl (Key ''socket_ip_unavailable'' ''request extensions do not contain a socket ip address'') \<in>
    {ip_extract sample_ip_api \<lparr>parts = '''', extension = None, body = ()\<rparr>,
     client_ip_extract sample_ip_api \<lparr>parts = '''', extension = None, body = ()\<rparr>,
     trusted_proxy_extract sample_ip_api (\<lambda>_. True) \<lparr>parts = '''', extension = None, body = ()\<rparr>}"
    by (simp add: ip_extract_def sample_ip_api_def ok_or_def)
qed

end
