(* ===== verification/RL_Builder.thy ===== *)
theory RL_Builder
  imports RL_Response RL_Key_Extractor
begin

text \<open>
  \<open>src/src/limiter/builder.rs\<close> and \<open>src/src/limiter/layer.rs\<close>: the configuration, the
  type-state builder and the finished layer.  The component types of the builder are type
  variables, as its type parameters \<open>K\<close>, \<open>S\<close>, \<open>P\<close> and \<open>F\<close> are; a component value is given
  by its trait methods.
\<close>

section \<open>Configuration\<close>

datatype Level = ERROR | WARN | INFO | DEBUG | TRACE

record 'p RateLimitConfig =
  cfg_policy_name :: string
  cfg_window :: Duration
  cfg_key_encoder :: "(string \<Rightarrow> string) option"
  cfg_skip_predicate :: "(('p, unit) http_request \<Rightarrow> bool) option"
  cfg_store_failure_mode :: StoreFailureMode
  cfg_store_failure_tracing_level :: Level
  cfg_rate_limit_fields :: RateLimitFields

text \<open>
  \<open>Debug for RateLimitConfig\<close>: the fields handed to the struct formatter, in order.  The closures
  only show whether they are there; the tracing level is a field with the \<open>tracing\<close> feature only.
\<close>

datatype debug_value =
    Debug_String string
  | Debug_Duration Duration
  | Debug_Bool bool
  | Debug_Failure_Mode StoreFailureMode
  | Debug_Level Level
  | Debug_Fields RateLimitFields

definition config_debug :: "bool \<Rightarrow> 'p RateLimitConfig \<Rightarrow> string \<times> (string \<times> debug_value) list" where
  "config_debug tracing config =
     (''RateLimitConfig'',
      [(''policy_name'', Debug_String (cfg_policy_name config)),
       (''window'', Debug_Duration (cfg_window config)),
       (''has_key_encoder'', Debug_Bool (\<not> Option.is_none (cfg_key_encoder config))),
       (''has_skip_predicate'', Debug_Bool (\<not> Option.is_none (cfg_skip_predicate config))),
       (''store_failure_mode'', Debug_Failure_Mode (cfg_store_failure_mode config))] @
      (if tracing
       then [(''store_failure_tracing_level'', Debug_Level (cfg_store_failure_tracing_level config))]
       else []) @
      [(''rate_limit_fields'', Debug_Fields (cfg_rate_limit_fields config))])"

definition MINIMUM_WINDOW :: Duration where
  "MINIMUM_WINDOW = from_millis 1"

definition check_skip_predicate ::
  "(('p, unit) http_request \<Rightarrow> bool) option \<Rightarrow> ('p, 'b) http_request \<Rightarrow> bool \<times> ('p, 'b) http_request" where
  "check_skip_predicate predicate request =
     (case predicate of
        None \<Rightarrow> (False, request)
      | Some pr \<Rightarrow>
          (let (ps, b) = into_parts request;
               head = from_parts ps ();
               should_skip = pr head;
               (ps', u) = into_parts head
           in (should_skip, from_parts ps' b)))"

section \<open>The builder\<close>

record ('k, 's, 'l, 'f, 'p) RateLimitBuilder =
  b_key_extractor :: 'k
  b_store :: 's
  b_limit_provider :: 'l
  b_response_factory :: 'f
  b_config :: "'p RateLimitConfig"

definition builder_new ::
  "('h, 'v) header_api \<Rightarrow> 'r \<Rightarrow> 'k \<Rightarrow>
    ('k, unit, ('w, 'p) limit_provider, ('w, 'p, 'b, 'h, 'r) factory, 'p) RateLimitBuilder" where
  "builder_new hdr default_body key_extractor =
     \<lparr>b_key_extractor = key_extractor,
      b_store = (),
      b_limit_provider = fixed_limit 1,
      b_response_factory = default_build hdr default_body,
      b_config =
        \<lparr>cfg_policy_name = ''default-policy'',
         cfg_window = from_secs 60,
         cfg_key_encoder = None,
         cfg_skip_predicate = None,
         cfg_store_failure_mode = default_store_failure_mode,
         cfg_store_failure_tracing_level = WARN,
         cfg_rate_limit_fields = default_rate_limit_fields\<rparr>\<rparr>"

text \<open>\<open>RateLimitLayer::builder\<close>.\<close>

definition layer_builder ::
  "('h, 'v) header_api \<Rightarrow> 'r \<Rightarrow> 'k \<Rightarrow>
    ('k, unit, ('w, 'p) limit_provider, ('w, 'p, 'b, 'h, 'r) factory, 'p) RateLimitBuilder" where
  "layer_builder hdr default_body key_extractor = builder_new hdr default_body key_extractor"

definition with_store :: "'s2 \<Rightarrow> ('k, 's, 'l, 'f, 'p) RateLimitBuilder \<Rightarrow> ('k, 's2, 'l, 'f, 'p) RateLimitBuilder" where
  "with_store st b =
     \<lparr>b_key_extractor = b_key_extractor b, b_store = st, b_limit_provider = b_limit_provider b,
      b_response_factory = b_response_factory b, b_config = b_config b\<rparr>"

definition builder_limit_provider ::
  "'l2 \<Rightarrow> ('k, 's, 'l, 'f, 'p) RateLimitBuilder \<Rightarrow> ('k, 's, 'l2, 'f, 'p) RateLimitBuilder" where
  "builder_limit_provider lp b =
     \<lparr>b_key_extractor = b_key_extractor b, b_store = b_store b, b_limit_provider = lp,
      b_response_factory = b_response_factory b, b_config = b_config b\<rparr>"

definition builder_limit ::
  "u64 \<Rightarrow> ('k, 's, 'l, 'f, 'p) RateLimitBuilder \<Rightarrow> ('k, 's, ('w, 'p) limit_provider, 'f, 'p) RateLimitBuilder" where
  "builder_limit n b =
     \<lparr>b_key_extractor = b_key_extractor b, b_store = b_store b, b_limit_provider = fixed_limit n,
      b_response_factory = b_response_factory b, b_config = b_config b\<rparr>"

definition builder_response_factory ::
  "'f2 \<Rightarrow> ('k, 's, 'l, 'f, 'p) RateLimitBuilder \<Rightarrow> ('k, 's, 'l, 'f2, 'p) RateLimitBuilder" where
  "builder_response_factory rf b =
     \<lparr>b_key_extractor = b_key_extractor b, b_store = b_store b, b_limit_provider = b_limit_provider b,
      b_response_factory = rf, b_config = b_config b\<rparr>"

definition builder_window ::
  "Duration \<Rightarrow> ('k, 's, 'l, 'f, 'p) RateLimitBuilder \<Rightarrow> ('k, 's, 'l, 'f, 'p) RateLimitBuilder" where
  "builder_window win b = b\<lparr>b_config := (b_config b)\<lparr>cfg_window := win\<rparr>\<rparr>"

definition builder_policy_name ::
  "string \<Rightarrow> ('k, 's, 'l, 'f, 'p) RateLimitBuilder \<Rightarrow> ('k, 's, 'l, 'f, 'p) RateLimitBuilder" where
  "builder_policy_name nm b = b\<lparr>b_config := (b_config b)\<lparr>cfg_policy_name := nm\<rparr>\<rparr>"

definition with_key_encoder ::
  "(string \<Rightarrow> string) \<Rightarrow> ('k, 's, 'l, 'f, 'p) RateLimitBuilder \<Rightarrow> ('k, 's, 'l, 'f, 'p) RateLimitBuilder" where
  "with_key_encoder encoder b = b\<lparr>b_config := (b_config b)\<lparr>cfg_key_encoder := Some encoder\<rparr>\<rparr>"

definition skip ::
  "(('p, unit) http_request \<Rightarrow> bool) \<Rightarrow> ('k, 's, 'l, 'f, 'p) RateLimitBuilder \<Rightarrow> ('k, 's, 'l, 'f, 'p) RateLimitBuilder" where
  "skip predicate b = b\<lparr>b_config := (b_config b)\<lparr>cfg_skip_predicate := Some predicate\<rparr>\<rparr>"

definition builder_store_failure_mode ::
  "StoreFailureMode \<Rightarrow> ('k, 's, 'l, 'f, 'p) RateLimitBuilder \<Rightarrow> ('k, 's, 'l, 'f, 'p) RateLimitBuilder" where
  "builder_store_failure_mode mode b =
     b\<lparr>b_config := (b_config b)\<lparr>cfg_store_failure_mode := mode\<rparr>\<rparr>"

definition builder_store_failure_tracing_level ::
  "Level \<Rightarrow> ('k, 's, 'l, 'f, 'p) RateLimitBuilder \<Rightarrow> ('k, 's, 'l, 'f, 'p) RateLimitBuilder" where
  "builder_store_failure_tracing_level level b =
     b\<lparr>b_config := (b_config b)\<lparr>cfg_store_failure_tracing_level := level\<rparr>\<rparr>"

definition builder_rate_limit_fields ::
  "RateLimitFields \<Rightarrow> ('k, 's, 'l, 'f, 'p) RateLimitBuilder \<Rightarrow> ('k, 's, 'l, 'f, 'p) RateLimitBuilder" where
  "builder_rate_limit_fields fs b =
     b\<lparr>b_config := (b_config b)\<lparr>cfg_rate_limit_fields := fs\<rparr>\<rparr>"

definition validate :: "('k, 's, 'l, 'f, 'p) RateLimitBuilder \<Rightarrow> (ConfigError, unit) result" where
  "validate b =
     (if cfg_window (b_config b) < MINIMUM_WINDOW
      then Inl (WindowTooShort (cfg_window (b_config b)) MINIMUM_WINDOW)
      else if cfg_policy_name (b_config b) = [] then Inl EmptyPolicyName
      else Inr ())"

section \<open>The layer\<close>

record ('k, 's, 'l, 'f, 'p) RateLimitLayer =
  l_key_extractor :: 'k
  l_store :: 's
  l_limit_provider :: 'l
  l_response_factory :: 'f
  l_config :: "'p RateLimitConfig"

definition build ::
  "('k, 's, 'l, 'f, 'p) RateLimitBuilder \<Rightarrow> (ConfigError, ('k, 's, 'l, 'f, 'p) RateLimitLayer) result" where
  "build b =
     (case validate b of
        Inl e \<Rightarrow> Inl e
      | Inr u \<Rightarrow>
          Inr \<lparr>l_key_extractor = b_key_extractor b, l_store = b_store b,
               l_limit_provider = b_limit_provider b, l_response_factory = b_response_factory b,
               l_config = b_config b\<rparr>)"

lemmas builder_defs [rl_defs] =
  layer_builder_def builder_new_def with_store_def builder_limit_def builder_limit_provider_def
  builder_response_factory_def builder_window_def builder_policy_name_def with_key_encoder_def
  skip_def builder_store_failure_mode_def builder_store_failure_tracing_level_def
  builder_rate_limit_fields_def

section \<open>Properties\<close>

text \<open>
  Evaluating the bypass predicate takes the request apart and joins it again unchanged,
  and without a predicate nothing is bypassed.
\<close>

theorem check_skip_predicate_spec:
  "check_skip_predicate predicate request =
     (case predicate of None \<Rightarrow> False | Some pr \<Rightarrow> pr (request_head request), request)"
  by (simp add: check_skip_predicate_def request_head_def into_parts_def from_parts_def Let_def
      split: option.split)

lemma window_too_short_iff:
  assumes "wf_duration w"
  shows "w < MINIMUM_WINDOW \<longleftrightarrow> dur_nanos w < 1000000"
  using less_Duration_nanos [OF assms wf_from_millis, of 1] by (simp add: MINIMUM_WINDOW_def)

definition sample_builder ::
  "Duration \<Rightarrow> string \<Rightarrow> (unit, unit, (unit, unit) limit_provider,
     (unit, unit, unit, (string \<times> string) list, unit) factory, unit) RateLimitBuilder" where
  "sample_builder win nm = builder_window win (builder_policy_name nm (builder_new list_header_api () ()))"

text \<open>
  A fresh builder with any store is accepted, and the layer has the documented defaults:
  limit 1, a 60 second window, the name \<open>default-policy\<close>, no encoder, no bypass, rejection on
  store failure and draft 11 fields.
\<close>

theorem default_build_accepted:
  "build (with_store st (builder_new hdr default_body ke)) =
     Inr \<lparr>l_key_extractor = ke, l_store = st, l_limit_provider = fixed_limit 1,
          l_response_factory = default_build hdr default_body,
          l_config = \<lparr>cfg_policy_name = ''default-policy'', cfg_window = Duration 60 0,
             cfg_key_encoder = None, cfg_skip_predicate = None, cfg_store_failure_mode = Reject,
             cfg_store_failure_tracing_level = WARN, cfg_rate_limit_fields = Draft11\<rparr>\<rparr>"
proof -
  have "\<not> Duration 60 0 < from_millis 1"
    by (simp add: less_Duration_def from_millis_def)
  then show ?thesis
    by (simp add: build_def validate_def builder_defs MINIMUM_WINDOW_def from_secs_def
        default_store_failure_mode_def default_rate_limit_fields_def)
qed

text \<open>
  The debug output shows every setting: two configurations without closures print alike exactly
  when they are the same.
\<close>

lemma config_debug_inject:
  assumes "cfg_key_encoder c = None" "cfg_skip_predicate c = None"
    and "cfg_key_encoder c' = None" "cfg_skip_predicate c' = None"
  shows "config_debug True c = config_debug True c' \<longleftrightarrow> c = c'"
  using assms by (auto simp: config_debug_def)

end
