(* ===== verification/RL_Future.thy ===== *)
theory RL_Future
  imports RL_Builder
begin

text \<open>
  \<open>src/src/limiter/future.rs\<close>: the request-execution state machine.

  \<open>ResponseFuture::poll\<close> is a loop over one state.  Each arm of its \<open>match\<close> is a definition
  that either returns from \<open>poll\<close> or continues the loop with the next state; the loop itself
  is \<open>response_future_poll\<close>.  A panic unwinds out of \<open>poll\<close>; the future it leaves behind is
  not observed again.
\<close>

section \<open>States\<close>

type_synonym 'w store =
  "string \<Rightarrow> Duration \<Rightarrow> 'w \<Rightarrow> ('w, (RateLimitError, Usage) result) future \<times> 'w"

type_synonym ('w, 'i, 'p, 'b, 'h, 'r, 'e) inner_service =
  "('w, 'i, ('p, 'b) http_request, ('h, 'r) response, 'e) service"

datatype ('w, 'p, 'b, 'h, 'r, 'e) State =
    State_Limit "('w, (RateLimitError, u64) result) future" "('p, 'b) http_request" string
  | State_Store "('w, (RateLimitError, Usage) result) future" "('p, 'b) http_request" u64
  | State_Inner "('w, ('e, ('h, 'r) response) result) future" "ResponseMetadata option"
  | State_Ready "('p, 'b) MiddlewareResponse"
  | State_Done

record ('w, 'p, 'b, 'h, 'r, 'e, 'i) ResponseFuture =
  f_state :: "('w, 'p, 'b, 'h, 'r, 'e) State"
  f_inner :: 'i
  f_store :: "'w store"
  f_config :: "'p RateLimitConfig"
  f_factory :: "('w, 'p, 'b, 'h, 'r) factory"

definition response_future_new ::
  "('p, 'b) http_request \<Rightarrow> 'i \<Rightarrow> 'w store \<Rightarrow> string \<Rightarrow> ('w, (RateLimitError, u64) result) future \<Rightarrow>
    'p RateLimitConfig \<Rightarrow> ('w, 'p, 'b, 'h, 'r) factory \<Rightarrow> ('w, 'p, 'b, 'h, 'r, 'e, 'i) ResponseFuture" where
  "response_future_new request inner st key fut config factory =
     \<lparr>f_state = State_Limit fut request key, f_inner = inner, f_store = st,
      f_config = config, f_factory = factory\<rparr>"

definition response_future_error ::
  "('p, 'b) http_request \<Rightarrow> RateLimitError \<Rightarrow> 'i \<Rightarrow> 'w store \<Rightarrow>
    'p RateLimitConfig \<Rightarrow> ('w, 'p, 'b, 'h, 'r) factory \<Rightarrow> ('w, 'p, 'b, 'h, 'r, 'e, 'i) ResponseFuture" where
  "response_future_error request error inner st config factory =
     \<lparr>f_state = State_Ready (Middleware_Error request error), f_inner = inner, f_store = st,
      f_config = config, f_factory = factory\<rparr>"

definition response_future_skipped ::
  "('w, 'i, 'p, 'b, 'h, 'r, 'e) inner_service \<Rightarrow> ('p, 'b) http_request \<Rightarrow> 'i \<Rightarrow> 'w store \<Rightarrow>
    'p RateLimitConfig \<Rightarrow> ('w, 'p, 'b, 'h, 'r) factory \<Rightarrow> 'w \<Rightarrow>
    ('w, 'p, 'b, 'h, 'r, 'e, 'i) ResponseFuture \<times> 'w" where
  "response_future_skipped svc request inner st config factory w =
     (let (fut, inner', w') = svc_call svc inner request w
      in (\<lparr>f_state = State_Inner fut None, f_inner = inner', f_store = st,
           f_config = config, f_factory = factory\<rparr>, w'))"

section \<open>Tracing\<close>

text \<open>
  A structured event for the subscriber the application installs; \<open>emit\<close> hands it over.  With
  the \<open>tracing\<close> feature off, \<open>emit\<close> is the identity on the world.
\<close>

record trace_event =
  te_target :: string
  te_level :: Level
  te_fields :: "(string \<times> string) list"
  te_message :: string

definition trace_store_failure ::
  "(trace_event \<Rightarrow> 'w \<Rightarrow> 'w) \<Rightarrow> RateLimitError \<Rightarrow> StoreFailureMode \<Rightarrow> string \<Rightarrow> Level \<Rightarrow> 'w \<Rightarrow> 'w" where
  "trace_store_failure emit error failure_mode policy_name level w =
     (let mode = (case failure_mode of Reject \<Rightarrow> ''reject'' | Allow \<Rightarrow> ''allow'');
          event = (\<lambda>lvl. \<lparr>te_target = ''tower_rate_limiter::store'', te_level = lvl,
             te_fields = [(''event'', ''store_failure''), (''policy_name'', policy_name),
                          (''failure_mode'', mode), (''error_code'', code error)],
             te_message = ''rate-limit Store failed''\<rparr>)
      in case level of
           ERROR \<Rightarrow> emit (event ERROR) w
         | WARN \<Rightarrow> emit (event WARN) w
         | INFO \<Rightarrow> emit (event INFO) w
         | DEBUG \<Rightarrow> emit (event DEBUG) w
         | TRACE \<Rightarrow> emit (event TRACE) w)"

section \<open>The arms of the loop\<close>

text \<open>What one round of the loop does: return from \<open>poll\<close>, or go round again.\<close>

datatype ('o, 'f, 'w) loop = Return "('o, unit) poll" 'f 'w | Continue 'f 'w

text \<open>
  \<open>ready!(future.poll(cx))\<close>: a pending future is put back (\<open>mk\<close>) and \<open>poll\<close> returns;
  a result goes on (\<open>k\<close>).
\<close>

definition ready_bang ::
  "('w, 'a) future \<Rightarrow> (('w, 'a) future \<Rightarrow> 'f) \<Rightarrow> ('a \<Rightarrow> 'w \<Rightarrow> ('o, 'f, 'w) loop) \<Rightarrow> 'w \<Rightarrow> ('o, 'f, 'w) loop" where
  "ready_bang fut mk k w =
     (case poll_future fut w of
        (Pending fut', w') \<Rightarrow> Return (Pending ()) (mk fut') w'
      | (Panic m, w') \<Rightarrow> Return (Panic m) (mk fut) w'
      | (Ready r, w') \<Rightarrow> k r w')"

text \<open>The \<open>Limit\<close> arm after its future is ready: reject, or charge the store.\<close>

definition scoped_key :: "'p RateLimitConfig \<Rightarrow> string \<Rightarrow> string" where
  "scoped_key config key =
     (let key' = make_key (cfg_policy_name config) key
      in case cfg_key_encoder config of Some encoder \<Rightarrow> encoder key' | None \<Rightarrow> key')"

definition after_limit ::
  "('w, 'p, 'b, 'h, 'r, 'e, 'i) ResponseFuture \<Rightarrow> ('p, 'b) http_request \<Rightarrow> string \<Rightarrow>
    (RateLimitError, u64) result \<Rightarrow> 'w \<Rightarrow> ('w, 'p, 'b, 'h, 'r, 'e, 'i) ResponseFuture \<times> 'w" where
  "after_limit this request key result w =
     (case result of
        Inl error \<Rightarrow> (this\<lparr>f_state := State_Ready (Middleware_Error request error)\<rparr>, w)
      | Inr lim \<Rightarrow>
          (let (store_future, w') =
                 f_store this (scoped_key (f_config this) key) (cfg_window (f_config this)) w
           in (this\<lparr>f_state := State_Store store_future request lim\<rparr>, w')))"

text \<open>
  The \<open>Store\<close> arm after its future is ready: validate the usage, then fail open, reject,
  rate limit or admit.
\<close>

definition after_store ::
  "(trace_event \<Rightarrow> 'w \<Rightarrow> 'w) \<Rightarrow> ('w, 'i, 'p, 'b, 'h, 'r, 'e) inner_service \<Rightarrow>
    ('w, 'p, 'b, 'h, 'r, 'e, 'i) ResponseFuture \<Rightarrow> ('p, 'b) http_request \<Rightarrow> u64 \<Rightarrow>
    (RateLimitError, Usage) result \<Rightarrow> 'w \<Rightarrow> ('w, 'p, 'b, 'h, 'r, 'e, 'i) ResponseFuture \<times> 'w" where
  "after_store emit svc this request lim result w =
     (let config = f_config this;
          pol = (case result of
                   Inl error \<Rightarrow> Inl error
                 | Inr usage \<Rightarrow> from_usage (cfg_policy_name config) (cfg_window config) lim usage)
      in case pol of
           Inl error \<Rightarrow>
             (let w' = trace_store_failure emit error (cfg_store_failure_mode config)
                         (cfg_policy_name config) (cfg_store_failure_tracing_level config) w
              in if cfg_store_failure_mode config = Allow
                 then (let (fut, inner', w'') = svc_call svc (f_inner this) request w'
                       in (this\<lparr>f_state := State_Inner fut None, f_inner := inner'\<rparr>, w''))
                 else (this\<lparr>f_state := State_Ready (Middleware_Error request error)\<rparr>, w'))
         | Inr p \<Rightarrow>
             (let metadata = metadata_new p (cfg_rate_limit_fields config)
              in if is_rate_limited (policy metadata)
                 then (this\<lparr>f_state := State_Ready (Middleware_RateLimited request metadata)\<rparr>, w)
                 else (let request' = append_context request metadata;
                           (fut, inner', w') = svc_call svc (f_inner this) request' w
                       in (this\<lparr>f_state := State_Inner fut (Some metadata), f_inner := inner'\<rparr>, w'))))"

text \<open>One round of the loop, by the state it finds.\<close>

definition poll_step ::
  "('h, 'v) header_api \<Rightarrow> (trace_event \<Rightarrow> 'w \<Rightarrow> 'w) \<Rightarrow> ('w, 'i, 'p, 'b, 'h, 'r, 'e) inner_service \<Rightarrow>
    ('w, 'p, 'b, 'h, 'r, 'e, 'i) ResponseFuture \<Rightarrow> 'w \<Rightarrow>
    (('e, ('h, 'r) response) result, ('w, 'p, 'b, 'h, 'r, 'e, 'i) ResponseFuture, 'w) loop" where
  "poll_step hdr emit svc this w =
     (case f_state this of
        State_Limit fut request key \<Rightarrow>
          ready_bang fut (\<lambda>fut'. this\<lparr>f_state := State_Limit fut' request key\<rparr>)
            (\<lambda>result w'. let (this', w'') = after_limit this request key result w'
                         in Continue this' w'') w
      | State_Store fut request lim \<Rightarrow>
          ready_bang fut (\<lambda>fut'. this\<lparr>f_state := State_Store fut' request lim\<rparr>)
            (\<lambda>result w'. let (this', w'') = after_store emit svc this request lim result w'
                         in Continue this' w'') w
      | State_Inner fut metadata \<Rightarrow>
          ready_bang fut (\<lambda>fut'. this\<lparr>f_state := State_Inner fut' metadata\<rparr>)
            (\<lambda>result w'. Return
               (Ready (map_sum id (\<lambda>response. append_inner_response_headers hdr response metadata) result))
               (this\<lparr>f_state := State_Done\<rparr>) w') w
      | State_Ready response \<Rightarrow>
          (let (out, w') = finalize hdr response (f_factory this) w
           in Return (Ready (Inr out)) (this\<lparr>f_state := State_Done\<rparr>) w')
      | State_Done \<Rightarrow>
          Return (Panic ''rate-limit response future polled after completion'') this w)"

section \<open>The loop\<close>

fun state_rank :: "('w, 'p, 'b, 'h, 'r, 'e) State \<Rightarrow> nat" where
  "state_rank (State_Limit _ _ _) = 3"
| "state_rank (State_Store _ _ _) = 2"
| "state_rank (State_Inner _ _) = 1"
| "state_rank (State_Ready _) = 1"
| "state_rank State_Done = 0"

lemma after_limit_rank: "after_limit this request key result w = (this', w') \<Longrightarrow> state_rank (f_state this') < 3"
  by (auto simp: after_limit_def split: sum.splits prod.splits)

lemma after_store_rank: "after_store emit svc this request lim result w = (this', w') \<Longrightarrow> state_rank (f_state this') < 2"
  by (auto simp: after_store_def Let_def split: sum.splits prod.splits if_splits)

text \<open>Every round that goes on moves to a state of lower rank.\<close>

lemma poll_step_rank:
  "poll_step hdr emit svc this w = Continue this' w' \<Longrightarrow> state_rank (f_state this') < state_rank (f_state this)"
  by (auto simp: poll_step_def ready_bang_def Let_def split: State.splits prod.splits poll.splits
      dest: after_limit_rank after_store_rank)

function response_future_poll ::
  "('h, 'v) header_api \<Rightarrow> (trace_event \<Rightarrow> 'w \<Rightarrow> 'w) \<Rightarrow> ('w, 'i, 'p, 'b, 'h, 'r, 'e) inner_service \<Rightarrow>
    ('w, 'p, 'b, 'h, 'r, 'e, 'i) ResponseFuture \<Rightarrow> 'w \<Rightarrow>
    (('e, ('h, 'r) response) result, unit) poll \<times> ('w, 'p, 'b, 'h, 'r, 'e, 'i) ResponseFuture \<times> 'w" where
  "response_future_poll hdr emit svc this w =
     (case poll_step hdr emit svc this w of
        Return r this' w' \<Rightarrow> (r, this', w')
      | Continue this' w' \<Rightarrow> response_future_poll hdr emit svc this' w')"
  by pat_completeness auto
termination
  by (relation "measure (\<lambda>(hdr, emit, svc, this, w). state_rank (f_state this))")
    (auto dest: poll_step_rank)

declare response_future_poll.simps [simp del]

text \<open>The response future as a future to poll, for the executor and for an enclosing layer.\<close>

definition poll_view ::
  "('h, 'v) header_api \<Rightarrow> (trace_event \<Rightarrow> 'w \<Rightarrow> 'w) \<Rightarrow> ('w, 'i, 'p, 'b, 'h, 'r, 'e) inner_service \<Rightarrow>
    ('w, 'p, 'b, 'h, 'r, 'e, 'i) ResponseFuture \<Rightarrow> 'w \<Rightarrow>
    (('e, ('h, 'r) response) result, ('w, 'p, 'b, 'h, 'r, 'e, 'i) ResponseFuture) poll \<times> 'w" where
  "poll_view hdr emit svc this w =
     (case response_future_poll hdr emit svc this w of
        (Ready r, this', w') \<Rightarrow> (Ready r, w')
      | (Pending u, this', w') \<Rightarrow> (Pending this', w')
      | (Panic m, this', w') \<Rightarrow> (Panic m, w'))"

primcorec as_future ::
  "('h, 'v) header_api \<Rightarrow> (trace_event \<Rightarrow> 'w \<Rightarrow> 'w) \<Rightarrow> ('w, 'i, 'p, 'b, 'h, 'r, 'e) inner_service \<Rightarrow>
    ('w, 'p, 'b, 'h, 'r, 'e, 'i) ResponseFuture \<Rightarrow> ('w, ('e, ('h, 'r) response) result) future" where
  "as_future hdr emit svc this =
     Future (\<lambda>w. map_prod (map_poll id (as_future hdr emit svc)) id (poll_view hdr emit svc this w))"

end
