(* ===== verification/RL_Lifecycle.thy ===== *)
theory RL_Lifecycle
  imports RL_Future
begin

text \<open>
  What awaiting a response future amounts to.  The state machine of \<open>RL_Future\<close> is related,
  state by state, to the direct-style lifecycle the documentation describes: resolve the
  quota, charge the store, decide, call the inner service or build a response.  Everything is
  stated for arbitrary component futures and for arbitrary interference \<open>R\<close> by other tasks
  between two polls.
\<close>

section \<open>One poll, read as awaiting\<close>

lemma awaits_cong_poll:
  assumes "poll_future f w = poll_future g v"
  shows "awaits R f w r w' \<longleftrightarrow> awaits R g v r w'"
  by (simp add: awaits_unfold [of R f] awaits_unfold [of R g] assms)

lemma poll_future_as_future:
  "poll_future (as_future hdr emit svc this) w =
     (case poll_step hdr emit svc this w of
        Return (Ready r) this' w' \<Rightarrow> (Ready r, w')
      | Return (Pending u) this' w' \<Rightarrow> (Pending (as_future hdr emit svc this'), w')
      | Return (Panic m) this' w' \<Rightarrow> (Panic m, w')
      | Continue this' w' \<Rightarrow> poll_future (as_future hdr emit svc this') w')"
  by (simp add: poll_view_def response_future_poll.simps [of hdr emit svc this w]
      split: loop.split poll.split prod.split)

text \<open>The outcome of a round of the loop, once the future is awaited to the end.\<close>

fun resumes ::
  "('w \<Rightarrow> 'w \<Rightarrow> bool) \<Rightarrow> ('h, 'v) header_api \<Rightarrow> (trace_event \<Rightarrow> 'w \<Rightarrow> 'w) \<Rightarrow>
    ('w, 'i, 'p, 'b, 'h, 'r, 'e) inner_service \<Rightarrow>
    (('e, ('h, 'r) response) result, ('w, 'p, 'b, 'h, 'r, 'e, 'i) ResponseFuture, 'w) loop \<Rightarrow>
    ('e, ('h, 'r) response) result \<Rightarrow> 'w \<Rightarrow> bool" where
  "resumes R hdr emit svc (Return (Ready r) this w) out w' \<longleftrightarrow> out = r \<and> w' = w"
| "resumes R hdr emit svc (Return (Pending u) this w) out w' \<longleftrightarrow>
     (\<exists>w2. R w w2 \<and> awaits R (as_future hdr emit svc this) w2 out w')"
| "resumes R hdr emit svc (Return (Panic m) this w) out w' \<longleftrightarrow> False"
| "resumes R hdr emit svc (Continue this w) out w' \<longleftrightarrow>
     awaits R (as_future hdr emit svc this) w out w'"

lemma awaits_as_future:
  "awaits R (as_future hdr emit svc this) w out w' \<longleftrightarrow>
     resumes R hdr emit svc (poll_step hdr emit svc this w) out w'"
proof (cases "poll_step hdr emit svc this w")
  case (Return r this' w1)
  then show ?thesis
    by (cases r)
      (simp_all add: awaits_unfold [of R "as_future hdr emit svc this"]
        poll_future_as_future [of _ _ _ this] del: as_future.simps as_future.sel)
next
  case (Continue this' w1)
  then have "poll_future (as_future hdr emit svc this) w = poll_future (as_future hdr emit svc this') w1"
    by (simp add: poll_future_as_future [of _ _ _ this] del: as_future.simps as_future.sel)
  with Continue show ?thesis by (simp add: awaits_cong_poll [of "as_future hdr emit svc this"])
qed

text \<open>
  An arm of the loop that polls a future and goes on with its result: awaiting the response
  future is awaiting that future, under the same interference, and then going on.
\<close>

lemma awaits_ready_bang:
  assumes arm: "\<And>f w. poll_step hdr emit svc (mk f) w = ready_bang f mk k w"
  shows "awaits R (as_future hdr emit svc (mk f)) w out w' \<longleftrightarrow>
    (\<exists>r w1. awaits R f w r w1 \<and> resumes R hdr emit svc (k r w1) out w')"
proof
  assume "awaits R (as_future hdr emit svc (mk f)) w out w'"
  then show "\<exists>r w1. awaits R f w r w1 \<and> resumes R hdr emit svc (k r w1) out w'"
  proof (induction "as_future hdr emit svc (mk f)" w out w' arbitrary: f rule: awaits.induct)
    case (awaits_ready w r w')
    then have "resumes R hdr emit svc (ready_bang f mk k w) r w'"
      by (metis arm awaits_as_future awaits.awaits_ready)
    with awaits_ready show ?case
      by (auto simp: ready_bang_def poll_future_as_future arm split: prod.splits poll.splits
          intro: awaits.intros simp del: as_future.simps as_future.sel)
  next
    case (awaits_pending w g w1 w2 r w')
    have resumes: "resumes R hdr emit svc (ready_bang f mk k w) r w'"
      using awaits_pending.hyps(1,2,3) by (metis arm awaits_as_future awaits.awaits_pending)
    show ?case
    proof (cases "poll_future f w")
      case (Pair p v)
      show ?thesis
      proof (cases p)
        case (Pending f')
        with Pair awaits_pending.hyps(1) have "g = as_future hdr emit svc (mk f')" "v = w1"
          by (simp_all add: ready_bang_def poll_future_as_future arm
              del: as_future.simps as_future.sel)
        with awaits_pending.hyps(4) obtain r' v' where
          "awaits R f' w2 r' v'" "resumes R hdr emit svc (k r' v') r w'" by blast
        with Pair Pending \<open>v = w1\<close> awaits_pending.hyps(2) show ?thesis
          by (auto intro: awaits.awaits_pending)
      next
        case (Ready x)
        with Pair have "awaits R f w x v" by (simp add: awaits.awaits_ready)
        moreover from Pair Ready resumes have "resumes R hdr emit svc (k x v) r w'"
          by (simp add: ready_bang_def)
        ultimately show ?thesis by blast
      next
        case (Panic m)
        with Pair resumes show ?thesis by (simp add: ready_bang_def)
      qed
    qed
  qed
next
  assume "\<exists>r w1. awaits R f w r w1 \<and> resumes R hdr emit svc (k r w1) out w'"
  then obtain r w1 where "awaits R f w r w1" "resumes R hdr emit svc (k r w1) out w'" by blast
  then show "awaits R (as_future hdr emit svc (mk f)) w out w'"
  proof (induction rule: awaits.induct)
    case (awaits_ready f w r w1)
    then show ?case by (simp add: awaits_as_future arm ready_bang_def)
  next
    case (awaits_pending f w f' v1 v2 r w1)
    then show ?case
      by (subst awaits_as_future) (auto simp: arm ready_bang_def)
  qed
qed

section \<open>Awaiting from each state\<close>

lemma after_limit_state [simp]: "after_limit (this\<lparr>f_state := s\<rparr>) = after_limit this"
  by (auto simp: after_limit_def fun_eq_iff split: sum.split)

lemma after_store_state [simp]: "after_store emit svc (this\<lparr>f_state := s\<rparr>) = after_store emit svc this"
  by (auto simp: after_store_def fun_eq_iff Let_def split: sum.split prod.split)

lemma awaits_limit_state:
  "awaits R (as_future hdr emit svc (this\<lparr>f_state := State_Limit fut request key\<rparr>)) w out w' \<longleftrightarrow>
     (\<exists>r w1. awaits R fut w r w1 \<and>
       (case after_limit this request key r w1 of
          (this', w2) \<Rightarrow> awaits R (as_future hdr emit svc this') w2 out w'))"
  by (subst awaits_ready_bang [where mk = "\<lambda>f. this\<lparr>f_state := State_Limit f request key\<rparr>"
        and k = "\<lambda>r v. let (this', v') = after_limit this request key r v in Continue this' v'"])
    (auto simp: poll_step_def split: prod.split)

lemma awaits_store_state:
  "awaits R (as_future hdr emit svc (this\<lparr>f_state := State_Store fut request lim\<rparr>)) w out w' \<longleftrightarrow>
     (\<exists>r w1. awaits R fut w r w1 \<and>
       (case after_store emit svc this request lim r w1 of
          (this', w2) \<Rightarrow> awaits R (as_future hdr emit svc this') w2 out w'))"
  by (subst awaits_ready_bang [where mk = "\<lambda>f. this\<lparr>f_state := State_Store f request lim\<rparr>"
        and k = "\<lambda>r v. let (this', v') = after_store emit svc this request lim r v in Continue this' v'"])
    (auto simp: poll_step_def split: prod.split)

lemma awaits_inner_state:
  "awaits R (as_future hdr emit svc (this\<lparr>f_state := State_Inner fut metadata\<rparr>)) w out w' \<longleftrightarrow>
     (\<exists>r. awaits R fut w r w' \<and>
        out = map_sum id (\<lambda>response. append_inner_response_headers hdr response metadata) r)"
  by (subst awaits_ready_bang [where mk = "\<lambda>f. this\<lparr>f_state := State_Inner f metadata\<rparr>"
        and k = "\<lambda>r v. Return (Ready (map_sum id
            (\<lambda>response. append_inner_response_headers hdr response metadata) r))
            (this\<lparr>f_state := State_Done\<rparr>) v"])
    (auto simp: poll_step_def)

lemma awaits_ready_state:
  "awaits R (as_future hdr emit svc (this\<lparr>f_state := State_Ready response\<rparr>)) w out w' \<longleftrightarrow>
     (\<exists>r. finalize hdr response (f_factory this) w = (r, w') \<and> out = Inr r)"
  by (subst awaits_as_future) (auto simp: poll_step_def Let_def split: prod.split)

lemma awaits_done_state: "\<not> awaits R (as_future hdr emit svc (this\<lparr>f_state := State_Done\<rparr>)) w out w'"
  by (subst awaits_as_future) (simp add: poll_step_def)

lemmas awaits_states =
  awaits_limit_state awaits_store_state awaits_inner_state awaits_ready_state awaits_done_state

section \<open>The direct-style lifecycle\<close>

text \<open>What the middleware decides once the store has answered.\<close>

datatype decision =
    Admit Policy
  | Limited Policy
  | Fail_Open RateLimitError
  | Refuse RateLimitError

definition store_failed :: "'p RateLimitConfig \<Rightarrow> RateLimitError \<Rightarrow> decision" where
  "store_failed config e = (if cfg_store_failure_mode config = Allow then Fail_Open e else Refuse e)"

definition decide :: "'p RateLimitConfig \<Rightarrow> u64 \<Rightarrow> (RateLimitError, Usage) result \<Rightarrow> decision" where
  "decide config lim result =
     (case result of
        Inl e \<Rightarrow> store_failed config e
      | Inr u \<Rightarrow>
          if used u = 0
          then store_failed config (Store ''invalid_usage'' ''rate-limit store returned zero usage'')
          else
            let p = \<lparr>name = cfg_policy_name config, limit = lim, window = cfg_window config,
                     p_used = used u, p_reset_after = reset_after u\<rparr>
            in if unat (used u) \<le> unat lim then Admit p else Limited p)"

abbreviation report ::
  "(trace_event \<Rightarrow> 'w \<Rightarrow> 'w) \<Rightarrow> 'p RateLimitConfig \<Rightarrow> RateLimitError \<Rightarrow> 'w \<Rightarrow> 'w" where
  "report emit config e \<equiv> trace_store_failure emit e (cfg_store_failure_mode config)
     (cfg_policy_name config) (cfg_store_failure_tracing_level config)"

abbreviation metadata_of :: "'p RateLimitConfig \<Rightarrow> Policy \<Rightarrow> ResponseMetadata" where
  "metadata_of config p \<equiv> metadata_new p (cfg_rate_limit_fields config)"

text \<open>The end of the lifecycle, from the decision on.\<close>

inductive concludes ::
  "('w \<Rightarrow> 'w \<Rightarrow> bool) \<Rightarrow> ('h, 'v) header_api \<Rightarrow> (trace_event \<Rightarrow> 'w \<Rightarrow> 'w) \<Rightarrow>
    ('w, 'i, 'p, 'b, 'h, 'r, 'e) inner_service \<Rightarrow> 'p RateLimitConfig \<Rightarrow>
    ('w, 'p, 'b, 'h, 'r) factory \<Rightarrow> 'i \<Rightarrow> ('p, 'b) http_request \<Rightarrow> decision \<Rightarrow> 'w \<Rightarrow>
    ('e, ('h, 'r) response) result \<Rightarrow> 'w \<Rightarrow> bool"
  for R hdr emit svc config factory inner request where
  admit: "svc_call svc inner (append_context request (metadata_of config p)) w = (fut, inner', w1) \<Longrightarrow>
     awaits R fut w1 r w' \<Longrightarrow>
     concludes R hdr emit svc config factory inner request (Admit p) w
       (map_sum id (\<lambda>response. append_rate_limit_fields hdr response (metadata_of config p)) r) w'"
| limited: "factory request (Reason_RateLimited p) w = (response, w') \<Longrightarrow>
     concludes R hdr emit svc config factory inner request (Limited p) w
       (Inr (append_rate_limited_response_headers hdr response (metadata_of config p))) w'"
| fail_open: "svc_call svc inner request (report emit config e w) = (fut, inner', w1) \<Longrightarrow>
     awaits R fut w1 r w' \<Longrightarrow>
     concludes R hdr emit svc config factory inner request (Fail_Open e) w r w'"
| refuse: "factory request (Reason_Error e) (report emit config e w) = (response, w') \<Longrightarrow>
     concludes R hdr emit svc config factory inner request (Refuse e) w (Inr response) w'"

inductive_simps concludes_admit: "concludes R hdr emit svc config factory inner request (Admit p) w out w'"
inductive_simps concludes_limited: "concludes R hdr emit svc config factory inner request (Limited p) w out w'"
inductive_simps concludes_fail_open: "concludes R hdr emit svc config factory inner request (Fail_Open e) w out w'"
inductive_simps concludes_refuse: "concludes R hdr emit svc config factory inner request (Refuse e) w out w'"

lemmas concludes_simps = concludes_admit concludes_limited concludes_fail_open concludes_refuse

text \<open>The \<open>Store\<close> arm acts on the decision.\<close>

lemma after_store_decide:
  "after_store emit svc this request lim result w =
     (case decide (f_config this) lim result of
        Admit p \<Rightarrow>
          (case svc_call svc (f_inner this) (append_context request (metadata_of (f_config this) p)) w of
             (fut, i, w1) \<Rightarrow> ((this\<lparr>f_inner := i\<rparr>)\<lparr>f_state :=
                State_Inner fut (Some (metadata_of (f_config this) p))\<rparr>, w1))
      | Limited p \<Rightarrow>
          (this\<lparr>f_state := State_Ready (Middleware_RateLimited request (metadata_of (f_config this) p))\<rparr>, w)
      | Fail_Open e \<Rightarrow>
          (case svc_call svc (f_inner this) request (report emit (f_config this) e w) of
             (fut, i, w1) \<Rightarrow> ((this\<lparr>f_inner := i\<rparr>)\<lparr>f_state := State_Inner fut None\<rparr>, w1))
      | Refuse e \<Rightarrow>
          (this\<lparr>f_state := State_Ready (Middleware_Error request e)\<rparr>, report emit (f_config this) e w))"
proof (cases result)
  case (Inl e)
  then show ?thesis
    by (simp add: after_store_def decide_def store_failed_def Let_def split: prod.split)
next
  case (Inr u)
  then show ?thesis
    by (cases "used u = 0"; cases "unat (used u) \<le> unat lim")
      (simp_all add: after_store_def decide_def store_failed_def from_usage_def
        is_rate_limited_unat Let_def split: prod.split)
qed

lemma awaits_after_store:
  "(case after_store emit svc this request lim result w of
      (this', w1) \<Rightarrow> awaits R (as_future hdr emit svc this') w1 out w') \<longleftrightarrow>
   concludes R hdr emit svc (f_config this) (f_factory this) (f_inner this) request
     (decide (f_config this) lim result) w out w'"
  by (cases "decide (f_config this) lim result")
    (auto simp: after_store_decide awaits_states concludes_simps append_inner_response_headers_def
      split: prod.splits)

text \<open>
  The whole lifecycle of a request whose client key is known: resolve the quota, charge the
  store under the scoped and encoded key, then conclude.
\<close>

inductive lifecycle ::
  "('w \<Rightarrow> 'w \<Rightarrow> bool) \<Rightarrow> ('h, 'v) header_api \<Rightarrow> (trace_event \<Rightarrow> 'w \<Rightarrow> 'w) \<Rightarrow>
    ('w, 'i, 'p, 'b, 'h, 'r, 'e) inner_service \<Rightarrow> 'p RateLimitConfig \<Rightarrow>
    ('w, 'p, 'b, 'h, 'r) factory \<Rightarrow> 'i \<Rightarrow> ('p, 'b) http_request \<Rightarrow> 'w store \<Rightarrow> string \<Rightarrow>
    ('w, (RateLimitError, u64) result) future \<Rightarrow> 'w \<Rightarrow> ('e, ('h, 'r) response) result \<Rightarrow> 'w \<Rightarrow> bool"
  for R hdr emit svc config factory inner request st key limit_future where
  quota_failed: "awaits R limit_future w (Inl e) w1 \<Longrightarrow>
     factory request (Reason_Error e) w1 = (response, w') \<Longrightarrow>
     lifecycle R hdr emit svc config factory inner request st key limit_future w (Inr response) w'"
| charged: "awaits R limit_future w (Inr lim) w1 \<Longrightarrow>
     st (scoped_key config key) (cfg_window config) w1 = (store_future, w2) \<Longrightarrow>
     awaits R store_future w2 result w3 \<Longrightarrow>
     concludes R hdr emit svc config factory inner request (decide config lim result) w3 out w' \<Longrightarrow>
     lifecycle R hdr emit svc config factory inner request st key limit_future w out w'"

lemma awaits_after_limit:
  "(case after_limit this request key result w of
      (this', w1) \<Rightarrow> awaits R (as_future hdr emit svc this') w1 out w') \<longleftrightarrow>
   (case result of
      Inl e \<Rightarrow> (\<exists>response. f_factory this request (Reason_Error e) w = (response, w') \<and> out = Inr response)
    | Inr lim \<Rightarrow>
        (\<exists>store_future w2 r w3.
           f_store this (scoped_key (f_config this) key) (cfg_window (f_config this)) w = (store_future, w2) \<and>
           awaits R store_future w2 r w3 \<and>
           concludes R hdr emit svc (f_config this) (f_factory this) (f_inner this) request
             (decide (f_config this) lim r) w3 out w'))"
  by (auto simp: after_limit_def awaits_ready_state awaits_store_state awaits_after_store
      split: sum.split prod.split)

lemma response_future_new_limit:
  "response_future_new request inner st key fut config factory =
     (response_future_new request inner st key fut config factory)\<lparr>f_state := State_Limit fut request key\<rparr>"
  by (simp add: response_future_new_def)

lemma response_future_new_sel:
  "f_store (response_future_new request inner st key fut config factory) = st"
  "f_config (response_future_new request inner st key fut config factory) = config"
  "f_factory (response_future_new request inner st key fut config factory) = factory"
  "f_inner (response_future_new request inner st key fut config factory) = inner"
  by (simp_all add: response_future_new_def)

lemma awaits_response_future_new:
  "awaits R (as_future hdr emit svc
       (response_future_new request inner st key limit_future config factory)) w out w' \<longleftrightarrow>
   lifecycle R hdr emit svc config factory inner request st key limit_future w out w'"
proof -
  have "awaits R (as_future hdr emit svc
        (response_future_new request inner st key limit_future config factory)) w out w' \<longleftrightarrow>
      (\<exists>r w1. awaits R limit_future w r w1 \<and>
        (case after_limit (response_future_new request inner st key limit_future config factory)
                request key r w1 of
           (this', w2) \<Rightarrow> awaits R (as_future hdr emit svc this') w2 out w'))"
    by (subst response_future_new_limit) (rule awaits_limit_state)
  also have "\<dots> \<longleftrightarrow> lifecycle R hdr emit svc config factory inner request st key limit_future w out w'"
    unfolding awaits_after_limit response_future_new_sel
    by (subst lifecycle.simps) (simp add: split_sum_ex, blast)
  finally show ?thesis .
qed

text \<open>
  C6. awaiting the response future of a keyed request is exactly the documented lifecycle.
  For every provider, store, inner service and factory, however often their futures are
  pending and whatever other tasks do to the world between polls, the response future
  completes with an outcome if and only if the lifecycle concludes with it.
\<close>

theorem response_future_refines_lifecycle:
  "awaits R (as_future hdr emit svc
       (response_future_new request inner st key limit_future config factory)) w out w' \<longleftrightarrow>
   lifecycle R hdr emit svc config factory inner request st key limit_future w out w'"
  by (rule awaits_response_future_new)

section \<open>Completion\<close>

fun goes_on ::
  "('w \<Rightarrow> 'w \<Rightarrow> bool) \<Rightarrow> ('h, 'v) header_api \<Rightarrow> (trace_event \<Rightarrow> 'w \<Rightarrow> 'w) \<Rightarrow>
    ('w, 'i, 'p, 'b, 'h, 'r, 'e) inner_service \<Rightarrow>
    (('e, ('h, 'r) response) result, ('w, 'p, 'b, 'h, 'r, 'e, 'i) ResponseFuture, 'w) loop \<Rightarrow> bool" where
  "goes_on R hdr emit svc (Return (Ready r) this w) \<longleftrightarrow> True"
| "goes_on R hdr emit svc (Return (Pending u) this w) \<longleftrightarrow>
     (\<forall>w2. R w w2 \<longrightarrow> finishes R (as_future hdr emit svc this) w2)"
| "goes_on R hdr emit svc (Return (Panic m) this w) \<longleftrightarrow> False"
| "goes_on R hdr emit svc (Continue this w) \<longleftrightarrow> finishes R (as_future hdr emit svc this) w"

lemma finishes_as_future:
  "finishes R (as_future hdr emit svc this) w \<longleftrightarrow>
     goes_on R hdr emit svc (poll_step hdr emit svc this w)"
proof (cases "poll_step hdr emit svc this w")
  case (Return r this' w1)
  then show ?thesis
    by (cases r)
      (simp_all add: finishes_unfold [of R "as_future hdr emit svc this"]
        poll_future_as_future [of _ _ _ this] del: as_future.simps as_future.sel)
next
  case (Continue this' w1)
  then show ?thesis
    by (simp add: finishes_unfold [of R "as_future hdr emit svc this"]
        finishes_unfold [of R "as_future hdr emit svc this'"]
        poll_future_as_future [of _ _ _ this] del: as_future.simps as_future.sel)
qed

lemma finishes_ready_bang:
  assumes arm: "\<And>f w. poll_step hdr emit svc (mk f) w = ready_bang f mk k w"
    and "finishes R f w"
    and "\<And>r w1. goes_on R hdr emit svc (k r w1)"
  shows "finishes R (as_future hdr emit svc (mk f)) w"
  using assms(2)
proof (induction rule: finishes.induct)
  case (finishes_ready f w r w')
  then show ?case using assms(3) by (simp add: finishes_as_future arm ready_bang_def)
next
  case (finishes_pending f w f' w1)
  then show ?case by (subst finishes_as_future) (simp add: arm ready_bang_def)
qed

definition store_answers :: "('w \<Rightarrow> 'w \<Rightarrow> bool) \<Rightarrow> 'w store \<Rightarrow> bool" where
  "store_answers R st \<longleftrightarrow> (\<forall>k d w. case st k d w of (fut, w') \<Rightarrow> finishes R fut w')"

definition service_answers :: "('w \<Rightarrow> 'w \<Rightarrow> bool) \<Rightarrow> ('w, 's, 'req, 'res, 'e) service \<Rightarrow> bool" where
  "service_answers R svc \<longleftrightarrow> (\<forall>i q w. case svc_call svc i q w of (fut, i', w') \<Rightarrow> finishes R fut w')"

lemma store_answersD: "store_answers R st \<Longrightarrow> st k d w = (fut, w') \<Longrightarrow> finishes R fut w'"
  unfolding store_answers_def by (metis case_prod_conv)

lemma service_answersD: "service_answers R svc \<Longrightarrow> svc_call svc i q w = (fut, i', w') \<Longrightarrow> finishes R fut w'"
  unfolding service_answers_def by (metis case_prod_conv)

lemma finishes_inner_state:
  "finishes R fut w \<Longrightarrow> finishes R (as_future hdr emit svc (this\<lparr>f_state := State_Inner fut metadata\<rparr>)) w"
  by (rule finishes_ready_bang [where mk = "\<lambda>f. this\<lparr>f_state := State_Inner f metadata\<rparr>"
        and k = "\<lambda>r v. Return (Ready (map_sum id
            (\<lambda>response. append_inner_response_headers hdr response metadata) r))
            (this\<lparr>f_state := State_Done\<rparr>) v"])
    (auto simp: poll_step_def)

lemma finishes_ready_state:
  "finishes R (as_future hdr emit svc (this\<lparr>f_state := State_Ready response\<rparr>)) w"
  by (subst finishes_as_future) (simp add: poll_step_def Let_def split: prod.split)

lemma finishes_store_state:
  assumes "service_answers R svc" "finishes R fut w"
  shows "finishes R (as_future hdr emit svc (this\<lparr>f_state := State_Store fut request lim\<rparr>)) w"
  by (intro finishes_ready_bang [where mk = "\<lambda>f. this\<lparr>f_state := State_Store f request lim\<rparr>"
        and k = "\<lambda>r v. let (this', v') = after_store emit svc this request lim r v in Continue this' v'"]
        assms(2))
    (auto simp: poll_step_def after_store_decide finishes_ready_state
      split: prod.split decision.split intro!: finishes_inner_state
      dest: service_answersD [OF assms(1)])

lemma finishes_limit_state:
  assumes "service_answers R svc" "store_answers R (f_store this)" "finishes R fut w"
  shows "finishes R (as_future hdr emit svc (this\<lparr>f_state := State_Limit fut request key\<rparr>)) w"
  by (intro finishes_ready_bang [where mk = "\<lambda>f. this\<lparr>f_state := State_Limit f request key\<rparr>"
        and k = "\<lambda>r v. let (this', v') = after_limit this request key r v in Continue this' v'"]
        assms(3))
    (auto simp: poll_step_def after_limit_def finishes_ready_state
      split: prod.split sum.split
      intro!: finishes_store_state [OF assms(1)] dest: store_answersD [OF assms(2)])

lemma finishes_response_future:
  assumes "service_answers R svc" "store_answers R st" "finishes R limit_future w"
  shows "finishes R (as_future hdr emit svc
    (response_future_new request inner st key limit_future config factory)) w"
  using assms by (subst response_future_new_limit)
    (auto intro!: finishes_limit_state simp: response_future_new_sel)

text \<open>
  C16. if the quota provider, the store and the inner service always answer, then so does the
  response future: it is ready after finitely many polls and never panics, whatever other
  tasks do in between.
\<close>

theorem response_future_finishes:
  assumes "service_answers R svc" "store_answers R st" "finishes R limit_future w"
  shows "finishes R (as_future hdr emit svc
    (response_future_new request inner st key limit_future config factory)) w"
  by (rule finishes_response_future [OF assms])

definition slow_store :: "'w store" where
  "slow_store k d w = (delayed 3 (Inr \<lparr>used = 1, reset_after = d\<rparr>), w)"

definition slow_service :: "('w, nat, ('p, 'b) http_request, ((string \<times> string) list, unit) response, string) service" where
  "slow_service =
     \<lparr>svc_poll_ready = (\<lambda>i w. (Ready (Inr ()), i, w)),
      svc_call = (\<lambda>i q w. (delayed 2 (Inr (response_new list_header_api ())), i, w)),
      svc_clone = (\<lambda>i w. (Suc i, w))\<rparr>"

definition sample_config :: "unit RateLimitConfig" where
  "sample_config =
     \<lparr>cfg_policy_name = ''api'', cfg_window = Duration 60 0, cfg_key_encoder = None,
      cfg_skip_predicate = None, cfg_store_failure_mode = Reject,
      cfg_store_failure_tracing_level = WARN, cfg_rate_limit_fields = Draft11\<rparr>"

definition sample_request :: "(unit, unit) http_request" where
  "sample_request = \<lparr>parts = (), extension = None, body = ()\<rparr>"

theorem response_future_finishes_witness:
  "finishes (\<lambda>_ _. True) (as_future list_header_api (\<lambda>_ w. w) slow_service
     (response_future_new sample_request 0 slow_store ''caller'' (delayed 1 (Inr 5)) sample_config
       (default_build list_header_api ()))) ()"
proof (rule response_future_finishes)
  show "service_answers (\<lambda>_ _. True) slow_service"
    by (simp add: service_answers_def slow_service_def finishes_delayed)
  show "store_answers (\<lambda>_ _. True) slow_store"
    by (simp add: store_answers_def slow_store_def finishes_delayed)
  show "finishes (\<lambda>_ _. True) (delayed 1 (Inr 5)) ()" by (rule finishes_delayed)
qed

section \<open>After completion\<close>

lemma poll_step_Return_Ready:
  "poll_step hdr emit svc this w = Return (Ready r) this' w' \<Longrightarrow> f_state this' = State_Done"
  by (auto simp: poll_step_def ready_bang_def Let_def split: State.splits prod.splits poll.splits)

lemma response_future_poll_Ready:
  "response_future_poll hdr emit svc this w = (Ready r, this', w') \<Longrightarrow> f_state this' = State_Done"
proof (induction hdr emit svc this w rule: response_future_poll.induct)
  case (1 hdr emit svc this w)
  then show ?case
    by (auto simp: response_future_poll.simps [of hdr emit svc this w] poll_step_Return_Ready
        split: loop.splits)
qed

text \<open>
  A response future gives its outcome once.  After a poll that returned ready, every
  further poll panics and leaves the world alone.
\<close>

theorem poll_after_completion:
  assumes "response_future_poll hdr emit svc this w = (Ready r, this', w')"
  shows "response_future_poll hdr emit svc this' v =
    (Panic ''rate-limit response future polled after completion'', this', v)"
  using response_future_poll_Ready [OF assms]
  by (simp add: response_future_poll.simps poll_step_def)

theorem poll_after_completion_witness:
  "\<exists>r this' w'. response_future_poll list_header_api (\<lambda>_ w. w) slow_service
       (response_future_error sample_request (Key ''c'' ''m'') 0 slow_store sample_config
         (default_build list_header_api ())) () = (Ready r, this', w') \<and>
     response_future_poll list_header_api (\<lambda>_ w. w) slow_service this' () =
       (Panic ''rate-limit response future polled after completion'', this', ())"
proof -
  obtain r this' w' where p: "response_future_poll list_header_api (\<lambda>_ w. w) slow_service
       (response_future_error sample_request (Key ''c'' ''m'') 0 slow_store sample_config
         (default_build list_header_api ())) () = (Ready r, this', w')"
    by (simp add: response_future_poll.simps poll_step_def response_future_error_def default_build_def)
  show ?thesis using p poll_after_completion [OF p] by blast
qed

end
