(* ===== verification/RL_Service.thy ===== *)
theory RL_Service
  imports RL_Lifecycle
begin

text \<open>
  \<open>src/src/limiter/layer.rs\<close> and \<open>src/src/limiter/service.rs\<close>: the Tower layer and the
  service it produces.  The components of a service are the values of the layer; a clone of a
  key extractor, provider, store or factory is the same handle, as their traits require of
  clones, while a clone of the inner service is a new instance.
\<close>

section \<open>Definitions\<close>

record ('i, 'k, 's, 'l, 'f, 'p) RateLimit =
  r_inner :: 'i
  r_key_extractor :: 'k
  r_store :: 's
  r_limit_provider :: 'l
  r_response_factory :: 'f
  r_config :: "'p RateLimitConfig"

definition layer :: "('k, 's, 'l, 'f, 'p) RateLimitLayer \<Rightarrow> 'i \<Rightarrow> ('i, 'k, 's, 'l, 'f, 'p) RateLimit" where
  "layer l inner =
     \<lparr>r_inner = inner, r_key_extractor = l_key_extractor l, r_store = l_store l,
      r_limit_provider = l_limit_provider l, r_response_factory = l_response_factory l,
      r_config = l_config l\<rparr>"

definition get_ref :: "('i, 'k, 's, 'l, 'f, 'p) RateLimit \<Rightarrow> 'i" where
  "get_ref rl = r_inner rl"

text \<open>\<open>get_mut\<close>: what the caller does with the mutable borrow is a function of the inner service.\<close>

definition get_mut :: "('i \<Rightarrow> 'i) \<Rightarrow> ('i, 'k, 's, 'l, 'f, 'p) RateLimit \<Rightarrow> ('i, 'k, 's, 'l, 'f, 'p) RateLimit" where
  "get_mut g rl = rl\<lparr>r_inner := g (r_inner rl)\<rparr>"

definition into_inner :: "('i, 'k, 's, 'l, 'f, 'p) RateLimit \<Rightarrow> 'i" where
  "into_inner rl = r_inner rl"

type_synonym ('w, 'p, 'b, 'h, 'r, 'i, 'key) rate_limit =
  "('i, ('w, 'p, 'key) key_extractor, 'w store, ('w, 'p) limit_provider,
    ('w, 'p, 'b, 'h, 'r) factory, 'p) RateLimit"

definition poll_ready ::
  "('w, 'i, 'p, 'b, 'h, 'r, 'e) inner_service \<Rightarrow> ('w, 'p, 'b, 'h, 'r, 'i, 'key) rate_limit \<Rightarrow> 'w \<Rightarrow>
    ('e + unit, unit) poll \<times> ('w, 'p, 'b, 'h, 'r, 'i, 'key) rate_limit \<times> 'w" where
  "poll_ready svc rl w =
     (let (r, inner', w') = svc_poll_ready svc (r_inner rl) w in (r, rl\<lparr>r_inner := inner'\<rparr>, w'))"

definition call ::
  "('w, 'i, 'p, 'b, 'h, 'r, 'e) inner_service \<Rightarrow> ('w, 'p, 'b, 'h, 'r, 'i, 'key) rate_limit \<Rightarrow>
    ('p, 'b) http_request \<Rightarrow> 'w \<Rightarrow>
    ('w, 'p, 'b, 'h, 'r, 'e, 'i) ResponseFuture \<times> ('w, 'p, 'b, 'h, 'r, 'i, 'key) rate_limit \<times> 'w" where
  "call svc rl request w =
     (let (replacement, w1) = svc_clone svc (r_inner rl) w;
          inner = r_inner rl;
          rl' = rl\<lparr>r_inner := replacement\<rparr>
      in case check_skip_predicate (cfg_skip_predicate (r_config rl')) request of
           (True, request) \<Rightarrow>
             (let (fut, w2) = response_future_skipped svc request inner (r_store rl') (r_config rl')
                                (r_response_factory rl') w1
              in (fut, rl', w2))
         | (False, request) \<Rightarrow>
             (case ke_extract (r_key_extractor rl') (request_head request) w1 of
                (Inl error, w2) \<Rightarrow>
                  (response_future_error request error inner (r_store rl') (r_config rl')
                     (r_response_factory rl'), rl', w2)
              | (Inr key, w2) \<Rightarrow>
                  (let (limit_future, w3) = r_limit_provider rl' (request_head request) w2
                   in (response_future_new request inner (r_store rl')
                         (ke_to_string (r_key_extractor rl') key) limit_future (r_config rl')
                         (r_response_factory rl'), rl', w3))))"

text \<open>
  The service as a whole, so that a layer can wrap the service of another layer: its future is
  the response future, its clone clones the inner service.
\<close>

definition rate_limit_service ::
  "('h, 'v) header_api \<Rightarrow> (trace_event \<Rightarrow> 'w \<Rightarrow> 'w) \<Rightarrow> ('w, 'i, 'p, 'b, 'h, 'r, 'e) inner_service \<Rightarrow>
    ('w, ('w, 'p, 'b, 'h, 'r, 'i, 'key) rate_limit, 'p, 'b, 'h, 'r, 'e) inner_service" where
  "rate_limit_service hdr emit svc =
     \<lparr>svc_poll_ready = poll_ready svc,
      svc_call = (\<lambda>rl request w.
        let (fut, rl', w') = call svc rl request w in (as_future hdr emit svc fut, rl', w')),
      svc_clone = (\<lambda>rl w.
        let (inner', w') = svc_clone svc (r_inner rl) w in (rl\<lparr>r_inner := inner'\<rparr>, w'))\<rparr>"

section \<open>The outcome of a call\<close>

definition skips :: "'p RateLimitConfig \<Rightarrow> ('p, 'b) http_request \<Rightarrow> bool" where
  "skips config request =
     (case cfg_skip_predicate config of None \<Rightarrow> False | Some pr \<Rightarrow> pr (request_head request))"

text \<open>The documented order: bypass, client key, quota, store, decision.\<close>

inductive serves ::
  "('w \<Rightarrow> 'w \<Rightarrow> bool) \<Rightarrow> ('h, 'v) header_api \<Rightarrow> (trace_event \<Rightarrow> 'w \<Rightarrow> 'w) \<Rightarrow>
    ('w, 'i, 'p, 'b, 'h, 'r, 'e) inner_service \<Rightarrow> ('w, 'p, 'b, 'h, 'r, 'i, 'key) rate_limit \<Rightarrow>
    ('p, 'b) http_request \<Rightarrow> 'w \<Rightarrow> ('e, ('h, 'r) response) result \<Rightarrow> 'w \<Rightarrow> bool"
  for R hdr emit svc rl request where
  bypassed: "skips (r_config rl) request \<Longrightarrow>
     svc_call svc (r_inner rl) request w = (fut, inner', w1) \<Longrightarrow> awaits R fut w1 out w' \<Longrightarrow>
     serves R hdr emit svc rl request w out w'"
| key_failed: "\<not> skips (r_config rl) request \<Longrightarrow>
     ke_extract (r_key_extractor rl) (request_head request) w = (Inl e, w1) \<Longrightarrow>
     r_response_factory rl request (Reason_Error e) w1 = (response, w') \<Longrightarrow>
     serves R hdr emit svc rl request w (Inr response) w'"
| keyed: "\<not> skips (r_config rl) request \<Longrightarrow>
     ke_extract (r_key_extractor rl) (request_head request) w = (Inr key, w1) \<Longrightarrow>
     r_limit_provider rl (request_head request) w1 = (limit_future, w2) \<Longrightarrow>
     lifecycle R hdr emit svc (r_config rl) (r_response_factory rl) (r_inner rl) request (r_store rl)
       (ke_to_string (r_key_extractor rl) key) limit_future w2 out w' \<Longrightarrow>
     serves R hdr emit svc rl request w out w'"

lemma check_skip: "check_skip_predicate (cfg_skip_predicate config) request = (skips config request, request)"
  by (simp add: check_skip_predicate_def skips_def request_head_def into_parts_def from_parts_def Let_def
      split: option.split)

lemma awaits_skipped:
  "awaits R (as_future hdr emit svc
      \<lparr>f_state = State_Inner fut None, f_inner = i, f_store = st, f_config = c, f_factory = fa\<rparr>) w out w' \<longleftrightarrow>
   awaits R fut w out w'"
  using awaits_inner_state [where R = R and hdr = hdr and emit = emit and svc = svc and metadata = None and fut = fut and
      this = "\<lparr>f_state = State_Inner fut None, f_inner = i, f_store = st, f_config = c, f_factory = fa\<rparr>"]
  by (auto simp: append_inner_response_headers_def)

lemma awaits_error:
  "awaits R (as_future hdr emit svc (response_future_error request e inner st c fa)) w out w' \<longleftrightarrow>
   (\<exists>response. fa request (Reason_Error e) w = (response, w') \<and> out = Inr response)"
  using awaits_ready_state [where R = R and hdr = hdr and emit = emit and svc = svc and this = "response_future_error request e inner st c fa" and
      response = "Middleware_Error request e"]
  by (simp add: response_future_error_def)

lemma awaited_call_serves:
  assumes "svc_clone svc (r_inner rl) w = (replacement, w1)"
    and "svc_call (rate_limit_service hdr emit svc) rl request w = (fut, rl', w2)"
  shows "awaits R fut w2 out w' \<longleftrightarrow> serves R hdr emit svc rl request w1 out w'"
proof (cases "skips (r_config rl) request")
  case True
  with assms show ?thesis
    by (auto simp: rate_limit_service_def call_def check_skip response_future_skipped_def awaits_skipped
        serves.simps split: prod.splits)
next
  case False
  obtain k w3 where e: "ke_extract (r_key_extractor rl) (request_head request) w1 = (k, w3)"
    by (cases "ke_extract (r_key_extractor rl) (request_head request) w1")
  show ?thesis
  proof (cases k)
    case (Inl err)
    with assms False e show ?thesis
      by (auto simp: rate_limit_service_def call_def check_skip awaits_error serves.simps)
  next
    case (Inr key)
    with assms False e show ?thesis
      by (auto simp: rate_limit_service_def call_def check_skip awaits_response_future_new
          serves.simps split: prod.splits)
  qed
qed

text \<open>
  C7. a call of the service, awaited to the end, serves the request in the documented order.
  The inner service is first cloned for later requests; after that the outcome is that of
  \<open>serves\<close> on the instance the service held, under any interference.
\<close>

theorem call_serves:
  assumes "svc_clone svc (r_inner rl) w = (replacement, w1)"
    and "svc_call (rate_limit_service hdr emit svc) rl request w = (fut, rl', w2)"
  shows "awaits R fut w2 out w' \<longleftrightarrow> serves R hdr emit svc rl request w1 out w'"
  by (rule awaited_call_serves [OF assms])

lemma triple_unit:
  obtains a b where "(x :: 'a \<times> 'b \<times> unit) = (a, b, ())"
  by (cases x) auto

definition sample_extractor :: "('w, unit, string) key_extractor" where
  "sample_extractor = pure_extractor (\<lambda>r. Inr ''caller'') (\<lambda>k. k)"

definition sample_rl :: "unit RateLimitConfig \<Rightarrow> 'w store \<Rightarrow> u64 \<Rightarrow>
    ('w, unit, unit, (string \<times> string) list, unit, nat, string) rate_limit" where
  "sample_rl config st n =
     \<lparr>r_inner = 0, r_key_extractor = sample_extractor, r_store = st, r_limit_provider = fixed_limit n,
      r_response_factory = default_build list_header_api (), r_config = config\<rparr>"

theorem call_serves_witness:
  "\<exists>fut rl'. svc_call (rate_limit_service list_header_api (\<lambda>_ w. w) slow_service)
       (sample_rl sample_config slow_store 5) sample_request () = (fut, rl', ()) \<and>
     (\<forall>out. awaits (=) fut () out () \<longleftrightarrow>
        serves (=) list_header_api (\<lambda>_ w. w) slow_service (sample_rl sample_config slow_store 5)
          sample_request () out ())"
proof -
  obtain fut rl' where c: "svc_call (rate_limit_service list_header_api (\<lambda>_ w. w) slow_service)
       (sample_rl sample_config slow_store 5) sample_request () = (fut, rl', ())"
    by (rule triple_unit)
  have "svc_clone slow_service (r_inner (sample_rl sample_config slow_store 5)) () = (1, ())"
    by (simp add: slow_service_def sample_rl_def)
  from call_serves [OF this c] c show ?thesis by blast
qed

section \<open>Bypass and failures before the store\<close>

text \<open>
  C21. a bypassed request is forwarded as it is.  Apart from the clone kept for later requests,
  the call does to the world what calling the inner service does, and its future has the
  outcomes of the inner future: no key is extracted, no quota resolved, no store charged, no
  context or header added.
\<close>

theorem bypass_is_transparent:
  assumes "skips (r_config rl) request"
    and "svc_clone svc (r_inner rl) w = (replacement, w1)"
    and "svc_call svc (r_inner rl) request w1 = (inner_fut, inner', w2)"
    and "svc_call (rate_limit_service hdr emit svc) rl request w = (fut, rl', w3)"
  shows "w3 = w2 \<and> rl' = rl\<lparr>r_inner := replacement\<rparr> \<and>
    (awaits R fut v out v' \<longleftrightarrow> awaits R inner_fut v out v')"
  using assms
  by (auto simp: rate_limit_service_def call_def check_skip response_future_skipped_def awaits_skipped)

theorem bypass_is_transparent_witness:
  "\<exists>fut rl'. svc_call (rate_limit_service list_header_api (\<lambda>_ w. w) slow_service)
       (sample_rl (sample_config\<lparr>cfg_skip_predicate := Some (\<lambda>_. True)\<rparr>) slow_store 0) sample_request ()
         = (fut, rl', ()) \<and>
     (awaits (=) fut () (Inr (response_new list_header_api ())) () \<longleftrightarrow>
      awaits (=) (delayed 2 (Inr (response_new list_header_api ()) :: (string, _) result)) ()
        (Inr (response_new list_header_api ())) ())"
proof -
  let ?rl = "sample_rl (sample_config\<lparr>cfg_skip_predicate := Some (\<lambda>_. True)\<rparr>) slow_store 0"
  obtain fut rl' where c: "svc_call (rate_limit_service list_header_api (\<lambda>_ w. w) slow_service)
       ?rl sample_request () = (fut, rl', ())"
    by (rule triple_unit)
  have 1: "skips (r_config ?rl) sample_request" by (simp add: skips_def sample_rl_def)
  have 2: "svc_clone slow_service (r_inner ?rl) () = (1, ())"
    by (simp add: slow_service_def sample_rl_def)
  have 3: "svc_call slow_service (r_inner ?rl) sample_request ()
      = (delayed 2 (Inr (response_new list_header_api ())), 0, ())"
    by (simp add: slow_service_def sample_rl_def)
  from bypass_is_transparent [OF 1 2 3 c] c show ?thesis by blast
qed

text \<open>
  The two ways a request fails before the store is reached, with the world the failing
  component leaves, and the way it gets there.
\<close>

definition resolution_error ::
  "('w \<Rightarrow> 'w \<Rightarrow> bool) \<Rightarrow> ('w, 'p, 'b, 'h, 'r, 'i, 'key) rate_limit \<Rightarrow> ('p, 'b) http_request \<Rightarrow> 'w \<Rightarrow>
    RateLimitError \<Rightarrow> 'w \<Rightarrow> bool" where
  "resolution_error R rl request w e v \<longleftrightarrow>
     ke_extract (r_key_extractor rl) (request_head request) w = (Inl e, v) \<or>
     (\<exists>key w1 limit_future w2.
        ke_extract (r_key_extractor rl) (request_head request) w = (Inr key, w1) \<and>
        r_limit_provider rl (request_head request) w1 = (limit_future, w2) \<and>
        awaits R limit_future w2 (Inl e) v)"

definition resolution_succeeds ::
  "('w \<Rightarrow> 'w \<Rightarrow> bool) \<Rightarrow> ('w, 'p, 'b, 'h, 'r, 'i, 'key) rate_limit \<Rightarrow> ('p, 'b) http_request \<Rightarrow> 'w \<Rightarrow> bool" where
  "resolution_succeeds R rl request w \<longleftrightarrow>
     (\<exists>key w1 limit_future w2 lim v.
        ke_extract (r_key_extractor rl) (request_head request) w = (Inr key, w1) \<and>
        r_limit_provider rl (request_head request) w1 = (limit_future, w2) \<and>
        awaits R limit_future w2 (Inr lim) v)"

lemma serves_unresolved:
  assumes "\<not> skips (r_config rl) request" "\<not> resolution_succeeds R rl request w"
    and "serves R hdr emit svc rl request w out w'"
  shows "\<exists>e v response. resolution_error R rl request w e v \<and>
    r_response_factory rl request (Reason_Error e) v = (response, w') \<and> out = Inr response"
  using assms(3)
proof cases
  case bypassed
  with assms(1) show ?thesis by simp
next
  case (key_failed e w1 response)
  then show ?thesis by (auto simp: resolution_error_def)
next
  case (keyed key w1 limit_future w2)
  from keyed(4) show ?thesis
  proof cases
    case (quota_failed e v response)
    with keyed show ?thesis by (auto simp: resolution_error_def)
  next
    case (charged lim v)
    with keyed assms(2) show ?thesis by (auto simp: resolution_succeeds_def)
  qed
qed

text \<open>
  C22. a request whose client key or quota cannot be resolved is always rejected, also under
  \<open>StoreFailureMode::Allow\<close>.  Every outcome is the factory's response to that error, built in
  the world the failing component left: the store is not charged and the inner service is not
  called.
\<close>

theorem unresolved_requests_rejected:
  assumes "\<not> skips (r_config rl) request"
    and "svc_clone svc (r_inner rl) w = (replacement, w1)"
    and "\<not> resolution_succeeds R rl request w1"
    and "svc_call (rate_limit_service hdr emit svc) rl request w = (fut, rl', w2)"
    and "awaits R fut w2 out w'"
  shows "\<exists>e v response. resolution_error R rl request w1 e v \<and>
    r_response_factory rl request (Reason_Error e) v = (response, w') \<and> out = Inr response"
  using serves_unresolved [OF assms(1,3)] assms(5) awaited_call_serves [OF assms(2,4)] by blast

definition failing_provider :: "('w, unit) limit_provider" where
  "failing_provider request w = (ready (Inl (Quota ''test_limit_failed'' ''limit'')), w)"

theorem unresolved_requests_rejected_witness:
  "\<exists>fut rl' e v response.
     svc_call (rate_limit_service list_header_api (\<lambda>_ w. w) slow_service)
       ((sample_rl (sample_config\<lparr>cfg_store_failure_mode := Allow\<rparr>) slow_store 5)
          \<lparr>r_limit_provider := failing_provider\<rparr>) sample_request () = (fut, rl', ()) \<and>
     awaits (=) fut () (Inr ((response_new list_header_api ())\<lparr>status := 500\<rparr>)) () \<and>
     default_build list_header_api () sample_request (Reason_Error e) v = (response, ()) \<and>
     (Inr ((response_new list_header_api ())\<lparr>status := 500\<rparr>) :: (string, _) result) = Inr response"
proof -
  let ?rl = "(sample_rl (sample_config\<lparr>cfg_store_failure_mode := Allow\<rparr>) slow_store 5)
      \<lparr>r_limit_provider := failing_provider\<rparr>"
  let ?out = "Inr ((response_new list_header_api ())\<lparr>status := 500\<rparr>) :: (string, _) result"
  obtain fut rl' where c: "svc_call (rate_limit_service list_header_api (\<lambda>_ w. w) slow_service)
       ?rl sample_request () = (fut, rl', ())"
    by (rule triple_unit)
  have s: "\<not> skips (r_config ?rl) sample_request"
    by (simp add: skips_def sample_rl_def sample_config_def)
  have k: "svc_clone slow_service (r_inner ?rl) () = (1, ())"
    by (simp add: slow_service_def sample_rl_def)
  have n: "\<not> resolution_succeeds (=) ?rl sample_request ()"
    by (simp add: resolution_succeeds_def failing_provider_def)
  have a: "awaits (=) fut () ?out ()"
    unfolding awaited_call_serves [OF k c]
    by (rule serves.keyed [OF s])
      (auto simp: sample_rl_def sample_extractor_def pure_extractor_def failing_provider_def
        default_build_def status_defs intro: lifecycle.quota_failed)
  from unresolved_requests_rejected [OF s k n c a] c a show ?thesis
    by (auto simp: sample_rl_def)
qed

text \<open>
  What a limiter does with a request depends on the calls of the one inner instance it holds: a
  service that answers on that instance as the given one does is as good.
\<close>

lemma concludes_instance:
  assumes "\<And>q v. svc_call svc' inner q v = svc_call svc inner q v"
    and "concludes R hdr emit svc config factory inner request d w out w'"
  shows "concludes R hdr emit svc' config factory inner request d w out w'"
  using assms(2) by cases (auto simp: concludes_simps assms(1))

lemma lifecycle_instance:
  assumes "\<And>q v. svc_call svc' inner q v = svc_call svc inner q v"
    and "lifecycle R hdr emit svc config factory inner request st key limit_future w out w'"
  shows "lifecycle R hdr emit svc' config factory inner request st key limit_future w out w'"
  using assms(2) by cases (auto intro: lifecycle.intros concludes_instance [of svc' inner svc, OF assms(1)])

lemma serves_instance:
  assumes "\<And>q v. svc_call svc' (r_inner rl) q v = svc_call svc (r_inner rl) q v"
    and "serves R hdr emit svc rl request w out w'"
  shows "serves R hdr emit svc' rl request w out w'"
  using assms(2)
  by cases (auto simp: assms(1) intro: serves.intros lifecycle_instance [of svc' "r_inner rl" svc, OF assms(1)])

lemma serves_instance_iff:
  assumes "\<And>q v. svc_call svc' (r_inner rl) q v = svc_call svc (r_inner rl) q v"
  shows "serves R hdr emit svc' rl request w out w' \<longleftrightarrow> serves R hdr emit svc rl request w out w'"
  using serves_instance [of svc' rl svc] serves_instance [of svc rl svc'] assms by metis

lemma call_instance:
  assumes "\<And>q v. svc_call svc' (r_inner rl) q v = svc_call svc (r_inner rl) q v"
    and "svc_clone svc' (r_inner rl) w = svc_clone svc (r_inner rl) w"
  shows "call svc' rl request w = call svc rl request w"
  by (cases "skips (r_config rl) request")
    (simp_all add: call_def check_skip response_future_skipped_def assms Let_def split: prod.split)

text \<open>
  C23. the instance that was polled for readiness is the only one a call uses, whether the
  request is bypassed, charged or admitted after a store failure.  Replace the inner service by
  one that agrees on the calls of that instance and answers differently on every other one, the
  clone kept for the next request included: the call does the same to the world, and every
  outcome of its future, awaited under any interference, is the same.  The limiter itself keeps
  the fresh clone, which has not been polled, and changes in nothing else.
\<close>

theorem call_uses_ready_instance:
  assumes "poll_ready svc rl w = (Ready (Inr ()), rl1, w1)"
    and "svc_call (rate_limit_service hdr emit svc) rl1 request w2 = (fut, rl2, w3)"
    and "svc_call (rate_limit_service hdr emit svc') rl1 request w2 = (fut', rl2', w3')"
    and "\<And>q v. svc_call svc' (r_inner rl1) q v = svc_call svc (r_inner rl1) q v"
    and "svc_clone svc' (r_inner rl1) w2 = svc_clone svc (r_inner rl1) w2"
  shows "r_inner rl1 = fst (snd (svc_poll_ready svc (r_inner rl) w)) \<and>
    w3' = w3 \<and> (\<forall>R out w'. awaits R fut' w3 out w' \<longleftrightarrow> awaits R fut w3 out w') \<and>
    rl2 = rl\<lparr>r_inner := fst (svc_clone svc (r_inner rl1) w2)\<rparr>"
proof (intro conjI allI)
  obtain replacement v where k: "svc_clone svc (r_inner rl1) w2 = (replacement, v)" by (rule prod.exhaust)
  note k' = trans [OF assms(5) k]
  have rl1: "rl1 = rl\<lparr>r_inner := fst (snd (svc_poll_ready svc (r_inner rl) w))\<rparr>"
    using assms(1) by (auto simp: poll_ready_def split: prod.splits)
  then show "r_inner rl1 = fst (snd (svc_poll_ready svc (r_inner rl) w))" by simp
  show "rl2 = rl\<lparr>r_inner := fst (svc_clone svc (r_inner rl1) w2)\<rparr>"
    using assms(2) by (auto simp: rl1 rate_limit_service_def call_def Let_def split: prod.splits sum.splits bool.splits)
  show w3: "w3' = w3"
    using assms(2,3) by (auto simp: rate_limit_service_def call_instance [OF assms(4,5)] split: prod.splits)
  fix R out w'
  show "awaits R fut' w3 out w' \<longleftrightarrow> awaits R fut w3 out w'"
    using awaited_call_serves [OF k' assms(3), of R out w'] awaited_call_serves [OF k assms(2), of R out w']
      serves_instance_iff [of svc' rl1 svc, OF assms(4)] w3 by simp
qed

text \<open>An inner service of which only the instance \<open>0\<close> answers as the slow one; others refuse.\<close>

definition fussy_service ::
  "('w, nat, ('p, 'b) http_request, ((string \<times> string) list, unit) response, string) service" where
  "fussy_service = slow_service\<lparr>svc_call := (\<lambda>i q w.
     if i = 0 then svc_call slow_service i q w else (ready (Inl ''not ready''), i, w))\<rparr>"

theorem call_uses_ready_instance_witness:
  "\<exists>fut rl2 fut' rl2'. svc_call (rate_limit_service list_header_api (\<lambda>_ w. w) slow_service)
       (sample_rl sample_config slow_store 5) sample_request () = (fut, rl2, ()) \<and>
     svc_call (rate_limit_service list_header_api (\<lambda>_ w. w) fussy_service)
       (sample_rl sample_config slow_store 5) sample_request () = (fut', rl2', ()) \<and>
     (\<forall>out. awaits (=) fut' () out () \<longleftrightarrow> awaits (=) fut () out ()) \<and> r_inner rl2 = 1"
proof -
  let ?rl = "sample_rl sample_config slow_store 5"
  obtain fut rl2 where c: "svc_call (rate_limit_service list_header_api (\<lambda>_ w. w) slow_service)
      ?rl sample_request () = (fut, rl2, ())"
    by (rule triple_unit)
  obtain fut' rl2' where c': "svc_call (rate_limit_service list_header_api (\<lambda>_ w. w) fussy_service)
      ?rl sample_request () = (fut', rl2', ())"
    by (rule triple_unit)
  have p: "poll_ready slow_service ?rl () = (Ready (Inr ()), ?rl, ())"
    by (simp add: poll_ready_def slow_service_def sample_rl_def)
  have i: "svc_call fussy_service (r_inner ?rl) q v = svc_call slow_service (r_inner ?rl) q v"
    "svc_clone fussy_service (r_inner ?rl) () = svc_clone slow_service (r_inner ?rl) ()" for q v
    by (simp_all add: fussy_service_def slow_service_def sample_rl_def)
  from call_uses_ready_instance [OF p c c' i] c c' show ?thesis
    by (auto simp: slow_service_def sample_rl_def)
qed

section \<open>Decisions after the store has answered\<close>

definition charged_policy :: "'p RateLimitConfig \<Rightarrow> u64 \<Rightarrow> Usage \<Rightarrow> Policy" where
  "charged_policy config lim u =
     \<lparr>name = cfg_policy_name config, limit = lim, window = cfg_window config,
      p_used = used u, p_reset_after = reset_after u\<rparr>"

lemma decide_usage:
  "0 < unat (used u) \<Longrightarrow> decide config lim (Inr u) =
     (if unat (used u) \<le> unat lim then Admit (charged_policy config lim u)
      else Limited (charged_policy config lim u))"
  by (auto simp: decide_def charged_policy_def Let_def)

text \<open>
  C18. a usage between one and the limit admits the request.  The inner service is called once,
  with the original head and body and with the policy appended to the context of outer layers,
  and its response gains the configured fields; an error of the inner service is passed on.
\<close>

theorem usage_within_limit_admits:
  assumes "0 < unat (used u)" "unat (used u) \<le> unat lim"
    and "after_store emit svc this request lim (Inr u) w = (this', w1)"
  shows "\<exists>request' fut inner'. svc_call svc (f_inner this) request' w = (fut, inner', w1) \<and>
    parts request' = parts request \<and> body request' = body request \<and>
    context_policies request' = context_policies request @ [charged_policy (f_config this) lim u] \<and>
    (\<forall>R v out v'. awaits R (as_future hdr emit svc this') v out v' \<longleftrightarrow>
       (\<exists>r. awaits R fut v r v' \<and> out = map_sum id (\<lambda>response. append_rate_limit_fields hdr response
          (metadata_of (f_config this) (charged_policy (f_config this) lim u))) r))"
proof -
  let ?m = "metadata_of (f_config this) (charged_policy (f_config this) lim u)"
  obtain fut i where c: "svc_call svc (f_inner this) (append_context request ?m) w = (fut, i, w1)"
    and t: "this' = (this\<lparr>f_inner := i\<rparr>)\<lparr>f_state := State_Inner fut (Some ?m)\<rparr>"
    using assms by (auto simp: after_store_decide decide_usage split: prod.splits)
  show ?thesis
    by (intro exI [of _ "append_context request ?m"] exI [of _ fut] exI [of _ i])
      (auto simp: c t append_context_frame awaits_inner_state append_inner_response_headers_def)
qed

definition sample_this ::
  "unit RateLimitConfig \<Rightarrow> ('w, unit, unit, (string \<times> string) list, unit, string, nat) ResponseFuture" where
  "sample_this config = response_future_new sample_request 0 slow_store ''caller'' (ready (Inr 2)) config
     (default_build list_header_api ())"

lemma sample_this_sel [simp]:
  "f_inner (sample_this config) = 0" "f_config (sample_this config) = config"
  "f_factory (sample_this config) = default_build list_header_api ()"
  by (simp_all add: sample_this_def response_future_new_def)

lemma sample_request_context [simp]: "context_policies sample_request = []"
  by (simp add: sample_request_def context_policies_def)

theorem usage_within_limit_admits_witness:
  "\<exists>this' w1 request' fut inner'.
     after_store (\<lambda>_ w. w) slow_service (sample_this sample_config) sample_request 2
       (Inr \<lparr>used = 2, reset_after = Duration 9 0\<rparr>) () = (this', w1) \<and>
     svc_call slow_service 0 (request' :: (unit, unit) http_request) () = (fut, inner', w1) \<and>
     context_policies request' = [charged_policy sample_config 2 \<lparr>used = 2, reset_after = Duration 9 0\<rparr>]"
proof -
  obtain this' w1 where a: "after_store (\<lambda>_ w. w) slow_service (sample_this sample_config) sample_request 2
       (Inr \<lparr>used = 2, reset_after = Duration 9 0\<rparr>) () = (this', w1)"
    by (rule prod.exhaust)
  have u: "0 < unat (used \<lparr>used = 2, reset_after = Duration 9 0\<rparr>)"
    "unat (used \<lparr>used = 2, reset_after = Duration 9 0\<rparr>) \<le> unat (2 :: u64)" by simp_all
  from usage_within_limit_admits [OF u a, of list_header_api] a show ?thesis
    by simp blast
qed

text \<open>
  C19. a usage above the limit is answered by the factory's response to \<open>RateLimited\<close> with the
  complete policy state, decorated with the fields and \<open>Retry-After\<close>.  The inner instance is
  not called and the world is unchanged until the factory runs.
\<close>

theorem usage_above_limit_rejected:
  assumes "unat lim < unat (used u)"
    and "after_store emit svc this request lim (Inr u) w = (this', w1)"
  shows "w1 = w \<and> f_inner this' = f_inner this \<and>
    (awaits R (as_future hdr emit svc this') w1 out w' \<longleftrightarrow>
      (\<exists>response. f_factory this request
           (Reason_RateLimited (charged_policy (f_config this) lim u)) w = (response, w') \<and>
         out = Inr (append_rate_limited_response_headers hdr response
           (metadata_of (f_config this) (charged_policy (f_config this) lim u)))))"
proof -
  have "0 < unat (used u)" using assms(1) by simp
  with assms have t: "w1 = w" "this' = this\<lparr>f_state := State_Ready (Middleware_RateLimited request
      (metadata_of (f_config this) (charged_policy (f_config this) lim u)))\<rparr>"
    by (simp_all add: after_store_decide decide_usage)
  show ?thesis by (auto simp: t awaits_ready_state split: prod.splits)
qed

theorem usage_above_limit_rejected_witness:
  "\<exists>this' w1. after_store (\<lambda>_ w. w) slow_service (sample_this sample_config) sample_request 2
       (Inr \<lparr>used = 3, reset_after = Duration 9 0\<rparr>) () = (this', w1) \<and>
     f_inner this' = 0 \<and>
     awaits (=) (as_future list_header_api (\<lambda>_ w. w) slow_service this') w1
       (Inr (append_rate_limited_response_headers list_header_api
          ((response_new list_header_api ())\<lparr>status := 429\<rparr>)
          (metadata_of sample_config (charged_policy sample_config 2 \<lparr>used = 3, reset_after = Duration 9 0\<rparr>)))) ()"
proof -
  obtain this' w1 where a: "after_store (\<lambda>_ w. w) slow_service (sample_this sample_config) sample_request 2
       (Inr \<lparr>used = 3, reset_after = Duration 9 0\<rparr>) () = (this', w1)"
    by (rule prod.exhaust)
  have u: "unat (2 :: u64) < unat (used \<lparr>used = 3, reset_after = Duration 9 0\<rparr>)" by simp
  from usage_above_limit_rejected [OF u a, of "(=)" list_header_api] a show ?thesis
    by (auto simp: default_build_def status_defs)
qed

text \<open>A result that counts as a store failure, and the error it is reported with.\<close>

definition store_failure :: "(RateLimitError, Usage) result \<Rightarrow> RateLimitError option" where
  "store_failure result =
     (case result of
        Inl e \<Rightarrow> Some e
      | Inr u \<Rightarrow> if used u = 0
               then Some (Store ''invalid_usage'' ''rate-limit store returned zero usage'') else None)"

lemma decide_store_failure: "store_failure result = Some e \<Longrightarrow> decide config lim result = store_failed config e"
  by (auto simp: store_failure_def decide_def split: sum.splits if_splits)

definition store_failure_event :: "'p RateLimitConfig \<Rightarrow> RateLimitError \<Rightarrow> trace_event" where
  "store_failure_event config e =
     \<lparr>te_target = ''tower_rate_limiter::store'', te_level = cfg_store_failure_tracing_level config,
      te_fields = [(''event'', ''store_failure''), (''policy_name'', cfg_policy_name config),
        (''failure_mode'', case cfg_store_failure_mode config of Reject \<Rightarrow> ''reject'' | Allow \<Rightarrow> ''allow''),
        (''error_code'', code e)],
      te_message = ''rate-limit Store failed''\<rparr>"

lemma report_event: "report emit config e w = emit (store_failure_event config e) w"
  by (simp add: trace_store_failure_def store_failure_event_def Let_def split: Level.split)

text \<open>
  C20. a store error, or a usage of zero, emits one event at the configured level, which carries
  the policy, the mode and the error code but not the message; then the configured mode decides.
  \<open>Allow\<close> calls the inner service with the request as it came and passes its outcome on without
  headers; \<open>Reject\<close> answers with the factory's response to the error and calls nothing.
\<close>

theorem store_failure_follows_mode:
  assumes "store_failure result = Some e"
    and "after_store emit svc this request lim result w = (this', w1)"
  shows "if cfg_store_failure_mode (f_config this) = Allow
    then (\<exists>fut inner'.
        svc_call svc (f_inner this) request (emit (store_failure_event (f_config this) e) w) = (fut, inner', w1) \<and>
        (awaits R (as_future hdr emit svc this') w1 out w' \<longleftrightarrow> awaits R fut w1 out w'))
    else w1 = emit (store_failure_event (f_config this) e) w \<and> f_inner this' = f_inner this \<and>
      (awaits R (as_future hdr emit svc this') w1 out w' \<longleftrightarrow>
        (\<exists>response. f_factory this request (Reason_Error e) w1 = (response, w') \<and> out = Inr response))"
proof (cases "cfg_store_failure_mode (f_config this) = Allow")
  case True
  with assms(2) show ?thesis
    unfolding after_store_decide decide_store_failure [OF assms(1)] store_failed_def report_event
    by (auto simp: awaits_inner_state append_inner_response_headers_def split: prod.splits)
next
  case False
  with assms(2) show ?thesis
    unfolding after_store_decide decide_store_failure [OF assms(1)] store_failed_def report_event
    by (auto simp: awaits_ready_state)
qed

theorem store_failure_follows_mode_witness:
  "\<exists>this'. after_store (\<lambda>e log. log @ [e]) slow_service (sample_this sample_config) sample_request 2
       (Inr \<lparr>used = 0, reset_after = Duration 9 0\<rparr>) [] =
       (this', [store_failure_event sample_config
          (Store ''invalid_usage'' ''rate-limit store returned zero usage'')])"
proof -
  let ?r = "Inr \<lparr>used = 0, reset_after = Duration 9 0\<rparr> :: (RateLimitError, Usage) result"
  obtain this' w1 where a: "after_store (\<lambda>e log. log @ [e]) slow_service (sample_this sample_config)
      sample_request 2 ?r [] = (this', w1)"
    by (rule prod.exhaust)
  have f: "store_failure ?r = Some (Store ''invalid_usage'' ''rate-limit store returned zero usage'')"
    by (simp add: store_failure_def)
  from store_failure_follows_mode [OF f a] a show ?thesis
    by (auto simp: sample_config_def)
qed

section \<open>Completion of a call\<close>

definition provider_answers :: "('w \<Rightarrow> 'w \<Rightarrow> bool) \<Rightarrow> ('w, 'p) limit_provider \<Rightarrow> bool" where
  "provider_answers R provider \<longleftrightarrow> (\<forall>q w. case provider q w of (fut, w') \<Rightarrow> finishes R fut w')"

text \<open>
  C17. when quota provider, store and inner service always answer, so does the service: the
  future of every call, bypassed and failing ones included, is ready after finitely many polls
  without a panic, whatever other tasks do in between.
\<close>

theorem call_finishes:
  assumes "service_answers R svc" "store_answers R (r_store rl)"
    and "provider_answers R (r_limit_provider rl)"
    and "svc_call (rate_limit_service hdr emit svc) rl request w = (fut, rl', w1)"
  shows "finishes R fut w1"
proof (cases "skips (r_config rl) request")
  case True
  obtain f i v where c: "svc_call svc (r_inner rl) request (snd (svc_clone svc (r_inner rl) w)) = (f, i, v)"
    using prod_cases3 by blast
  have "finishes R (as_future hdr emit svc
     (\<lparr>f_state = State_Inner f None, f_inner = i, f_store = r_store rl, f_config = r_config rl,
       f_factory = r_response_factory rl\<rparr>\<lparr>f_state := State_Inner f None\<rparr>)) v"
    by (rule finishes_inner_state [OF service_answersD [OF assms(1) c]])
  then show ?thesis
    using assms(4) c True
    by (simp add: rate_limit_service_def call_def check_skip response_future_skipped_def split: prod.splits)
next
  case False
  obtain k v where k: "ke_extract (r_key_extractor rl) (request_head request)
      (snd (svc_clone svc (r_inner rl) w)) = (k, v)" by fastforce
  show ?thesis
  proof (cases k)
    case (Inl e)
    have "finishes R (as_future hdr emit svc
       ((response_future_error request e (r_inner rl) (r_store rl) (r_config rl) (r_response_factory rl))
         \<lparr>f_state := State_Ready (Middleware_Error request e)\<rparr>)) v"
      by (rule finishes_ready_state)
    then show ?thesis
      using assms(4) k Inl False
      by (simp add: rate_limit_service_def call_def check_skip response_future_error_def split: prod.splits)
  next
    case (Inr key)
    obtain lf v2 where l: "r_limit_provider rl (request_head request) v = (lf, v2)" by fastforce
    have "finishes R lf v2"
      using assms(3) l unfolding provider_answers_def by (metis case_prod_conv)
    from finishes_response_future [OF assms(1,2) this, where hdr = hdr and emit = emit]
    show ?thesis
      using assms(4) k l Inr False
      by (auto simp: rate_limit_service_def call_def check_skip split: prod.splits)
  qed
qed

theorem call_finishes_witness:
  "\<exists>fut rl'. svc_call (rate_limit_service list_header_api (\<lambda>_ w. w) slow_service)
       (sample_rl sample_config slow_store 5) sample_request () = (fut, rl', ()) \<and>
     finishes (\<lambda>_ _. True) fut ()"
proof -
  obtain fut rl' where c: "svc_call (rate_limit_service list_header_api (\<lambda>_ w. w) slow_service)
       (sample_rl sample_config slow_store 5) sample_request () = (fut, rl', ())"
    by (rule triple_unit)
  have 1: "service_answers (\<lambda>_ _. True) slow_service"
    by (simp add: service_answers_def slow_service_def finishes_delayed)
  have 2: "store_answers (\<lambda>_ _. True) (r_store (sample_rl sample_config slow_store 5))"
    by (simp add: store_answers_def slow_store_def sample_rl_def finishes_delayed)
  have 3: "provider_answers (\<lambda>_ _. True) (r_limit_provider (sample_rl sample_config slow_store 5))"
    by (simp add: provider_answers_def sample_rl_def fixed_limit_def)
  from call_finishes [OF 1 2 3 c] c show ?thesis by blast
qed

section \<open>Nested layers\<close>

text \<open>A request gets as far as the inner service: key, quota and store let it through with policy \<open>p\<close>.\<close>

definition admission ::
  "('w \<Rightarrow> 'w \<Rightarrow> bool) \<Rightarrow> ('w, 'p, 'b, 'h, 'r, 'i, 'key) rate_limit \<Rightarrow> ('p, 'b) http_request \<Rightarrow> 'w \<Rightarrow>
    Policy \<Rightarrow> 'w \<Rightarrow> bool" where
  "admission R rl request w p w' \<longleftrightarrow> \<not> skips (r_config rl) request \<and>
     (\<exists>key w1 limit_future w2 lim w3 store_future w4 result.
        ke_extract (r_key_extractor rl) (request_head request) w = (Inr key, w1) \<and>
        r_limit_provider rl (request_head request) w1 = (limit_future, w2) \<and>
        awaits R limit_future w2 (Inr lim) w3 \<and>
        r_store rl (scoped_key (r_config rl) (ke_to_string (r_key_extractor rl) key))
          (cfg_window (r_config rl)) w3 = (store_future, w4) \<and>
        awaits R store_future w4 result w' \<and>
        decide (r_config rl) lim result = Admit p)"

lemma serves_admission:
  assumes "admission R rl request w p w1"
    and "svc_call svc (r_inner rl) (append_context request (metadata_of (r_config rl) p)) w1 = (fut, i, w2)"
    and "awaits R fut w2 r w'"
  shows "serves R hdr emit svc rl request w
    (map_sum id (\<lambda>response. append_rate_limit_fields hdr response (metadata_of (r_config rl) p)) r) w'"
proof -
  from assms(1) obtain key v1 limit_future v2 lim v3 store_future v4 result where
    1: "\<not> skips (r_config rl) request"
    and 2: "ke_extract (r_key_extractor rl) (request_head request) w = (Inr key, v1)"
    and 3: "r_limit_provider rl (request_head request) v1 = (limit_future, v2)"
    and 4: "awaits R limit_future v2 (Inr lim) v3"
    and 5: "r_store rl (scoped_key (r_config rl) (ke_to_string (r_key_extractor rl) key))
      (cfg_window (r_config rl)) v3 = (store_future, v4)"
    and 6: "awaits R store_future v4 result w1" and 7: "decide (r_config rl) lim result = Admit p"
    unfolding admission_def by blast
  have "concludes R hdr emit svc (r_config rl) (r_response_factory rl) (r_inner rl) request
    (decide (r_config rl) lim result) w1
    (map_sum id (\<lambda>response. append_rate_limit_fields hdr response (metadata_of (r_config rl) p)) r) w'"
    unfolding 7 by (rule concludes.admit [OF assms(2,3)])
  with 4 5 6 show ?thesis
    by (intro serves.keyed [OF 1 2 3]) (rule lifecycle.charged)
qed

text \<open>
  C24. layers compose: a request that both an outer and an inner limiter let through reaches the
  handler with both policies in its context, the outer one first, and its response carries the
  fields of both, the inner layer's before the outer layer's.
\<close>

theorem nested_layers_order:
  assumes "header_api_ok hdr"
    and "m1 = metadata_of (r_config outer) p1" "m2 = metadata_of (r_config (r_inner outer)) p2"
    and "visible_name m1" "visible_name m2"
    and "admission R outer request w p1 w1"
    and "svc_clone svc (r_inner (r_inner outer)) w1 = (replacement, w2)"
    and "admission R (r_inner outer) (append_context request m1) w2 p2 w3"
    and "svc_call svc (r_inner (r_inner outer)) (append_context (append_context request m1) m2) w3 = (fut, i, w4)"
    and "awaits R fut w4 (Inr response) w'"
  shows "context_policies (append_context (append_context request m1) m2) =
      context_policies request @ [p1, p2] \<and>
    (\<exists>response'. serves R hdr emit (rate_limit_service hdr emit svc) outer request w (Inr response') w' \<and>
       (\<forall>n. header_values hdr response' n =
          header_values hdr response n @ field_values m2 n @ field_values m1 n))"
proof -
  let ?inner = "rate_limit_service hdr emit svc"
  let ?r2 = "append_rate_limit_fields hdr response m2"
  obtain f rl' v where c: "svc_call ?inner (r_inner outer) (append_context request m1) w1 = (f, rl', v)"
    using prod_cases3 by blast
  have "serves R hdr emit svc (r_inner outer) (append_context request m1) w2 (Inr ?r2) w'"
    using serves_admission [OF assms(8) assms(9) [unfolded assms(3)] assms(10), of hdr emit]
    by (simp add: assms(3))
  then have "awaits R f v (Inr ?r2) w'" by (simp add: awaited_call_serves [OF assms(7) c])
  from serves_admission [OF assms(6) c [unfolded assms(2)] this, of hdr emit]
  have "serves R hdr emit ?inner outer request w (Inr (append_rate_limit_fields hdr ?r2 m1)) w'"
    by (simp add: assms(2))
  moreover have "header_values hdr (append_rate_limit_fields hdr ?r2 m1) n =
      header_values hdr response n @ field_values m2 n @ field_values m1 n" for n
    by (simp add: header_values_append_fields [OF assms(1,4)] header_values_append_fields [OF assms(1,5)])
  ultimately show ?thesis by (auto simp: assms(2,3))
qed

definition sample_outer ::
  "(unit, unit, unit, (string \<times> string) list, unit,
    (unit, unit, unit, (string \<times> string) list, unit, nat, string) rate_limit, string) rate_limit" where
  "sample_outer =
     \<lparr>r_inner = sample_rl sample_config slow_store 5, r_key_extractor = sample_extractor,
      r_store = slow_store, r_limit_provider = fixed_limit 9,
      r_response_factory = default_build list_header_api (),
      r_config = sample_config\<lparr>cfg_policy_name := ''global''\<rparr>\<rparr>"

lemma admission_sample:
  assumes "cfg_skip_predicate (r_config rl) = None"
    "ke_extract (r_key_extractor rl) (request_head request) w = (Inr key, w)"
    "r_store rl = slow_store" "r_limit_provider rl = fixed_limit n" "1 \<le> unat n"
  shows "admission (=) rl request w (charged_policy (r_config rl) n
    \<lparr>used = 1, reset_after = cfg_window (r_config rl)\<rparr>) w"
proof -
  let ?u = "\<lparr>used = 1, reset_after = cfg_window (r_config rl)\<rparr>"
  have "decide (r_config rl) n (Inr ?u) = Admit (charged_policy (r_config rl) n ?u)"
    using assms(5) by (simp add: decide_usage)
  moreover have "awaits (=) (delayed 3 (Inr ?u)) w (Inr ?u) w" by (rule awaits_delayed)
  ultimately show ?thesis
    using assms(1-4)
    by (auto simp: admission_def skips_def fixed_limit_def slow_store_def)
qed

theorem nested_layers_order_witness:
  "\<exists>response'. serves (=) list_header_api (\<lambda>_ w. w) (rate_limit_service list_header_api (\<lambda>_ w. w) slow_service)
      sample_outer sample_request () (Inr response') () \<and>
    length (header_values list_header_api response' RATE_LIMIT) = 2"
proof -
  let ?p1 = "charged_policy (r_config sample_outer) 9 \<lparr>used = 1, reset_after = cfg_window (r_config sample_outer)\<rparr>"
  let ?c2 = "r_config (r_inner sample_outer)"
  let ?p2 = "charged_policy ?c2 5 \<lparr>used = 1, reset_after = cfg_window ?c2\<rparr>"
  let ?m1 = "metadata_of (r_config sample_outer) ?p1" and ?m2 = "metadata_of ?c2 ?p2"
  let ?resp = "response_new list_header_api ()"
  have v: "visible_name ?m1" "visible_name ?m2"
    by (simp_all add: visible_name_def charged_policy_def sample_outer_def sample_rl_def sample_config_def visible_ascii_def)
  have a1: "admission (=) sample_outer sample_request () ?p1 ()"
    by (rule admission_sample)
      (simp_all add: sample_outer_def sample_config_def sample_extractor_def pure_extractor_def)
  have cl: "svc_clone slow_service (r_inner (r_inner sample_outer)) () = (1, ())"
    by (simp add: slow_service_def sample_outer_def sample_rl_def)
  have a2: "admission (=) (r_inner sample_outer) (append_context sample_request ?m1) () ?p2 ()"
    by (rule admission_sample)
      (simp_all add: sample_outer_def sample_rl_def sample_config_def sample_extractor_def pure_extractor_def)
  have sc: "svc_call slow_service (r_inner (r_inner sample_outer))
      (append_context (append_context sample_request ?m1) ?m2) () = (delayed 2 (Inr ?resp), 0, ())"
    by (simp add: slow_service_def sample_outer_def sample_rl_def)
  obtain response' where r: "serves (=) list_header_api (\<lambda>_ w. w)
      (rate_limit_service list_header_api (\<lambda>_ w. w) slow_service) sample_outer sample_request () (Inr response') ()"
    and h: "\<forall>n. header_values list_header_api response' n =
      header_values list_header_api ?resp n @ field_values ?m2 n @ field_values ?m1 n"
    using nested_layers_order [OF list_header_api_ok refl refl v a1 cl a2 sc awaits_delayed] by blast
  have "field_values ?m1 RATE_LIMIT \<noteq> []" "field_values ?m2 RATE_LIMIT \<noteq> []"
    by (simp_all add: field_values_def format_rate_limit_fields_def sample_outer_def sample_rl_def
        sample_config_def Let_def RATE_LIMIT_def RATE_LIMIT_POLICY_def)
  then have "length (field_values ?m1 RATE_LIMIT) = 1" "length (field_values ?m2 RATE_LIMIT) = 1"
    by (auto simp: field_values_def split: option.splits if_splits)
  moreover have "header_values list_header_api ?resp RATE_LIMIT = []"
    by (simp add: header_values_def list_header_api_def response_new_def)
  ultimately show ?thesis using r h by auto
qed

end
