(* ===== verification/RL_Store.thy ===== *)
theory RL_Store
  imports RL_Policy
begin

text \<open>
  The contract of \<open>src/src/limiter/store.rs\<close> as an interface, and what follows from it for any
  store that keeps it: the counts a sequence of increments returns, and which of the charged
  requests stay within a limit.
\<close>

section \<open>Sequences of increments\<close>

text \<open>
  A store as a transition on its contents: \<open>'s\<close> is the contents, \<open>'t\<close> the readings of the clock
  one increment makes.
\<close>

type_synonym ('s, 't) increment_fun =
  "'s \<Rightarrow> 't \<Rightarrow> string \<Rightarrow> Duration \<Rightarrow> (RateLimitError, Usage) result \<times> 's"

type_synonym 't charge = "'t \<times> string \<times> Duration"

fun run_charges ::
  "('s, 't) increment_fun \<Rightarrow> 's \<Rightarrow> 't charge list \<Rightarrow> (RateLimitError, Usage) result list \<times> 's" where
  "run_charges increment s [] = ([], s)"
| "run_charges increment s ((ts, k, win) # cs) =
     (case increment s ts k win of
        (r, s') \<Rightarrow> (case run_charges increment s' cs of (rs, s'') \<Rightarrow> (r # rs, s'')))"

lemma run_charges_append:
  "run_charges inc s cs = (rs, s1) \<Longrightarrow> run_charges inc s1 cs' = (rs', s2) \<Longrightarrow>
   run_charges inc s (cs @ cs') = (rs @ rs', s2)"
proof (induction cs arbitrary: s rs)
  case (Cons c cs)
  then show ?case by (cases c) (auto split: prod.splits)
qed auto

text \<open>What the increments of one key returned, in order; failed increments return nothing.\<close>

fun usages_of :: "string \<Rightarrow> 't charge list \<Rightarrow> (RateLimitError, Usage) result list \<Rightarrow> Usage list" where
  "usages_of k ((ts, k', win) # cs) (r # rs) =
     (case r of
        Inr u \<Rightarrow> if k' = k then u # usages_of k cs rs else usages_of k cs rs
      | Inl e \<Rightarrow> usages_of k cs rs)"
| "usages_of k _ _ = []"

definition counts_of :: "string \<Rightarrow> 't charge list \<Rightarrow> (RateLimitError, Usage) result list \<Rightarrow> nat list" where
  "counts_of k cs rs = map (\<lambda>u. unat (used u)) (usages_of k cs rs)"

lemma counts_of_simps [simp]:
  "counts_of k [] rs = []"
  "counts_of k ((ts, k', win) # cs) (r # rs) =
     (case r of
        Inr u \<Rightarrow> if k' = k then unat (used u) # counts_of k cs rs else counts_of k cs rs
      | Inl e \<Rightarrow> counts_of k cs rs)"
  by (simp_all add: counts_of_def split: sum.split)

text \<open>The decision a usage leads to: the policy state can be built and is not over its limit.\<close>

definition admitted :: "string \<Rightarrow> Duration \<Rightarrow> u64 \<Rightarrow> Usage \<Rightarrow> bool" where
  "admitted nm win lim u =
     (case from_usage nm win lim u of Inl err \<Rightarrow> False | Inr p \<Rightarrow> \<not> is_rate_limited p)"

lemma admitted_iff: "admitted nm win lim u \<longleftrightarrow> 0 < unat (used u) \<and> unat (used u) \<le> unat lim"
  by (auto simp: admitted_def from_usage_def is_rate_limited_def word_less_nat_alt unat_gt_0)

definition charges_on :: "string \<Rightarrow> 't charge list \<Rightarrow> nat" where
  "charges_on k cs = length (filter (\<lambda>(ts, k', win). k' = k) cs)"

lemma charges_on_simps [simp]:
  "charges_on k [] = 0"
  "charges_on k ((ts, k', win) # cs) = (if k' = k then Suc (charges_on k cs) else charges_on k cs)"
  by (simp_all add: charges_on_def)

text \<open>
  The charges happen one after the other: each starts when the one before is done, and takes
  effect in between.
\<close>

fun in_order :: "('t \<Rightarrow> int) \<Rightarrow> ('t \<Rightarrow> int) \<Rightarrow> int \<Rightarrow> 't charge list \<Rightarrow> bool" where
  "in_order start fin t [] \<longleftrightarrow> True"
| "in_order start fin t ((ts, k, win) # cs) \<longleftrightarrow>
     t \<le> start ts \<and> start ts \<le> fin ts \<and> in_order start fin (fin ts) cs"

text \<open>
  The charges of one key happen one after the other; what other keys do meanwhile may overlap
  with them in any way.
\<close>

fun key_order :: "('t \<Rightarrow> int) \<Rightarrow> ('t \<Rightarrow> int) \<Rightarrow> string \<Rightarrow> int \<Rightarrow> 't charge list \<Rightarrow> bool" where
  "key_order start fin k t [] \<longleftrightarrow> True"
| "key_order start fin k t ((ts, k', win) # cs) \<longleftrightarrow>
     (if k' = k then t \<le> start ts \<and> start ts \<le> fin ts \<and> key_order start fin k (fin ts) cs
      else key_order start fin k t cs)"

lemma in_order_key_order: "in_order start fin t cs \<Longrightarrow> t0 \<le> t \<Longrightarrow> key_order start fin k t0 cs"
proof (induction cs arbitrary: t t0)
  case (Cons c cs)
  obtain ts k' win where c: "c = (ts, k', win)" by (cases c)
  from Cons.prems c have "t0 \<le> start ts" "start ts \<le> fin ts" "in_order start fin (fin ts) cs" by simp_all
  then show ?case
    using Cons.IH [of "fin ts" "fin ts"] Cons.IH [of "fin ts" t0] c by simp
qed simp

text \<open>Consecutive counts are within the limit up to the limit, and not beyond.\<close>

lemma admitted_counts:
  assumes "counts_of k cs rs = [1..<Suc n]"
  shows "map (admitted nm w lim) (usages_of k cs rs) =
    replicate (min (unat lim) n) True @ replicate (n - unat lim) False"
proof -
  let ?us = "usages_of k cs rs"
  have "map (admitted nm w lim) ?us = map (\<lambda>c. 0 < c \<and> c \<le> unat lim) (map (\<lambda>u. unat (used u)) ?us)"
    by (simp add: admitted_iff comp_def)
  also have "map (\<lambda>u. unat (used u)) ?us = [1..<Suc n]"
    using assms by (simp add: counts_of_def)
  also have "map (\<lambda>c. 0 < c \<and> c \<le> unat lim) [1..<Suc n] =
    replicate (min (unat lim) n) True @ replicate (n - unat lim) False"
    by (rule nth_equalityI) (auto simp: nth_append nth_upt simp del: upt_Suc)
  finally show ?thesis .
qed

section \<open>The interface\<close>

text \<open>
  \<open>live s t k\<close> is the window of key \<open>k\<close> that is open at time \<open>t\<close>: its usage and its end.
  \<open>opens t win\<close> is the end of a window opened at \<open>t\<close>, if the store can represent it, and
  \<open>left ts e\<close> the remaining time reported for a window that ends at \<open>e\<close>.  The clock readings
  of an increment give the instant \<open>start\<close> at which it decides and the instant \<open>fin\<close> at which
  its write is visible.
\<close>

locale fixed_window_store =
  fixes increment :: "('s, 't) increment_fun"
    and valid :: "'t \<Rightarrow> Duration \<Rightarrow> bool"
    and start :: "'t \<Rightarrow> int"
    and fin :: "'t \<Rightarrow> int"
    and live :: "'s \<Rightarrow> int \<Rightarrow> string \<Rightarrow> (nat \<times> int) option"
    and opens :: "int \<Rightarrow> Duration \<Rightarrow> int option"
    and left :: "'t \<Rightarrow> int \<Rightarrow> Duration"
    and cap :: nat
    and invar :: "'s \<Rightarrow> bool"
  assumes valid_times: "valid ts win \<Longrightarrow> start ts \<le> fin ts"
    and live_open: "invar s \<Longrightarrow> live s t k = Some (n, e) \<Longrightarrow> 0 < n \<and> t < e"
    and live_ages: "invar s \<Longrightarrow> live s t k = Some (n, e) \<Longrightarrow> t \<le> t' \<Longrightarrow>
          live s t' k = (if t' < e then Some (n, e) else None)"
    and absent_stays: "invar s \<Longrightarrow> live s t k = None \<Longrightarrow> t \<le> t' \<Longrightarrow> live s t' k = None"
    and increment_live: "invar s \<Longrightarrow> valid ts win \<Longrightarrow> live s (start ts) k = Some (n, e) \<Longrightarrow> n < cap \<Longrightarrow>
          \<exists>u s'. increment s ts k win = (Inr u, s') \<and> unat (used u) = Suc n \<and>
            reset_after u = left ts e \<and> invar s' \<and>
            (\<forall>t \<ge> fin ts. live s' t k = (if t < e then Some (Suc n, e) else None))"
    and increment_absent: "invar s \<Longrightarrow> valid ts win \<Longrightarrow> live s (start ts) k = None \<Longrightarrow>
          opens (start ts) win = Some e \<Longrightarrow> start ts < e \<Longrightarrow> 0 < cap \<Longrightarrow>
          \<exists>u s'. increment s ts k win = (Inr u, s') \<and> unat (used u) = 1 \<and>
            reset_after u = left ts e \<and> invar s' \<and>
            (\<forall>t \<ge> fin ts. live s' t k = (if t < e then Some (1, e) else None))"
    and increment_frame: "invar s \<Longrightarrow> valid ts win \<Longrightarrow> increment s ts k win = (r, s') \<Longrightarrow> k' \<noteq> k \<Longrightarrow>
          live s' t k' = live s t k'"
    and increment_invar: "invar s \<Longrightarrow> valid ts win \<Longrightarrow> increment s ts k win = (r, s') \<Longrightarrow> invar s'"
begin

text \<open>
  While the window of \<open>k\<close> is open, the increments of \<open>k\<close> return consecutive counts, whatever
  happens to other keys meanwhile and whatever window lengths the later increments name.
\<close>

lemma counts_while_open:
  assumes "invar s" "live s t k = Some (n, e)" "key_order start fin k t cs"
    and "\<forall>(ts, k', win) \<in> set cs. valid ts win \<and> (k' = k \<longrightarrow> fin ts < e)"
    and "n + charges_on k cs \<le> cap"
    and "run_charges increment s cs = (rs, s')"
  shows "counts_of k cs rs = [Suc n..<Suc n + charges_on k cs]"
  using assms
proof (induction cs arbitrary: s t n rs s')
  case Nil
  then show ?case by simp
next
  case (Cons c cs)
  obtain ts k' win where c: "c = (ts, k', win)" by (cases c)
  obtain r s1 where i: "increment s ts k' win = (r, s1)" by (cases "increment s ts k' win")
  obtain rs1 s2 where run: "run_charges increment s1 cs = (rs1, s2)" by (cases "run_charges increment s1 cs")
  have rs: "rs = r # rs1" using Cons.prems(6) c i run by simp
  have v: "valid ts win" and rest: "\<forall>(ts, k', win) \<in> set cs. valid ts win \<and> (k' = k \<longrightarrow> fin ts < e)"
    using Cons.prems(4) c by auto
  have inv: "invar s1" using increment_invar [OF Cons.prems(1) v i] .
  show ?case
  proof (cases "k' = k")
    case True
    have le: "t \<le> start ts" "start ts \<le> fin ts" "key_order start fin k (fin ts) cs" "fin ts < e"
      using Cons.prems(3,4) c True by auto
    have "live s (start ts) k = Some (n, e)"
      using live_ages [OF Cons.prems(1,2) le(1)] le(2,4) by simp
    moreover have "n < cap" using Cons.prems(5) c True by simp
    ultimately obtain u where u: "r = Inr u" "unat (used u) = Suc n"
      and l: "\<forall>t \<ge> fin ts. live s1 t k = (if t < e then Some (Suc n, e) else None)"
      using increment_live [OF Cons.prems(1) v] i True by (metis prod.inject)
    have "live s1 (fin ts) k = Some (Suc n, e)" using l le(4) by simp
    from Cons.IH [OF inv this le(3) rest _ run] Cons.prems(5) c True
    have "counts_of k cs rs1 = [Suc (Suc n)..<Suc (Suc n) + charges_on k cs]" by simp
    with u rs c True show ?thesis by (simp add: upt_conv_Cons)
  next
    case False
    have "live s1 t k = Some (n, e)"
      using increment_frame [OF Cons.prems(1) v i] False Cons.prems(2) by metis
    moreover have "key_order start fin k t cs" using Cons.prems(3) c False by simp
    ultimately have "counts_of k cs rs1 = [Suc n..<Suc n + charges_on k cs]"
      using Cons.IH [OF inv _ _ rest _ run] Cons.prems(5) c False by simp
    with c False rs show ?thesis by (simp split: sum.split)
  qed
qed

text \<open>The first increment of a key without an open window opens one and returns count one.\<close>

lemma counts_in_new_window:
  assumes "invar s" "live s (start ts) k = None" "opens (start ts) win = Some e" "fin ts < e"
    and "key_order start fin k t ((ts, k, win) # cs)"
    and "valid ts win" "\<forall>(ts, k', win) \<in> set cs. valid ts win \<and> (k' = k \<longrightarrow> fin ts < e)"
    and "Suc (charges_on k cs) \<le> cap"
    and "run_charges increment s ((ts, k, win) # cs) = (rs, s')"
  shows "counts_of k ((ts, k, win) # cs) rs = [1..<Suc (Suc (charges_on k cs))]"
proof -
  have "start ts < e" using valid_times [OF assms(6)] assms(4) by simp
  moreover have "0 < cap" using assms(8) by simp
  ultimately obtain u s1 where i: "increment s ts k win = (Inr u, s1)" "unat (used u) = 1" "invar s1"
    and l: "\<forall>t \<ge> fin ts. live s1 t k = (if t < e then Some (1, e) else None)"
    using increment_absent [OF assms(1,6,2,3)] by metis
  obtain rs1 s2 where run: "run_charges increment s1 cs = (rs1, s2)" by (cases "run_charges increment s1 cs")
  have "live s1 (fin ts) k = Some (1, e)" using l assms(4) by simp
  moreover have "key_order start fin k (fin ts) cs" using assms(5) by simp
  ultimately have "counts_of k cs rs1 = [2..<2 + charges_on k cs]"
    using counts_while_open [OF i(3) _ _ assms(7) _ run] assms(8) by (simp add: numeral_2_eq_2)
  with assms(9) i run show ?thesis by (auto simp: upt_conv_Cons numeral_2_eq_2)
qed

text \<open>
  Of the charges in one window, the first \<open>lim\<close> are within the limit and the others are not.
\<close>

lemma admitted_in_new_window:
  assumes "invar s" "live s (start ts) k = None" "opens (start ts) win = Some e" "fin ts < e"
    and "in_order start fin t ((ts, k, win) # cs)"
    and "valid ts win" "\<forall>(ts, k', win) \<in> set cs. valid ts win \<and> fin ts < e"
    and "Suc (charges_on k cs) \<le> cap"
    and "run_charges increment s ((ts, k, win) # cs) = (rs, s')"
  shows "map (admitted nm w lim) (usages_of k ((ts, k, win) # cs) rs) =
    replicate (min (unat lim) (Suc (charges_on k cs))) True @
    replicate (Suc (charges_on k cs) - unat lim) False"
proof (rule admitted_counts [OF counts_in_new_window [OF assms(1-4) _ assms(6) _ assms(8,9)]])
  show "key_order start fin k t ((ts, k, win) # cs)" by (rule in_order_key_order [OF assms(5) order.refl])
qed (use assms(7) in fastforce)

text \<open>
  The same when other keys are charged first and in between: the first increment of \<open>k\<close> opens
  its window, and all increments of \<open>k\<close> happen before that window ends.
\<close>

lemma counts_of_key_within_window:
  assumes "invar s" "live s t k = None" "key_order start fin k t cs"
    and "\<forall>(ts, k', win) \<in> set cs. valid ts win"
    and "\<forall>(ts, k', win) \<in> set cs. k' = k \<longrightarrow>
      (\<exists>e. opens (start ts) win = Some e \<and> (\<forall>(ts', k'', _) \<in> set cs. k'' = k \<longrightarrow> fin ts' < e))"
    and "charges_on k cs \<le> cap"
    and "run_charges increment s cs = (rs, s')"
  shows "counts_of k cs rs = [1..<Suc (charges_on k cs)]"
  using assms
proof (induction cs arbitrary: s rs s')
  case (Cons c cs)
  obtain ts k' win where c: "c = (ts, k', win)" by (cases c)
  have v: "valid ts win" using Cons.prems(4) c by auto
  show ?case
  proof (cases "k' = k")
    case True
    obtain e where e: "opens (start ts) win = Some e" "fin ts < e" "\<forall>(ts', k'', _) \<in> set cs. k'' = k \<longrightarrow> fin ts' < e"
      using Cons.prems(5) c True by auto
    have "t \<le> start ts" using Cons.prems(3) c True by simp
    then have absent: "live s (start ts) k = None" by (rule absent_stays [OF Cons.prems(1,2)])
    have "\<forall>(ts, k', win) \<in> set cs. valid ts win \<and> (k' = k \<longrightarrow> fin ts < e)"
      using Cons.prems(4) e(3) by fastforce
    then show ?thesis
      using counts_in_new_window [OF Cons.prems(1) absent e(1,2) Cons.prems(3) [unfolded c True] v]
        Cons.prems(6,7) c True by simp
  next
    case False
    obtain r s1 where i: "increment s ts k' win = (r, s1)" by (cases "increment s ts k' win")
    obtain rs1 s2 where run: "run_charges increment s1 cs = (rs1, s2)" by (cases "run_charges increment s1 cs")
    have rs: "rs = r # rs1" using Cons.prems(7) c i run by simp
    have inv: "invar s1" using increment_invar [OF Cons.prems(1) v i] .
    have live: "live s1 t k = None"
      using increment_frame [OF Cons.prems(1) v i] False Cons.prems(2) by metis
    have "counts_of k cs rs1 = [1..<Suc (charges_on k cs)]"
      using Cons.prems(3-6) c False by (intro Cons.IH [OF inv live _ _ _ _ run]) fastforce+
    then show ?thesis using c False rs by (simp split: sum.split)
  qed
qed simp

text \<open>And when all increments happen one after the other.\<close>

lemma counts_within_window:
  assumes "invar s" "live s t k = None" "in_order start fin t cs"
    and "\<forall>(ts, k', win) \<in> set cs. valid ts win"
    and "\<forall>(ts, k', win) \<in> set cs. \<exists>e. opens (start ts) win = Some e \<and> (\<forall>(ts', _) \<in> set cs. fin ts' < e)"
    and "charges_on k cs \<le> cap"
    and "run_charges increment s cs = (rs, s')"
  shows "counts_of k cs rs = [1..<Suc (charges_on k cs)]"
proof (rule counts_of_key_within_window [OF assms(1,2) in_order_key_order [OF assms(3) order.refl] assms(4) _ assms(6,7)])
qed (use assms(5) in fastforce)

text \<open>An expired window is forgotten: the next increment starts again at one.\<close>

lemma expired_window_restarts:
  assumes "invar s" "live s t k = Some (n, e)" "e \<le> start ts" "valid ts win"
    and "opens (start ts) win = Some e'" "start ts < e'" "0 < cap"
  shows "\<exists>u s'. increment s ts k win = (Inr u, s') \<and> unat (used u) = 1 \<and> reset_after u = left ts e'"
proof -
  have "t \<le> start ts" using live_open [OF assms(1,2)] assms(3) by simp
  then have "live s (start ts) k = None" using live_ages [OF assms(1,2)] assms(3) by simp
  from increment_absent [OF assms(1,4) this assms(5-7)] show ?thesis by blast
qed

text \<open>What every single increment guarantees holds of every answer in a sequence of them.\<close>

lemma run_charges_all:
  assumes "invar s" "\<forall>(ts, k, win) \<in> set cs. valid ts win" "run_charges increment s cs = (rs, s')"
    and "\<And>s ts k win r s'. invar s \<Longrightarrow> valid ts win \<Longrightarrow> increment s ts k win = (r, s') \<Longrightarrow> P r"
  shows "invar s' \<and> length rs = length cs \<and> (\<forall>r \<in> set rs. P r)"
  using assms(1-3)
proof (induction cs arbitrary: s rs)
  case (Cons c cs)
  obtain ts k win where c: "c = (ts, k, win)" by (cases c)
  obtain r s1 where i: "increment s ts k win = (r, s1)" by (cases "increment s ts k win")
  obtain rs1 s2 where run: "run_charges increment s1 cs = (rs1, s2)" by (cases "run_charges increment s1 cs")
  have v: "valid ts win" "\<forall>(ts, k, win) \<in> set cs. valid ts win" using Cons.prems(2) c by auto
  have "rs = r # rs1" "s' = s2" using Cons.prems(3) c i run by simp_all
  then show ?case
    using Cons.IH [OF increment_invar [OF Cons.prems(1) v(1) i] v(2)] run
      assms(4) [OF Cons.prems(1) v(1) i] by auto
qed simp

end

section \<open>The answers of one key\<close>

fun results_of :: "string \<Rightarrow> 't charge list \<Rightarrow> 'a list \<Rightarrow> 'a list" where
  "results_of k ((ts, k', win) # cs) (r # rs) =
     (if k' = k then r # results_of k cs rs else results_of k cs rs)"
| "results_of k _ _ = []"

lemma length_usages_le: "length (usages_of k cs rs) \<le> length (results_of k cs rs)"
  by (induction k cs rs rule: usages_of.induct) (auto split: sum.split)

lemma length_results_le: "length (results_of k cs rs) \<le> charges_on k cs"
  by (induction k cs rs rule: results_of.induct) auto

lemma results_of_usages:
  "length (results_of k cs rs) \<le> length (usages_of k cs rs) \<Longrightarrow>
   results_of k cs rs = map Inr (usages_of k cs rs)"
proof (induction cs arbitrary: rs)
  case (Cons c cs)
  obtain ts k' win where c: "c = (ts, k', win)" by (cases c)
  show ?case
  proof (cases rs)
    case rs: (Cons r rs1)
    show ?thesis
    proof (cases r)
      case (Inl e)
      then show ?thesis
        using Cons.prems Cons.IH [of rs1] length_usages_le [of k cs rs1] c rs by (cases "k' = k") simp_all
    next
      case (Inr u)
      then show ?thesis using Cons.prems Cons.IH [of rs1] c rs by (cases "k' = k") simp_all
    qed
  qed simp
qed simp

end
