(* ===== verification/Memory_Store.thy ===== *)
theory Memory_Store
  imports RL_Store
begin

text \<open>
  \<open>src/src/store/memory.rs\<close>: the in-process store over a \<open>moka\<close> cache.

  The cache is not part of the repository; a \<open>cache_api\<close> carries the two things
  \<open>and_try_compute_with\<close> does with it: look a key up before the closure runs, and store what
  \<open>Op::Put\<close> returns with the lifetime the \<open>Expiry\<close> object gives.  \<open>Cache::builder()\<close> sets no
  capacity, so entries leave the cache by expiry only.
\<close>

section \<open>Definitions\<close>

datatype MemoryStoreError = InstantOutOfRange | FailedToCompute

fun memory_error_to_string :: "MemoryStoreError \<Rightarrow> string" where
  "memory_error_to_string InstantOutOfRange = ''instant is out of range''"
| "memory_error_to_string FailedToCompute = ''failed to compute entry''"

definition memory_error_into :: "MemoryStoreError \<Rightarrow> RateLimitError" where
  "memory_error_into err = Store ''memory_store_error'' (memory_error_to_string err)"

record Entry =
  e_used :: u64
  expires_at :: Instant

definition expire_after_create :: "string \<Rightarrow> Entry \<Rightarrow> Instant \<Rightarrow> Duration option" where
  "expire_after_create key entry created_at =
     Some (saturating_duration_since (expires_at entry) created_at)"

definition expire_after_update ::
  "string \<Rightarrow> Entry \<Rightarrow> Instant \<Rightarrow> Duration option \<Rightarrow> Duration option" where
  "expire_after_update key entry updated_at duration_until_expiry =
     Some (saturating_duration_since (expires_at entry) updated_at)"

text \<open>The \<open>Expiry\<close> object: the callbacks the cache asks for the lifetime of what it stores.\<close>

record expiry =
  after_create :: "string \<Rightarrow> Entry \<Rightarrow> Instant \<Rightarrow> Duration option"
  after_update :: "string \<Rightarrow> Entry \<Rightarrow> Instant \<Rightarrow> Duration option \<Rightarrow> Duration option"

definition EntryExpiry :: expiry where
  "EntryExpiry = \<lparr>after_create = expire_after_create, after_update = expire_after_update\<rparr>"

text \<open>
  The cache: \<open>ca_new x\<close> is an empty cache built with the expiry object \<open>x\<close>, \<open>ca_expiry c\<close> the
  object a cache was built with; \<open>ca_get c t k\<close> is the entry the closure receives when the key
  is looked up at \<open>t\<close>; \<open>ca_put c t k e\<close> stores \<open>e\<close> at \<open>t\<close> and gives the entry of the
  \<open>CompResult\<close>.
\<close>

record 'c cache_api =
  ca_new :: "expiry \<Rightarrow> 'c"
  ca_expiry :: "'c \<Rightarrow> expiry"
  ca_get :: "'c \<Rightarrow> Instant \<Rightarrow> string \<Rightarrow> Entry option"
  ca_put :: "'c \<Rightarrow> Instant \<Rightarrow> string \<Rightarrow> Entry \<Rightarrow> Entry option \<times> 'c"

definition memory_store_new :: "'c cache_api \<Rightarrow> 'c" where
  "memory_store_new cache = ca_new cache EntryExpiry"

text \<open>
  The readings of the clock during one increment: the cache's when it looks the key up, the
  closure's \<open>Instant::now()\<close>, the cache's when it stores the entry, and the final
  \<open>Instant::now()\<close>.
\<close>

record op_times =
  looked_up_at :: Instant
  now_in_closure :: Instant
  stored_at :: Instant
  now_at_end :: Instant

text \<open>The closure of \<open>and_try_compute_with\<close>: the entry to put.\<close>

definition compute_entry :: "Instant \<Rightarrow> Duration \<Rightarrow> Entry option \<Rightarrow> (MemoryStoreError, Entry) result" where
  "compute_entry now win found =
     (case (case found of
              Some entry \<Rightarrow> Inr entry
            | None \<Rightarrow>
                (case checked_add now win of
                   None \<Rightarrow> Inl InstantOutOfRange
                 | Some expiry \<Rightarrow> Inr \<lparr>e_used = 0, expires_at = expiry\<rparr>)) of
        Inl err \<Rightarrow> Inl err
      | Inr entry \<Rightarrow>
          (case (if now \<ge> expires_at entry
                 then (case checked_add now win of
                         None \<Rightarrow> Inl InstantOutOfRange
                       | Some expiry \<Rightarrow> Inr (entry\<lparr>e_used := 0, expires_at := expiry\<rparr>))
                 else Inr entry) of
             Inl err \<Rightarrow> Inl err
           | Inr entry' \<Rightarrow> Inr (entry'\<lparr>e_used := saturating_add (e_used entry') 1\<rparr>)))"

definition increment_usage ::
  "'c cache_api \<Rightarrow> 'c \<Rightarrow> op_times \<Rightarrow> string \<Rightarrow> Duration \<Rightarrow> (MemoryStoreError, Usage) result \<times> 'c" where
  "increment_usage cache c ts key win =
     (case compute_entry (now_in_closure ts) win (ca_get cache c (looked_up_at ts) key) of
        Inl err \<Rightarrow> (Inl err, c)
      | Inr entry \<Rightarrow>
          (case ca_put cache c (stored_at ts) key entry of
             (None, c') \<Rightarrow> (Inl FailedToCompute, c')
           | (Some e, c') \<Rightarrow>
               (Inr \<lparr>used = e_used e,
                     reset_after = saturating_duration_since (expires_at e) (now_at_end ts)\<rparr>, c')))"

text \<open>\<open>Store::increment\<close> for \<open>MemoryStore\<close>: the error is converted, the future is ready at once.\<close>

definition memory_increment :: "'c cache_api \<Rightarrow> ('c, op_times) increment_fun" where
  "memory_increment cache c ts key win =
     (case increment_usage cache c ts key win of
        (Inl err, c') \<Rightarrow> (Inl (memory_error_into err), c')
      | (Inr u, c') \<Rightarrow> (Inr u, c'))"

section \<open>What the cache documents\<close>

definition valid_times :: "op_times \<Rightarrow> bool" where
  "valid_times ts \<longleftrightarrow> instant_range (looked_up_at ts) \<and> instant_range (now_at_end ts) \<and>
     looked_up_at ts \<le> now_in_closure ts \<and> now_in_closure ts \<le> stored_at ts \<and>
     stored_at ts \<le> now_at_end ts"

text \<open>
  Documented behaviour: a new cache is empty; an entry does not change or appear by itself, and
  past its lifetime it may be gone or not yet removed; a stored entry is the one returned and
  the only one found under its key from then on, it is found until the lifetime has passed that
  one of the callbacks gave when it was stored (for ever when that is \<open>None\<close>), and no other key
  is affected.
\<close>

definition lifetime_of :: "expiry \<Rightarrow> string \<Rightarrow> Entry \<Rightarrow> Instant \<Rightarrow> Duration option \<Rightarrow> bool" where
  "lifetime_of x k e t d \<longleftrightarrow> d = after_create x k e t \<or> (\<exists>r. d = after_update x k e t r)"

definition within :: "Instant \<Rightarrow> Instant \<Rightarrow> Duration option \<Rightarrow> bool" where
  "within t' t d \<longleftrightarrow>
     (case d of None \<Rightarrow> True | Some life \<Rightarrow> instant_nanos t' < instant_nanos t + int (dur_nanos life))"

definition cache_api_ok :: "'c cache_api \<Rightarrow> bool" where
  "cache_api_ok cache \<longleftrightarrow>
     (\<forall>x. ca_expiry cache (ca_new cache x) = x) \<and>
     (\<forall>x t k. ca_get cache (ca_new cache x) t k = None) \<and>
     (\<forall>c t t' k. t \<le> t' \<longrightarrow> ca_get cache c t' k = None \<or> ca_get cache c t' k = ca_get cache c t k) \<and>
     (\<forall>c t k e. fst (ca_put cache c t k e) = Some e) \<and>
     (\<forall>c t k e. ca_expiry cache (snd (ca_put cache c t k e)) = ca_expiry cache c) \<and>
     (\<forall>c t k e t'. ca_get cache (snd (ca_put cache c t k e)) t' k \<in> {None, Some e}) \<and>
     (\<forall>c t k e. \<exists>d. lifetime_of (ca_expiry cache c) k e t d \<and>
        (\<forall>t'. within t' t d \<longrightarrow> ca_get cache (snd (ca_put cache c t k e)) t' k = Some e)) \<and>
     (\<forall>c t k e t' k'. k' \<noteq> k \<longrightarrow>
        ca_get cache (snd (ca_put cache c t k e)) t' k' = ca_get cache c t' k')"

text \<open>
  The window of a key that is open at a time, and the invariant of the cache's contents: what it
  holds was counted at least once and is found until its window ends.
\<close>

definition memory_live :: "'c cache_api \<Rightarrow> 'c \<Rightarrow> int \<Rightarrow> string \<Rightarrow> (nat \<times> int) option" where
  "memory_live cache c t k =
     (case ca_get cache c (Instant t) k of
        None \<Rightarrow> None
      | Some e \<Rightarrow> if t < instant_nanos (expires_at e)
                 then Some (unat (e_used e), instant_nanos (expires_at e)) else None)"

definition memory_invar :: "'c cache_api \<Rightarrow> 'c \<Rightarrow> bool" where
  "memory_invar cache c \<longleftrightarrow> ca_expiry cache c = EntryExpiry \<and>
     (\<forall>t k e. ca_get cache c t k = Some e \<longrightarrow>
        0 < unat (e_used e) \<and> instant_range (expires_at e) \<and>
        (\<forall>t'. t \<le> t' \<longrightarrow> t' < expires_at e \<longrightarrow> ca_get cache c t' k = Some e))"

definition memory_opens :: "int \<Rightarrow> Duration \<Rightarrow> int option" where
  "memory_opens t win = map_option instant_nanos (checked_add (Instant t) win)"

definition memory_left :: "op_times \<Rightarrow> int \<Rightarrow> Duration" where
  "memory_left ts e = saturating_duration_since (Instant e) (now_at_end ts)"

definition memory_start :: "op_times \<Rightarrow> int" where
  "memory_start ts = instant_nanos (now_in_closure ts)"

definition memory_fin :: "op_times \<Rightarrow> int" where
  "memory_fin ts = instant_nanos (stored_at ts)"

section \<open>The closure\<close>

lemma compute_entry_open:
  "now < expires_at e \<Longrightarrow>
   compute_entry now win (Some e) = Inr (e\<lparr>e_used := saturating_add (e_used e) 1\<rparr>)"
  by (auto simp: compute_entry_def)

lemma compute_entry_fresh:
  assumes "case found of None \<Rightarrow> True | Some e \<Rightarrow> expires_at e \<le> now"
  shows "compute_entry now win found =
    (case checked_add now win of
       None \<Rightarrow> Inl InstantOutOfRange
     | Some expiry \<Rightarrow> Inr \<lparr>e_used = 1, expires_at = expiry\<rparr>)"
  using assms
  by (auto simp: compute_entry_def saturating_add_def split: option.splits sum.splits)

section \<open>The store over a cache that keeps its laws\<close>

locale expiring_cache =
  fixes cache :: "'c cache_api"
  assumes cache_ok: "cache_api_ok cache"
begin

lemma expiry_new: "ca_expiry cache (ca_new cache x) = x"
  and get_new: "ca_get cache (ca_new cache x) t k = None"
  and fst_put: "fst (ca_put cache c t k e) = Some e"
  and expiry_put: "ca_expiry cache (snd (ca_put cache c t k e)) = ca_expiry cache c"
  and get_put: "ca_get cache (snd (ca_put cache c t k e)) t' k \<in> {None, Some e}"
  and get_put_other: "k' \<noteq> k \<Longrightarrow>
    ca_get cache (snd (ca_put cache c t k e)) t' k' = ca_get cache c t' k'"
  using cache_ok unfolding cache_api_ok_def by (simp_all only: simp_thms)

lemma get_earlier:
  "ca_get cache c t' k = Some e \<Longrightarrow> t \<le> t' \<Longrightarrow> ca_get cache c t k = Some e"
  using cache_ok unfolding cache_api_ok_def by (metis option.distinct(1))

lemma get_put_within:
  "\<exists>d. lifetime_of (ca_expiry cache c) k e t d \<and>
     (\<forall>t'. within t' t d \<longrightarrow> ca_get cache (snd (ca_put cache c t k e)) t' k = Some e)"
  using cache_ok unfolding cache_api_ok_def by blast

text \<open>Both callbacks give the time to the end of the entry's window, so a stored entry stays for it.\<close>

lemma get_put_until_expiry:
  assumes "memory_invar cache c" "instant_range (expires_at e)" "instant_range t" "t' < expires_at e"
  shows "ca_get cache (snd (ca_put cache c t k e)) t' k = Some e"
proof -
  obtain d where d: "lifetime_of (ca_expiry cache c) k e t d"
    and found: "\<And>t'. within t' t d \<Longrightarrow> ca_get cache (snd (ca_put cache c t k e)) t' k = Some e"
    using get_put_within by blast
  have "d = Some (saturating_duration_since (expires_at e) t)"
    using d assms(1)
    by (auto simp: memory_invar_def lifetime_of_def EntryExpiry_def
        expire_after_create_def expire_after_update_def)
  then have "within t' t d"
    using assms(2-4) by (auto simp: within_def dur_nanos_saturating_since less_Instant_def)
  then show ?thesis by (rule found)
qed

lemma invar_new: "memory_invar cache (memory_store_new cache)"
  by (simp add: memory_invar_def memory_store_new_def expiry_new get_new)

lemma invar_put:
  assumes inv: "memory_invar cache c" and e: "0 < unat (e_used e)" "instant_range (expires_at e)"
    and t: "instant_range t"
  shows "memory_invar cache (snd (ca_put cache c t k e))"
  unfolding memory_invar_def
proof (intro conjI allI impI)
  show "ca_expiry cache (snd (ca_put cache c t k e)) = EntryExpiry"
    using inv by (simp add: expiry_put memory_invar_def)
next
  fix t1 k1 e1
  assume get: "ca_get cache (snd (ca_put cache c t k e)) t1 k1 = Some e1"
  have *: "0 < unat (e_used e1) \<and> instant_range (expires_at e1) \<and>
     (\<forall>t'. t1 \<le> t' \<longrightarrow> t' < expires_at e1 \<longrightarrow>
        ca_get cache (snd (ca_put cache c t k e)) t' k1 = Some e1)"
  proof (cases "k1 = k")
    case True
    then have "e1 = e" using get get_put [of c t k e t1] by simp
    then show ?thesis using True e get_put_until_expiry [OF inv e(2) t] by simp
  next
    case False
    then show ?thesis using inv get unfolding memory_invar_def get_put_other [OF False] by blast
  qed
  show "0 < unat (e_used e1)" and "instant_range (expires_at e1)" using * by blast+
  show "ca_get cache (snd (ca_put cache c t k e)) t' k1 = Some e1"
    if "t1 \<le> t'" "t' < expires_at e1" for t' using * that by blast
qed

lemma live_put_other:
  "k' \<noteq> k \<Longrightarrow> memory_live cache (snd (ca_put cache c t k e)) t' k' = memory_live cache c t' k'"
  by (simp add: memory_live_def get_put_other)

lemma live_put:
  assumes "memory_invar cache c" "instant_range (expires_at e)" "instant_range t"
  shows "memory_live cache (snd (ca_put cache c t k e)) t' k =
    (if t' < instant_nanos (expires_at e)
     then Some (unat (e_used e), instant_nanos (expires_at e)) else None)"
proof (cases "t' < instant_nanos (expires_at e)")
  case True
  then have "ca_get cache (snd (ca_put cache c t k e)) (Instant t') k = Some e"
    using get_put_until_expiry [OF assms] by (simp add: less_Instant_def)
  then show ?thesis using True by (simp add: memory_live_def)
next
  case False
  then show ?thesis
    using get_put [of c t k e "Instant t'"] by (auto simp: memory_live_def)
qed

end

context expiring_cache
begin

lemma increment_put:
  assumes "compute_entry (now_in_closure ts) win (ca_get cache c (looked_up_at ts) key) = Inr e"
  shows "memory_increment cache c ts key win =
    (Inr \<lparr>used = e_used e, reset_after = saturating_duration_since (expires_at e) (now_at_end ts)\<rparr>,
     snd (ca_put cache c (stored_at ts) key e))"
proof -
  obtain c' where "ca_put cache c (stored_at ts) key e = (Some e, c')"
    using fst_put [of c "stored_at ts" key e] by (cases "ca_put cache c (stored_at ts) key e") auto
  then show ?thesis using assms by (simp add: memory_increment_def increment_usage_def)
qed

lemma valid_ranges:
  assumes "valid_times ts"
  shows "instant_range (now_in_closure ts)" "instant_range (stored_at ts)"
    "looked_up_at ts \<le> now_in_closure ts"
  using assms by (auto simp: valid_times_def instant_range_def less_eq_Instant_def)

lemma invar_entry:
  assumes "memory_invar cache c" "ca_get cache c t k = Some e"
  shows "0 < unat (e_used e)" "instant_range (expires_at e)"
    "t \<le> t' \<Longrightarrow> t' < expires_at e \<Longrightarrow> ca_get cache c t' k = Some e"
  using assms unfolding memory_invar_def by blast+

text \<open>A window that is open when the closure runs is what the lookup before it found.\<close>

lemma looked_up_open:
  assumes "valid_times ts" "memory_live cache c (memory_start ts) k = Some (n, e)"
  obtains entry where "ca_get cache c (looked_up_at ts) k = Some entry"
    "unat (e_used entry) = n" "instant_nanos (expires_at entry) = e" "now_in_closure ts < expires_at entry"
proof -
  from assms(2) obtain entry where "ca_get cache c (now_in_closure ts) k = Some entry"
    and "unat (e_used entry) = n" "instant_nanos (expires_at entry) = e"
      "now_in_closure ts < expires_at entry"
    by (auto simp: memory_live_def memory_start_def less_Instant_def split: option.splits if_splits)
  moreover have "ca_get cache c (looked_up_at ts) k = Some entry"
    using get_earlier calculation(1) valid_ranges(3) [OF assms(1)] by blast
  ultimately show thesis using that by blast
qed

text \<open>Without an open window the lookup found nothing, or an entry whose window has ended.\<close>

lemma looked_up_absent:
  assumes "memory_invar cache c" "valid_times ts" "memory_live cache c (memory_start ts) k = None"
  shows "case ca_get cache c (looked_up_at ts) k of
           None \<Rightarrow> True | Some e \<Rightarrow> expires_at e \<le> now_in_closure ts"
proof (cases "ca_get cache c (looked_up_at ts) k")
  case (Some e)
  have "\<not> now_in_closure ts < expires_at e"
  proof
    assume lt: "now_in_closure ts < expires_at e"
    then have "ca_get cache c (now_in_closure ts) k = Some e"
      using invar_entry(3) [OF assms(1) Some valid_ranges(3) [OF assms(2)]] by blast
    then show False using assms(3) lt by (simp add: memory_live_def memory_start_def less_Instant_def)
  qed
  then show ?thesis using Some by simp
qed simp

lemma increment_open:
  assumes "memory_invar cache c" "valid_times ts" "memory_live cache c (memory_start ts) k = Some (n, e)"
  shows "\<exists>u c'. memory_increment cache c ts k win = (Inr u, c') \<and> unat (used u) = min (Suc n) (2 ^ 64 - 1) \<and>
    reset_after u = memory_left ts e \<and> memory_invar cache c' \<and>
    (\<forall>t \<ge> memory_fin ts. memory_live cache c' t k = (if t < e then Some (min (Suc n) (2 ^ 64 - 1), e) else None))"
proof -
  obtain entry where entry: "ca_get cache c (looked_up_at ts) k = Some entry"
    "unat (e_used entry) = n" "instant_nanos (expires_at entry) = e" "now_in_closure ts < expires_at entry"
    using looked_up_open [OF assms(2,3)] by blast
  define entry' where "entry' = entry\<lparr>e_used := saturating_add (e_used entry) 1\<rparr>"
  have used': "unat (e_used entry') = min (Suc n) (2 ^ 64 - 1)" and exp': "expires_at entry' = Instant e"
    using entry by (auto simp: entry'_def unat_saturating_add intro: Instant.expand)
  have range: "instant_range (expires_at entry')"
    using invar_entry(2) [OF assms(1) entry(1)] by (simp add: entry'_def)
  have put: "memory_increment cache c ts k win =
      (Inr \<lparr>used = e_used entry', reset_after = memory_left ts e\<rparr>,
       snd (ca_put cache c (stored_at ts) k entry'))"
    using increment_put [of ts win c k entry'] compute_entry_open [OF entry(4)] entry(1) exp'
    by (simp add: entry'_def [symmetric] memory_left_def)
  have "0 < unat (e_used entry')" using used' by simp
  note inv' = invar_put [OF assms(1) this range valid_ranges(2) [OF assms(2)], of k]
  show ?thesis
    using put used' inv' live_put [OF assms(1) range valid_ranges(2) [OF assms(2)], of k] exp'
    by simp
qed

lemma increment_fresh:
  assumes "memory_invar cache c" "valid_times ts" "memory_live cache c (memory_start ts) k = None"
    and "memory_opens (memory_start ts) win = Some e"
  shows "\<exists>u c'. memory_increment cache c ts k win = (Inr u, c') \<and> unat (used u) = 1 \<and>
    reset_after u = memory_left ts e \<and> memory_invar cache c' \<and>
    (\<forall>t \<ge> memory_fin ts. memory_live cache c' t k = (if t < e then Some (1, e) else None))"
proof -
  obtain x where x: "checked_add (now_in_closure ts) win = Some x" "instant_nanos x = e"
    using assms(4) by (auto simp: memory_opens_def memory_start_def)
  have x_e: "x = Instant e" using x(2) by (auto intro: Instant.expand)
  define entry' where "entry' = \<lparr>e_used = 1, expires_at = x\<rparr>"
  have "compute_entry (now_in_closure ts) win (ca_get cache c (looked_up_at ts) k) = Inr entry'"
    using compute_entry_fresh [OF looked_up_absent [OF assms(1-3)]] x(1) by (simp add: entry'_def)
  from increment_put [OF this]
  have put: "memory_increment cache c ts k win =
      (Inr \<lparr>used = 1, reset_after = memory_left ts e\<rparr>,
       snd (ca_put cache c (stored_at ts) k entry'))"
    by (simp add: entry'_def memory_left_def x_e)
  have range: "instant_range (expires_at entry')"
    using checked_add_range [OF valid_ranges(1) [OF assms(2)] x(1)] by (simp add: entry'_def)
  have "0 < unat (e_used entry')" by (simp add: entry'_def)
  note inv' = invar_put [OF assms(1) this range valid_ranges(2) [OF assms(2)], of k]
  show ?thesis
    using put inv' live_put [OF assms(1) range valid_ranges(2) [OF assms(2)], of k]
    by (simp add: entry'_def x_e)
qed

lemma increment_result:
  assumes "memory_increment cache c ts k win = (r, c')"
  shows "r = Inl (memory_error_into InstantOutOfRange) \<and> c' = c \<or>
    (\<exists>e. compute_entry (now_in_closure ts) win (ca_get cache c (looked_up_at ts) k) = Inr e \<and>
       c' = snd (ca_put cache c (stored_at ts) k e))"
proof (cases "compute_entry (now_in_closure ts) win (ca_get cache c (looked_up_at ts) k)")
  case (Inl err)
  then have "err = InstantOutOfRange"
    by (auto simp: compute_entry_def split: option.splits sum.splits if_splits)
  then show ?thesis using Inl assms by (simp add: memory_increment_def increment_usage_def)
next
  case (Inr e)
  then show ?thesis using increment_put [OF Inr] assms by simp
qed

end

lemma compute_entry_wf:
  assumes "compute_entry now win found = Inr e" "instant_range now"
    and "\<And>old. found = Some old \<Longrightarrow> instant_range (expires_at old)"
  shows "0 < unat (e_used e)" "instant_range (expires_at e)"
proof -
  have e: "\<exists>old. e = old\<lparr>e_used := saturating_add (e_used old) 1\<rparr> \<and> instant_range (expires_at old)"
    using assms checked_add_range [OF assms(2)]
    by (fastforce simp: compute_entry_def split: option.splits sum.splits if_splits)
  then show "0 < unat (e_used e)" "instant_range (expires_at e)"
    by (auto simp: unat_saturating_add)
qed

context expiring_cache
begin

lemma increment_keeps_invar:
  assumes "memory_invar cache c" "valid_times ts" "memory_increment cache c ts k win = (r, c')"
  shows "memory_invar cache c'"
  using increment_result [OF assms(3)]
proof (elim disjE exE conjE)
  fix e
  assume e: "compute_entry (now_in_closure ts) win (ca_get cache c (looked_up_at ts) k) = Inr e"
    and c': "c' = snd (ca_put cache c (stored_at ts) k e)"
  have "0 < unat (e_used e)" "instant_range (expires_at e)"
    using compute_entry_wf [OF e valid_ranges(1) [OF assms(2)]] invar_entry(2) [OF assms(1)] by blast+
  then show ?thesis using invar_put [OF assms(1) _ _ valid_ranges(2) [OF assms(2)]] c' by simp
qed (use assms in simp)

lemma increment_other_key:
  assumes "memory_increment cache c ts k win = (r, c')" "k' \<noteq> k"
  shows "memory_live cache c' t k' = memory_live cache c t k'"
  using increment_result [OF assms(1)] live_put_other [OF assms(2)] by auto

end

text \<open>The in-memory store keeps the contract of a fixed-window store.\<close>

sublocale expiring_cache \<subseteq>
  mem: fixed_window_store "memory_increment cache" "\<lambda>ts win. valid_times ts" memory_start memory_fin
    "memory_live cache" memory_opens memory_left "2 ^ 64 - 1" "memory_invar cache"
proof unfold_locales
  show "memory_start ts \<le> memory_fin ts" if "valid_times ts" for ts
    using that by (simp add: valid_times_def memory_start_def memory_fin_def less_eq_Instant_def)
next
  fix s t k n e
  assume inv: "memory_invar cache s" and live: "memory_live cache s t k = Some (n, e)"
  obtain x where x: "ca_get cache s (Instant t) k = Some x" "n = unat (e_used x)"
    "e = instant_nanos (expires_at x)" "t < e"
    using live by (auto simp: memory_live_def split: option.splits if_splits)
  show "0 < n \<and> t < e" using x invar_entry(1) [OF inv x(1)] by simp
  fix t'
  assume "t \<le> t'"
  then have "ca_get cache s (Instant t') k = Some x" if "t' < e"
    using invar_entry(3) [OF inv x(1)] that x(3) by (simp add: less_eq_Instant_def less_Instant_def)
  moreover have "x' = x" if "ca_get cache s (Instant t') k = Some x'" for x'
    using get_earlier [OF that] \<open>t \<le> t'\<close> x(1) by (simp add: less_eq_Instant_def)
  ultimately show "memory_live cache s t' k = (if t' < e then Some (n, e) else None)"
    using x(2,3) by (cases "ca_get cache s (Instant t') k") (auto simp: memory_live_def)
next
  fix s t k t'
  assume absent: "memory_live cache s t k = None" "t \<le> (t' :: int)"
  show "memory_live cache s t' k = None"
  proof (cases "ca_get cache s (Instant t') k")
    case None
    then show ?thesis by (simp add: memory_live_def)
  next
    case (Some x)
    have "ca_get cache s (Instant t) k = Some x"
      using get_earlier [OF Some] absent(2) by (simp add: less_eq_Instant_def)
    then have "\<not> t < instant_nanos (expires_at x)"
      using absent(1) by (auto simp: memory_live_def)
    then show ?thesis using absent(2) by (simp add: memory_live_def Some)
  qed
next
  fix s ts k n e win
  assume open_window: "memory_invar cache s" "valid_times ts"
    "memory_live cache s (memory_start ts) k = Some (n, e)" "n < 2 ^ 64 - 1"
  have "min (Suc n) (2 ^ 64 - 1) = Suc n" using open_window(4) by simp
  then show "\<exists>u s'. memory_increment cache s ts k win = (Inr u, s') \<and> unat (used u) = Suc n \<and>
      reset_after u = memory_left ts e \<and> memory_invar cache s' \<and>
      (\<forall>t \<ge> memory_fin ts. memory_live cache s' t k = (if t < e then Some (Suc n, e) else None))"
    using increment_open [OF open_window(1-3), of win] by (simp only:)
next
  fix s ts k win e
  assume "memory_invar cache s" "valid_times ts" "memory_live cache s (memory_start ts) k = None"
    "memory_opens (memory_start ts) win = Some e"
  then show "\<exists>u s'. memory_increment cache s ts k win = (Inr u, s') \<and> unat (used u) = 1 \<and>
      reset_after u = memory_left ts e \<and> memory_invar cache s' \<and>
      (\<forall>t \<ge> memory_fin ts. memory_live cache s' t k = (if t < e then Some (1, e) else None))"
    by (rule increment_fresh)
qed (use increment_other_key increment_keeps_invar in blast)+

context expiring_cache
begin

text \<open>Every increment reports the clock error or a well-formed usage.\<close>

lemma usage_wf:
  assumes "memory_invar cache s" "valid_times ts" "memory_increment cache s ts k win = (r, s')"
  shows "r = Inl (memory_error_into InstantOutOfRange) \<or> (\<exists>u. r = Inr u \<and> wf_usage u)"
  using increment_result [OF assms(3)]
proof (elim disjE exE conjE)
  fix e
  assume e: "compute_entry (now_in_closure ts) win (ca_get cache s (looked_up_at ts) k) = Inr e"
  note wf = compute_entry_wf [OF e valid_ranges(1) [OF assms(2)]] 
  have "0 < unat (e_used e)" "instant_range (expires_at e)"
    using wf invar_entry(2) [OF assms(1)] by blast+
  moreover have "instant_range (now_at_end ts)" using assms(2) by (simp add: valid_times_def)
  ultimately show ?thesis
    using increment_put [OF e] assms(3)
    by (auto simp: wf_usage_def dur_nanos_saturating_since)
qed simp

end

context expiring_cache
begin

lemma contract:
  "fixed_window_store (memory_increment cache) (\<lambda>ts win. valid_times ts) memory_start memory_fin
    (memory_live cache) memory_opens memory_left (2 ^ 64 - 1) (memory_invar cache)"
  by unfold_locales

end

lemma memory_fixed_window:
  assumes "cache_api_ok cache"
  shows "fixed_window_store (memory_increment cache) (\<lambda>ts win. valid_times ts) memory_start memory_fin
    (memory_live cache) memory_opens memory_left (2 ^ 64 - 1) (memory_invar cache)"
proof -
  have "expiring_cache cache" using assms by (rule expiring_cache.intro)
  then show ?thesis by (rule expiring_cache.contract)
qed

section \<open>A cache that keeps the laws\<close>

text \<open>Entries with the instant at which they expire; a lookup skips what has expired.\<close>

definition deadline :: "Instant \<Rightarrow> Duration option \<Rightarrow> Instant option" where
  "deadline t d = map_option (\<lambda>life. Instant (instant_nanos t + int (dur_nanos life))) d"

definition before_deadline :: "Instant \<Rightarrow> Instant option \<Rightarrow> bool" where
  "before_deadline t dl = (case dl of None \<Rightarrow> True | Some d \<Rightarrow> t < d)"

type_synonym map_cache = "expiry \<times> (string \<Rightarrow> (Entry \<times> Instant option) option)"

definition map_cache_api :: "map_cache cache_api" where
  "map_cache_api =
     \<lparr>ca_new = (\<lambda>x. (x, \<lambda>_. None)),
      ca_expiry = fst,
      ca_get = (\<lambda>c t k. case snd c k of
                  None \<Rightarrow> None
                | Some (e, dl) \<Rightarrow> if before_deadline t dl then Some e else None),
      ca_put = (\<lambda>c t k e.
                  (Some e,
                   (fst c, (snd c)
                      (k \<mapsto> (e, deadline t
                         (case snd c k of
                            None \<Rightarrow> after_create (fst c) k e t
                          | Some (old, dl) \<Rightarrow> after_update (fst c) k e t
                              (map_option (\<lambda>d. saturating_duration_since d t) dl)))))))\<rparr>"

lemma before_deadline_within: "within t' t d \<Longrightarrow> before_deadline t' (deadline t d)"
  by (cases d) (simp_all add: within_def before_deadline_def deadline_def less_Instant_def)

lemma before_deadline_mono: "before_deadline t' dl \<Longrightarrow> t \<le> t' \<Longrightarrow> before_deadline t dl"
  by (auto simp: before_deadline_def split: option.splits)

lemma map_cache_api_ok: "cache_api_ok map_cache_api"
  unfolding cache_api_ok_def
proof (intro conjI allI impI)
  fix c :: map_cache and t t' :: Instant and k
  assume "t \<le> t'"
  then show "ca_get map_cache_api c t' k = None \<or> ca_get map_cache_api c t' k = ca_get map_cache_api c t k"
    using before_deadline_mono by (auto simp: map_cache_api_def split: option.splits)
next
  fix c :: map_cache and t k e
  let ?d = "case snd c k of None \<Rightarrow> after_create (fst c) k e t
    | Some (old, dl) \<Rightarrow> after_update (fst c) k e t (map_option (\<lambda>d. saturating_duration_since d t) dl)"
  have "lifetime_of (ca_expiry map_cache_api c) k e t ?d"
    by (auto simp: lifetime_of_def map_cache_api_def split: option.splits)
  moreover have "\<forall>t'. within t' t ?d \<longrightarrow> ca_get map_cache_api (snd (ca_put map_cache_api c t k e)) t' k = Some e"
    using before_deadline_within by (simp add: map_cache_api_def)
  ultimately show "\<exists>d. lifetime_of (ca_expiry map_cache_api c) k e t d \<and>
      (\<forall>t'. within t' t d \<longrightarrow> ca_get map_cache_api (snd (ca_put map_cache_api c t k e)) t' k = Some e)"
    by blast
qed (simp_all add: map_cache_api_def)

interpretation mc: expiring_cache map_cache_api
  by unfold_locales (rule map_cache_api_ok)

section \<open>Properties\<close>

text \<open>
  C14.  One increment of the in-memory store, on every branch.  With an open window it counts
  one more in it, saturating at the largest \<open>u64\<close>, and leaves the end of the window where it
  was, whatever window length the call names.  Without one it opens a window of the given
  length with count one, and when the clock cannot represent the end of that window it fails
  with \<open>InstantOutOfRange\<close> and stores nothing.  The reported reset is the time from the final
  reading of the clock to the end of the window; other keys are not affected.
\<close>

theorem memory_increment_spec:
  assumes "cache_api_ok cache" "memory_invar cache c" "valid_times ts"
    and "memory_increment cache c ts k win = (r, c')"
  shows "memory_invar cache c' \<and>
    (\<forall>t k'. k' \<noteq> k \<longrightarrow> memory_live cache c' t k' = memory_live cache c t k') \<and>
    (case memory_live cache c (memory_start ts) k of
       Some (n, e) \<Rightarrow>
         (\<exists>u. r = Inr u \<and> unat (used u) = min (Suc n) (2 ^ 64 - 1) \<and>
            reset_after u = saturating_duration_since (Instant e) (now_at_end ts)) \<and>
         (\<forall>t \<ge> memory_fin ts. memory_live cache c' t k =
            (if t < e then Some (min (Suc n) (2 ^ 64 - 1), e) else None))
     | None \<Rightarrow>
         (case checked_add (now_in_closure ts) win of
            Some (Instant e) \<Rightarrow>
              r = Inr \<lparr>used = 1, reset_after = saturating_duration_since (Instant e) (now_at_end ts)\<rparr> \<and>
              (\<forall>t \<ge> memory_fin ts. memory_live cache c' t k = (if t < e then Some (1, e) else None))
          | None \<Rightarrow>
              r = Inl (Store ''memory_store_error'' ''instant is out of range'') \<and> c' = c))"
proof -
  have ex: "expiring_cache cache" using assms(1) by (rule expiring_cache.intro)
  note inv = expiring_cache.increment_keeps_invar [OF ex assms(2-4)]
  note frame = expiring_cache.increment_other_key [OF ex assms(4)]
  show ?thesis
  proof (cases "memory_live cache c (memory_start ts) k")
    case None
    note absent = expiring_cache.looked_up_absent [OF ex assms(2,3) None]
    show ?thesis
    proof (cases "checked_add (now_in_closure ts) win")
      case no: None
      then have "r = Inl (memory_error_into InstantOutOfRange)" "c' = c"
        using compute_entry_fresh [OF absent, of win] assms(4)
        by (simp_all add: memory_increment_def increment_usage_def)
      then show ?thesis using None no assms(2) by (simp add: memory_error_into_def)
    next
      case (Some x)
      then have "memory_opens (memory_start ts) win = Some (instant_nanos x)"
        by (simp add: memory_opens_def memory_start_def)
      from expiring_cache.increment_fresh [OF ex assms(2,3) None this]
      show ?thesis using None Some inv frame assms(4)
        by (cases x) (auto simp: memory_left_def u64_eq_iff intro!: Usage.equality)
    qed
  next
    case (Some w)
    obtain n e where w: "w = (n, e)" by (cases w)
    from expiring_cache.increment_open [OF ex assms(2,3) Some [unfolded w], of win]
    show ?thesis using Some w inv frame assms(4) by (auto simp: memory_left_def)
  qed
qed

text \<open>A second of the clock at which all four readings are made.\<close>

definition times_at :: "int \<Rightarrow> op_times" where
  "times_at s = (let t = Instant (s * 1000000000) in
     \<lparr>looked_up_at = t, now_in_closure = t, stored_at = t, now_at_end = t\<rparr>)"

lemmas memory_run_defs =
  memory_increment_def increment_usage_def compute_entry_def map_cache_api_def
  memory_store_new_def times_at_def memory_start_def memory_fin_def memory_live_def
  checked_add_def instant_max_def EntryExpiry_def expire_after_create_def expire_after_update_def
  deadline_def before_deadline_def memory_opens_def saturating_add_def

lemma valid_times_at: "- 9000000000 \<le> s \<Longrightarrow> s \<le> 9000000000 \<Longrightarrow> valid_times (times_at s)"
  by (simp add: valid_times_def times_at_def instant_range_def instant_max_def Let_def)

theorem memory_increment_spec_witness:
  "(case memory_increment map_cache_api (memory_store_new map_cache_api) (times_at 5) ''p:k'' (from_secs 60) of
      (r, c') \<Rightarrow> memory_invar map_cache_api c' \<and>
        r = Inr \<lparr>used = 1, reset_after = saturating_duration_since (Instant 65000000000) (Instant 5000000000)\<rparr> \<and>
        memory_live map_cache_api c' 64000000000 ''p:k'' = Some (1, 65000000000))"
proof -
  obtain r c' where i: "memory_increment map_cache_api (memory_store_new map_cache_api) (times_at 5)
      ''p:k'' (from_secs 60) = (r, c')" by (rule prod.exhaust)
  have absent: "memory_live map_cache_api (memory_store_new map_cache_api) t k = None" for t k
    by (simp add: memory_live_def mc.get_new memory_store_new_def)
  have add: "checked_add (now_in_closure (times_at 5)) (from_secs 60) = Some (Instant 65000000000)"
    by (simp add: checked_add_def times_at_def instant_max_def Let_def)
  have "valid_times (times_at 5)" by (simp add: valid_times_at)
  note spec = memory_increment_spec [OF map_cache_api_ok mc.invar_new this i]
  then have "memory_invar map_cache_api c'"
    "r = Inr \<lparr>used = 1, reset_after = saturating_duration_since (Instant 65000000000) (Instant 5000000000)\<rparr>"
    "memory_live map_cache_api c' 64000000000 ''p:k'' = Some (1, 65000000000)"
    by (simp_all add: absent add) (simp_all add: times_at_def memory_fin_def Let_def)
  then show ?thesis by (simp add: i)
qed

text \<open>
  In one window of the in-memory store exactly the first \<open>lim\<close> requests of a key stay
  within the limit and every later one is over it.  The requests are the one that opens the
  window and any sequence of further increments, of this key and of others in any order and
  with any window lengths, that are done before the window ends.
\<close>

theorem memory_window_admits_limit:
  assumes "cache_api_ok cache" "memory_invar cache c"
    and "memory_live cache c (memory_start ts) k = None"
    and "memory_opens (memory_start ts) win = Some e" "memory_fin ts < e"
    and "in_order memory_start memory_fin t ((ts, k, win) # cs)" "valid_times ts"
    and "\<forall>(ts, k', win) \<in> set cs. valid_times ts \<and> memory_fin ts < e"
    and "Suc (charges_on k cs) \<le> 2 ^ 64 - 1"
    and "run_charges (memory_increment cache) c ((ts, k, win) # cs) = (rs, c')"
  shows "map (admitted nm w lim) (usages_of k ((ts, k, win) # cs) rs) =
    replicate (min (unat lim) (Suc (charges_on k cs))) True @
    replicate (Suc (charges_on k cs) - unat lim) False"
  by (rule fixed_window_store.admitted_in_new_window [OF memory_fixed_window [OF assms(1)] assms(2-10)])

definition sample_charges :: "op_times charge list" where
  "sample_charges =
     [(times_at 1, ''p:other'', from_secs 60), (times_at 2, ''p:k'', from_secs 1),
      (times_at 3, ''p:k'', from_secs 60)]"

theorem memory_window_admits_limit_witness:
  "map (admitted ''p'' (from_secs 60) 2)
     (usages_of ''p:k'' ((times_at 0, ''p:k'', from_secs 60) # sample_charges)
        (fst (run_charges (memory_increment map_cache_api) (memory_store_new map_cache_api)
           ((times_at 0, ''p:k'', from_secs 60) # sample_charges)))) = [True, True, False]"
proof -
  let ?cs = "(times_at 0, ''p:k'', from_secs 60) # sample_charges"
  obtain rs c' where run: "run_charges (memory_increment map_cache_api)
      (memory_store_new map_cache_api) ?cs = (rs, c')" by (rule prod.exhaust)
  have absent: "memory_live map_cache_api (memory_store_new map_cache_api) (memory_start (times_at 0)) ''p:k'' = None"
    by (simp add: memory_live_def mc.get_new memory_store_new_def)
  have opens: "memory_opens (memory_start (times_at 0)) (from_secs 60) = Some 60000000000"
    by (simp add: memory_opens_def memory_start_def checked_add_def times_at_def instant_max_def Let_def)
  have fin: "memory_fin (times_at 0) < 60000000000" by (simp add: memory_fin_def times_at_def Let_def)
  have order: "in_order memory_start memory_fin 0 ?cs"
    by (simp add: sample_charges_def memory_fin_def memory_start_def times_at_def Let_def)
  have valid: "\<forall>(ts, k', win) \<in> set sample_charges. valid_times ts \<and> memory_fin ts < 60000000000"
    by (simp add: sample_charges_def valid_times_at memory_fin_def) (simp add: times_at_def Let_def)
  have on: "charges_on ''p:k'' sample_charges = 2" by (simp add: sample_charges_def)
  then have cap: "Suc (charges_on ''p:k'' sample_charges) \<le> 2 ^ 64 - 1" by simp
  have two: "replicate 2 True = [True, True]" by (simp add: numeral_2_eq_2)
  have v0: "valid_times (times_at 0)" by (simp add: valid_times_at)
  show ?thesis
    using memory_window_admits_limit [OF map_cache_api_ok mc.invar_new absent opens fin order v0 valid cap run,
        of "''p''" "from_secs 60" 2]
    by (simp add: run on two del: usages_of.simps run_charges.simps)
qed

text \<open>
  C32.  Over any sequence of increments with well-ordered clock readings, starting from a new
  in-memory store, the contents stay well formed and every answer is a positive usage or the
  clock error: \<open>FailedToCompute\<close> never occurs, and the policy state can always be built from
  a usage this store returned.
\<close>

theorem memory_reachable_answers:
  assumes "cache_api_ok cache" "\<forall>(ts, k, win) \<in> set cs. valid_times ts"
    and "run_charges (memory_increment cache) (memory_store_new cache) cs = (rs, c)"
  shows "memory_invar cache c \<and> length rs = length cs \<and>
    (\<forall>r \<in> set rs. r = Inl (memory_error_into InstantOutOfRange) \<or>
       (\<exists>u. r = Inr u \<and> (\<forall>nm win lim. \<exists>p. from_usage nm win lim u = Inr p)))"
proof -
  have ex: "expiring_cache cache" using assms(1) by (rule expiring_cache.intro)
  let ?P = "\<lambda>r. r = Inl (memory_error_into InstantOutOfRange) \<or>
       (\<exists>u. r = Inr u \<and> (\<forall>nm win lim. \<exists>p. from_usage nm win lim u = Inr p))"
  have "?P r" if "memory_invar cache s" "valid_times ts" "memory_increment cache s ts k win = (r, s')" for s ts k win r s'
    using expiring_cache.usage_wf [OF ex that] by (auto simp: wf_usage_def from_usage_def)
  with fixed_window_store.run_charges_all [OF memory_fixed_window [OF assms(1)]
      expiring_cache.invar_new [OF ex] assms(2,3), of ?P]
  show ?thesis by blast
qed

theorem memory_reachable_answers_witness:
  "memory_invar map_cache_api
     (snd (run_charges (memory_increment map_cache_api) (memory_store_new map_cache_api) sample_charges))"
proof -
  obtain rs c where run: "run_charges (memory_increment map_cache_api)
      (memory_store_new map_cache_api) sample_charges = (rs, c)" by (rule prod.exhaust)
  have "\<forall>(ts, k, win) \<in> set sample_charges. valid_times ts"
    by (simp add: sample_charges_def valid_times_at)
  from memory_reachable_answers [OF map_cache_api_ok this run] show ?thesis by (simp add: run)
qed

text \<open>
  The reported reset never exceeds the window: for the increment that opens a window of
  length \<open>win\<close> it is at most \<open>win\<close>, less what the call itself took, and for every later
  increment in that window at most the time left when the increment started.
\<close>

theorem memory_reset_within_window:
  assumes "cache_api_ok cache" "memory_invar cache c" "valid_times ts"
    and "memory_increment cache c ts k win = (Inr u, c')"
  shows "case memory_live cache c (memory_start ts) k of
      None \<Rightarrow> int (dur_nanos (reset_after u)) \<le> int (dur_nanos win) \<and>
        (now_at_end ts \<le> Instant (memory_start ts + int (dur_nanos win)) \<longrightarrow>
           int (dur_nanos (reset_after u)) =
             int (dur_nanos win) - (instant_nanos (now_at_end ts) - memory_start ts))
    | Some (n, e) \<Rightarrow> int (dur_nanos (reset_after u)) \<le> e - memory_start ts"
proof -
  have ex: "expiring_cache cache" using assms(1) by (rule expiring_cache.intro)
  have now: "memory_start ts \<le> instant_nanos (now_at_end ts)" and range: "instant_range (now_at_end ts)"
    using assms(3) by (auto simp: valid_times_def memory_start_def less_eq_Instant_def)
  show ?thesis
  proof (cases "memory_live cache c (memory_start ts) k")
    case None
    note absent = compute_entry_fresh [OF expiring_cache.looked_up_absent [OF ex assms(2,3) None], of win]
    obtain x where x: "checked_add (now_in_closure ts) win = Some x"
      using absent assms(4) by (cases "checked_add (now_in_closure ts) win")
        (auto simp: memory_increment_def increment_usage_def)
    have r: "reset_after u = saturating_duration_since x (now_at_end ts)"
      using expiring_cache.increment_put [OF ex, of ts win c k] absent x assms(4) by auto
    have "instant_range x"
      using checked_add_range [OF expiring_cache.valid_ranges(1) [OF ex assms(3)] x] .
    from dur_nanos_saturating_since(1) [OF this range]
    show ?thesis
      using None now checked_add_Some [OF x] by (auto simp: r memory_start_def less_eq_Instant_def)
  next
    case (Some w)
    obtain n e where w: "w = (n, e)" by (cases w)
    note live = Some [unfolded w]
    obtain entry where entry: "ca_get cache c (looked_up_at ts) k = Some entry"
      "instant_nanos (expires_at entry) = e"
      using expiring_cache.looked_up_open [OF ex assms(3) live] by blast
    have "instant_range (expires_at entry)" using expiring_cache.invar_entry(2) [OF ex assms(2) entry(1)] .
    moreover have "expires_at entry = Instant e" using entry(2) by (auto intro: Instant.expand)
    ultimately have "dur_nanos (saturating_duration_since (Instant e) (now_at_end ts)) =
        nat (e - instant_nanos (now_at_end ts))"
      using dur_nanos_saturating_since(1) [OF _ range, of "Instant e"] by simp
    moreover have "reset_after u = saturating_duration_since (Instant e) (now_at_end ts)"
      using expiring_cache.increment_open [OF ex assms(2,3) live, of win] assms(4)
      by (auto simp: memory_left_def)
    moreover have "memory_start ts < e" using live
      by (auto simp: memory_live_def split: option.splits if_splits)
    ultimately show ?thesis using live now by simp
  qed
qed

theorem memory_reset_within_window_witness:
  "\<exists>u c'. memory_increment map_cache_api (memory_store_new map_cache_api) (times_at 5) ''p:k'' (from_secs 60) =
      (Inr u, c') \<and> int (dur_nanos (reset_after u)) = 60000000000"
proof -
  have absent: "memory_live map_cache_api (memory_store_new map_cache_api) (memory_start (times_at 5)) ''p:k'' = None"
    by (simp add: memory_live_def mc.get_new memory_store_new_def)
  have opens: "memory_opens (memory_start (times_at 5)) (from_secs 60) = Some 65000000000"
    by (simp add: memory_opens_def memory_start_def checked_add_def times_at_def instant_max_def Let_def)
  have at: "instant_nanos (now_at_end (times_at 5)) = 5000000000" "memory_start (times_at 5) = 5000000000"
    by (simp_all add: times_at_def memory_start_def Let_def)
  have v: "valid_times (times_at 5)" by (simp add: valid_times_at)
  obtain u c' where i: "memory_increment map_cache_api (memory_store_new map_cache_api) (times_at 5)
      ''p:k'' (from_secs 60) = (Inr u, c')"
    using mc.increment_fresh [OF mc.invar_new v absent opens] by blast
  from memory_reset_within_window [OF map_cache_api_ok mc.invar_new v i, unfolded absent] i show ?thesis
    by (simp add: at less_eq_Instant_def)
qed

end
