(* ===== verification/Redis_Store.thy ===== *)
theory Redis_Store
  imports RL_Store RL_Format
begin

text \<open>
  \<open>src/src/store/redis.rs\<close>: the Redis-backed store, with the Lua script of the \<open>redis-lua\<close>
  feature and with the \<open>MULTI\<close>/\<open>EXEC\<close> pipeline of the build without it.

  The server and the connection are not part of the repository.  A \<open>redis_api\<close> carries the
  server: it executes one command at a time of its millisecond clock.  What the store relies on
  is the documented behaviour of the four commands, collected in \<open>redis_api_ok\<close>.
\<close>

section \<open>Errors\<close>

datatype RedisStoreError =
    WindowTooShort
  | WindowTooLarge
  | CommandFailed string
  | InvalidUsage i64
  | InvalidResetAfter i64

fun redis_error_to_string :: "RedisStoreError \<Rightarrow> string" where
  "redis_error_to_string WindowTooShort = ''window must be at least one millisecond''"
| "redis_error_to_string WindowTooLarge = ''window is too large''"
| "redis_error_to_string (CommandFailed msg) = ''redis command failed: '' @ msg"
| "redis_error_to_string (InvalidUsage n) = ''redis returned invalid usage '' @ show_i64 n"
| "redis_error_to_string (InvalidResetAfter n) =
     ''redis returned invalid reset-after milliseconds '' @ show_i64 n"

definition redis_error_into :: "RedisStoreError \<Rightarrow> RateLimitError" where
  "redis_error_into err = Store ''redis_store_error'' (redis_error_to_string err)"

section \<open>Keys, windows and answers\<close>

definition REDIS_PREFIX :: string where
  "REDIS_PREFIX = ''rl:''"

definition format_redis_key :: "string option \<Rightarrow> string \<Rightarrow> string" where
  "format_redis_key namespace key =
     (case (case namespace of Some value \<Rightarrow> if value \<noteq> [] then Some value else None | None \<Rightarrow> None) of
        Some namespace \<Rightarrow> namespace @ '':'' @ REDIS_PREFIX @ key
      | None \<Rightarrow> REDIS_PREFIX @ key)"

record RedisStore =
  namespace :: "string option"

definition redis_store_new :: RedisStore where
  "redis_store_new = \<lparr>namespace = None\<rparr>"

definition with_namespace :: "RedisStore \<Rightarrow> string \<Rightarrow> RedisStore" where
  "with_namespace this ns = this\<lparr>namespace := Some ns\<rparr>"

definition redis_key :: "RedisStore \<Rightarrow> string \<Rightarrow> string" where
  "redis_key this key = format_redis_key (namespace this) key"

definition checked_window_millis :: "Duration \<Rightarrow> (RedisStoreError, i64) result" where
  "checked_window_millis win =
     (let window_millis = as_millis win
      in if window_millis = 0 then Inl WindowTooShort
         else if window_millis > 9223372036854775807 then Inl WindowTooLarge
         else Inr (ucast window_millis))"

definition usage_from_increment_result :: "i64 \<times> i64 \<Rightarrow> (RedisStoreError, Usage) result" where
  "usage_from_increment_result r =
     (case r of
        (n, reset_after_millis) \<Rightarrow>
          if sint n < 1 then Inl (InvalidUsage n)
          else if sint reset_after_millis \<le> 0 then Inl (InvalidResetAfter reset_after_millis)
          else Inr \<lparr>used = ucast n, reset_after = from_millis (ucast reset_after_millis)\<rparr>)"

section \<open>The server\<close>

datatype redis_command =
    INCR string
  | PEXPIRE string i64
  | PTTL string
  | SET_PX_NX string i64 i64

fun command_key :: "redis_command \<Rightarrow> string" where
  "command_key (INCR k) = k"
| "command_key (PEXPIRE k ms) = k"
| "command_key (PTTL k) = k"
| "command_key (SET_PX_NX k v ms) = k"

datatype redis_reply = IntReply i64 | StatusReply | NilReply | ErrReply string

datatype redis_value = RInt int | ROther

text \<open>
  \<open>rd_exec r t cmd\<close> executes one command at server time \<open>t\<close>; \<open>rd_view r t k\<close> is what key \<open>k\<close>
  holds at \<open>t\<close> with the millisecond at which it expires, if it does; \<open>rd_type_error\<close> is the
  client's message for a reply that is not an integer; \<open>rd_lua\<close> is what becomes of an integer on
  its way through a number of the script's language.
\<close>

record 'r redis_api =
  rd_exec :: "'r \<Rightarrow> int \<Rightarrow> redis_command \<Rightarrow> redis_reply \<times> 'r"
  rd_view :: "'r \<Rightarrow> int \<Rightarrow> string \<Rightarrow> (redis_value \<times> int option) option"
  rd_type_error :: "redis_reply \<Rightarrow> string"
  rd_lua :: "i64 \<Rightarrow> i64"

text \<open>
  The circumstances of one increment: the server's clock at each of the commands, and the
  connection, which may fail before the request is executed or after.
\<close>

datatype connection_outcome = Delivered | NotSent string | ReplyLost string

record redis_times =
  t_first :: int
  t_second :: int
  t_third :: int
  outcome :: connection_outcome

section \<open>The two increments\<close>

definition decode_int :: "'r redis_api \<Rightarrow> redis_reply \<Rightarrow> (RedisStoreError, i64) result" where
  "decode_int api reply =
     (case reply of
        IntReply n \<Rightarrow> Inr n
      | ErrReply msg \<Rightarrow> Inl (CommandFailed msg)
      | _ \<Rightarrow> Inl (CommandFailed (rd_type_error api reply)))"

definition decode_pair ::
  "'r redis_api \<Rightarrow> redis_reply \<Rightarrow> redis_reply \<Rightarrow> (RedisStoreError, i64 \<times> i64) result" where
  "decode_pair api a b =
     (case decode_int api a of
        Inl err \<Rightarrow> Inl err
      | Inr n \<Rightarrow> (case decode_int api b of Inl err \<Rightarrow> Inl err | Inr m \<Rightarrow> Inr (n, m)))"

fun lua_reply :: "'r redis_api \<Rightarrow> redis_reply \<Rightarrow> redis_reply" where
  "lua_reply api (IntReply n) = IntReply (rd_lua api n)"
| "lua_reply api reply = reply"

text \<open>\<open>INCREMENT_SCRIPT\<close>: \<open>redis.call\<close> raises an error reply, which ends the script there.\<close>

definition increment_script ::
  "'r redis_api \<Rightarrow> 'r \<Rightarrow> redis_times \<Rightarrow> string \<Rightarrow> i64 \<Rightarrow> (RedisStoreError, i64 \<times> i64) result \<times> 'r" where
  "increment_script api r ts key window_millis =
     (case rd_exec api r (t_first ts) (INCR key) of
        (ErrReply msg, r1) \<Rightarrow> (Inl (CommandFailed msg), r1)
      | (count, r1) \<Rightarrow>
          (case (if count = IntReply 1 then rd_exec api r1 (t_second ts) (PEXPIRE key window_millis)
                 else (NilReply, r1)) of
             (ErrReply msg, r2) \<Rightarrow> (Inl (CommandFailed msg), r2)
           | (_, r2) \<Rightarrow>
               (case rd_exec api r2 (t_third ts) (PTTL key) of
                  (ErrReply msg, r3) \<Rightarrow> (Inl (CommandFailed msg), r3)
                | (ttl, r3) \<Rightarrow> (decode_pair api (lua_reply api count) (lua_reply api ttl), r3))))"

text \<open>
  The atomic pipeline: all three commands run, a failing one does not undo the others, and the
  first error among the replies is what the client returns; the reply to \<open>SET\<close> is ignored
  otherwise.
\<close>

definition increment_transaction ::
  "'r redis_api \<Rightarrow> 'r \<Rightarrow> redis_times \<Rightarrow> string \<Rightarrow> i64 \<Rightarrow> (RedisStoreError, i64 \<times> i64) result \<times> 'r" where
  "increment_transaction api r ts key window_millis =
     (case rd_exec api r (t_first ts) (SET_PX_NX key 0 window_millis) of
        (set_reply, r1) \<Rightarrow>
          (case rd_exec api r1 (t_second ts) (INCR key) of
             (count, r2) \<Rightarrow>
               (case rd_exec api r2 (t_third ts) (PTTL key) of
                  (ttl, r3) \<Rightarrow>
                    (case set_reply of
                       ErrReply msg \<Rightarrow> (Inl (CommandFailed msg), r3)
                     | _ \<Rightarrow> (decode_pair api count ttl, r3)))))"

text \<open>The \<open>redis-lua\<close> feature selects one of them; the connection decides whether it runs and is heard of.\<close>

definition increment_counter ::
  "bool \<Rightarrow> 'r redis_api \<Rightarrow> 'r \<Rightarrow> redis_times \<Rightarrow> string \<Rightarrow> i64 \<Rightarrow> (RedisStoreError, i64 \<times> i64) result \<times> 'r" where
  "increment_counter lua api r ts key window_millis =
     (let run = (if lua then increment_script else increment_transaction) api r ts key window_millis
      in case outcome ts of
           Delivered \<Rightarrow> run
         | NotSent msg \<Rightarrow> (Inl (CommandFailed msg), r)
         | ReplyLost msg \<Rightarrow> (Inl (CommandFailed msg), snd run))"

text \<open>\<open>Store::increment\<close> for \<open>RedisStore\<close>.\<close>

definition redis_increment ::
  "bool \<Rightarrow> 'r redis_api \<Rightarrow> RedisStore \<Rightarrow> ('r, redis_times) increment_fun" where
  "redis_increment lua api this r ts key win =
     (case checked_window_millis win of
        Inl err \<Rightarrow> (Inl (redis_error_into err), r)
      | Inr window_millis \<Rightarrow>
          (case increment_counter lua api r ts (redis_key this key) window_millis of
             (Inl err, r') \<Rightarrow> (Inl (redis_error_into err), r')
           | (Inr result, r') \<Rightarrow>
               (case usage_from_increment_result result of
                  Inl err \<Rightarrow> (Inl (redis_error_into err), r')
                | Inr u \<Rightarrow> (Inr u, r'))))"

section \<open>What the server documents\<close>

text \<open>A value with its expiry, seen at a time.\<close>

definition seen_at :: "redis_value \<Rightarrow> int option \<Rightarrow> int \<Rightarrow> (redis_value \<times> int option) option" where
  "seen_at v d t = (case d of None \<Rightarrow> Some (v, None) | Some e \<Rightarrow> if t < e then Some (v, Some e) else None)"

text \<open>The reply to a command, and what its key holds afterwards; a failing command changes nothing.\<close>

definition does ::
  "'r redis_api \<Rightarrow> 'r \<Rightarrow> int \<Rightarrow> redis_command \<Rightarrow> redis_reply \<Rightarrow> (int \<Rightarrow> (redis_value \<times> int option) option) \<Rightarrow> bool" where
  "does api r t cmd reply after \<longleftrightarrow>
     (case rd_exec api r t cmd of
        (rep, r') \<Rightarrow> rep = reply \<and> (\<forall>t'. rd_view api r' t' (command_key cmd) = after t'))"

definition fails :: "'r redis_api \<Rightarrow> 'r \<Rightarrow> int \<Rightarrow> redis_command \<Rightarrow> bool" where
  "fails api r t cmd \<longleftrightarrow>
     (\<exists>msg. does api r t cmd (ErrReply msg) (\<lambda>t'. rd_view api r t' (command_key cmd)))"

text \<open>
  Time: what a key holds changes by itself only when it expires.  A command affects its own key
  only.  \<open>INCR\<close> counts from zero at an absent key, keeps the expiry of a present one, and fails
  at the largest \<open>i64\<close> or on a value that is no integer.  \<open>PEXPIRE\<close> sets the expiry of a present
  key, \<open>SET\<close> with \<open>PX\<close> and \<open>NX\<close> creates an absent one with an expiry; both fail when the expiry
  exceeds the range of \<open>i64\<close>.  \<open>PTTL\<close> is the time to the expiry, \<open>-1\<close> without one and \<open>-2\<close>
  without a key.  Integers up to \<open>2 ^ 53\<close> pass through the script unchanged.
\<close>

definition redis_ages :: "'r redis_api \<Rightarrow> bool" where
  "redis_ages api \<longleftrightarrow> (\<forall>r k. \<exists>c. \<forall>t. rd_view api r t k = (case c of None \<Rightarrow> None | Some (v, d) \<Rightarrow> seen_at v d t))"

definition redis_frame :: "'r redis_api \<Rightarrow> bool" where
  "redis_frame api \<longleftrightarrow> (\<forall>r t cmd k t'. k \<noteq> command_key cmd \<longrightarrow>
     rd_view api (snd (rd_exec api r t cmd)) t' k = rd_view api r t' k)"

definition incr_documented :: "'r redis_api \<Rightarrow> bool" where
  "incr_documented api \<longleftrightarrow> (\<forall>r t k.
     case rd_view api r t k of
       None \<Rightarrow> does api r t (INCR k) (IntReply 1) (seen_at (RInt 1) None)
     | Some (RInt n, d) \<Rightarrow>
         if n < 2 ^ 63 - 1
         then does api r t (INCR k) (IntReply (word_of_int (n + 1))) (seen_at (RInt (n + 1)) d)
         else fails api r t (INCR k)
     | Some (ROther, d) \<Rightarrow> fails api r t (INCR k))"

definition pexpire_documented :: "'r redis_api \<Rightarrow> bool" where
  "pexpire_documented api \<longleftrightarrow> (\<forall>r t k ms. 0 < sint ms \<longrightarrow>
     (if 2 ^ 63 \<le> t + sint ms then fails api r t (PEXPIRE k ms)
      else (case rd_view api r t k of
              None \<Rightarrow> does api r t (PEXPIRE k ms) (IntReply 0) (\<lambda>t'. rd_view api r t' k)
            | Some (v, d) \<Rightarrow> does api r t (PEXPIRE k ms) (IntReply 1) (seen_at v (Some (t + sint ms))))))"

definition pttl_documented :: "'r redis_api \<Rightarrow> bool" where
  "pttl_documented api \<longleftrightarrow> (\<forall>r t k.
     does api r t (PTTL k)
       (IntReply (case rd_view api r t k of
                    None \<Rightarrow> - 2
                  | Some (v, None) \<Rightarrow> - 1
                  | Some (v, Some e) \<Rightarrow> word_of_int (e - t)))
       (\<lambda>t'. rd_view api r t' k))"

definition set_documented :: "'r redis_api \<Rightarrow> bool" where
  "set_documented api \<longleftrightarrow> (\<forall>r t k n ms. 0 < sint ms \<longrightarrow>
     (if 2 ^ 63 \<le> t + sint ms then fails api r t (SET_PX_NX k n ms)
      else (case rd_view api r t k of
              None \<Rightarrow> does api r t (SET_PX_NX k n ms) StatusReply (seen_at (RInt (sint n)) (Some (t + sint ms)))
            | Some (v, d) \<Rightarrow> does api r t (SET_PX_NX k n ms) NilReply (\<lambda>t'. rd_view api r t' k))))"

definition lua_documented :: "'r redis_api \<Rightarrow> bool" where
  "lua_documented api \<longleftrightarrow> (\<forall>n. \<bar>sint n\<bar> \<le> 2 ^ 53 \<longrightarrow> rd_lua api n = n)"

definition redis_api_ok :: "'r redis_api \<Rightarrow> bool" where
  "redis_api_ok api \<longleftrightarrow> redis_ages api \<and> redis_frame api \<and> incr_documented api \<and>
     pexpire_documented api \<and> pttl_documented api \<and> set_documented api \<and> lua_documented api"

section \<open>A server that keeps the laws\<close>

type_synonym map_redis = "string \<Rightarrow> (redis_value \<times> int option) option"

definition map_redis_view :: "map_redis \<Rightarrow> int \<Rightarrow> string \<Rightarrow> (redis_value \<times> int option) option" where
  "map_redis_view r t k = (case r k of None \<Rightarrow> None | Some (v, d) \<Rightarrow> seen_at v d t)"

fun map_redis_exec :: "map_redis \<Rightarrow> int \<Rightarrow> redis_command \<Rightarrow> redis_reply \<times> map_redis" where
  "map_redis_exec r t (INCR k) =
     (case map_redis_view r t k of
        None \<Rightarrow> (IntReply 1, r(k \<mapsto> (RInt 1, None)))
      | Some (RInt n, d) \<Rightarrow>
          if n < 2 ^ 63 - 1 then (IntReply (word_of_int (n + 1)), r(k \<mapsto> (RInt (n + 1), d)))
          else (ErrReply ''ERR increment or decrement would overflow'', r)
      | Some (ROther, d) \<Rightarrow> (ErrReply ''ERR value is not an integer or out of range'', r))"
| "map_redis_exec r t (PEXPIRE k ms) =
     (if 2 ^ 63 \<le> t + sint ms then (ErrReply ''ERR invalid expire time in 'pexpire' command'', r)
      else (case map_redis_view r t k of
              None \<Rightarrow> (IntReply 0, r)
            | Some (v, d) \<Rightarrow> (IntReply 1, r(k \<mapsto> (v, Some (t + sint ms))))))"
| "map_redis_exec r t (PTTL k) =
     (IntReply (case map_redis_view r t k of
                  None \<Rightarrow> - 2 | Some (v, None) \<Rightarrow> - 1 | Some (v, Some e) \<Rightarrow> word_of_int (e - t)), r)"
| "map_redis_exec r t (SET_PX_NX k n ms) =
     (if 2 ^ 63 \<le> t + sint ms then (ErrReply ''ERR invalid expire time in 'set' command'', r)
      else (case map_redis_view r t k of
              None \<Rightarrow> (StatusReply, r(k \<mapsto> (RInt (sint n), Some (t + sint ms))))
            | Some (v, d) \<Rightarrow> (NilReply, r)))"

definition map_redis_api :: "map_redis redis_api" where
  "map_redis_api =
     \<lparr>rd_exec = map_redis_exec, rd_view = map_redis_view,
      rd_type_error = (\<lambda>_. ''Response was of incompatible type''), rd_lua = (\<lambda>n. n)\<rparr>"

lemma map_redis_api_ok: "redis_api_ok map_redis_api"
proof -
  have view_upd: "map_redis_view (r(k \<mapsto> (v, d))) t k = seen_at v d t" for r k v d t
    by (simp add: map_redis_view_def)
  have view_other: "k' \<noteq> k \<Longrightarrow> map_redis_view (r(k \<mapsto> x)) t k' = map_redis_view r t k'" for r k k' x t
    by (simp add: map_redis_view_def)
  have "redis_ages map_redis_api"
    unfolding redis_ages_def by (auto simp: map_redis_api_def map_redis_view_def)
  moreover have "redis_frame map_redis_api"
    unfolding redis_frame_def
  proof (intro allI impI)
    fix r t cmd k t' assume "k \<noteq> command_key cmd"
    then show "rd_view map_redis_api (snd (rd_exec map_redis_api r t cmd)) t' k = rd_view map_redis_api r t' k"
      by (cases cmd) (auto simp: map_redis_api_def view_other split: option.split redis_value.split prod.split)
  qed
  moreover have "incr_documented map_redis_api" "pexpire_documented map_redis_api"
    "pttl_documented map_redis_api" "set_documented map_redis_api" "lua_documented map_redis_api"
    by (auto simp: incr_documented_def pexpire_documented_def pttl_documented_def set_documented_def
        lua_documented_def does_def fails_def map_redis_api_def view_upd
        split: option.split redis_value.split)
  ultimately show ?thesis by (simp add: redis_api_ok_def)
qed

section \<open>The counter operations\<close>

lemma failsD:
  "fails api r t cmd \<Longrightarrow>
   \<exists>msg r'. rd_exec api r t cmd = (ErrReply msg, r') \<and>
     (\<forall>t'. rd_view api r' t' (command_key cmd) = rd_view api r t' (command_key cmd))"
  by (cases "rd_exec api r t cmd") (auto simp: fails_def does_def)

locale redis_server =
  fixes api :: "'r redis_api"
  assumes api_ok: "redis_api_ok api"
begin

lemma documented:
  "redis_ages api" "redis_frame api" "incr_documented api" "pexpire_documented api"
  "pttl_documented api" "set_documented api" "lua_documented api"
  using api_ok by (simp_all add: redis_api_ok_def)

lemma view_other:
  "rd_exec api r t cmd = (rep, r') \<Longrightarrow> k \<noteq> command_key cmd \<Longrightarrow> rd_view api r' t' k = rd_view api r t' k"
  using documented(2) unfolding redis_frame_def by (metis snd_conv)

lemma view_ages:
  obtains v d where "\<And>t. rd_view api r t k = seen_at v d t" | "\<And>t. rd_view api r t k = None"
proof -
  obtain c where c: "\<And>t. rd_view api r t k = (case c of None \<Rightarrow> None | Some (v, d) \<Rightarrow> seen_at v d t)"
    using documented(1) unfolding redis_ages_def by metis
  show thesis
  proof (cases c)
    case None
    then show ?thesis using c that(2) by simp
  next
    case (Some p)
    then show ?thesis using c that(1) by (cases p) simp
  qed
qed

lemma view_seen:
  assumes "rd_view api r t k = Some (v, d)"
  shows "rd_view api r t' k = seen_at v d t'"
proof (cases rule: view_ages [of r k])
  case (1 v' d')
  then have "v' = v" "d' = d" using assms by (simp_all add: seen_at_def split: option.splits if_splits)
  then show ?thesis using 1 by simp
next
  case 2
  then show ?thesis using assms by simp
qed

lemma view_unexpired: "rd_view api r t k = Some (v, Some e) \<Longrightarrow> t < e"
  using view_seen [of r t k v "Some e" t] by (simp add: seen_at_def split: if_splits)

lemma exec_incr_absent:
  assumes "rd_view api r t k = None"
  obtains r' where "rd_exec api r t (INCR k) = (IntReply 1, r')"
    "\<And>t'. rd_view api r' t' k = seen_at (RInt 1) None t'"
  using documented(3) [unfolded incr_documented_def, rule_format, of r t k] assms
  by (auto simp: does_def split: prod.splits)

lemma exec_incr_present:
  assumes "rd_view api r t k = Some (RInt n, d)" "n < 2 ^ 63 - 1"
  obtains r' where "rd_exec api r t (INCR k) = (IntReply (word_of_int (n + 1)), r')"
    "\<And>t'. rd_view api r' t' k = seen_at (RInt (n + 1)) d t'"
  using documented(3) [unfolded incr_documented_def, rule_format, of r t k] assms
  by (auto simp: does_def split: prod.splits)

lemma exec_incr_overflow:
  assumes "rd_view api r t k = Some (RInt n, d)" "2 ^ 63 - 1 \<le> n"
  obtains msg r' where "rd_exec api r t (INCR k) = (ErrReply msg, r')"
    "\<And>t'. rd_view api r' t' k = rd_view api r t' k"
  using documented(3) [unfolded incr_documented_def, rule_format, of r t k] assms
  by (auto dest!: failsD)

lemma exec_pexpire:
  assumes "rd_view api r t k = Some (v, d)" "0 < sint ms" "t + sint ms < 2 ^ 63"
  obtains r' where "rd_exec api r t (PEXPIRE k ms) = (IntReply 1, r')"
    "\<And>t'. rd_view api r' t' k = seen_at v (Some (t + sint ms)) t'"
  using documented(4) [unfolded pexpire_documented_def, rule_format, of ms t r k] assms
  by (auto simp: does_def split: prod.splits)

lemma exec_pexpire_overflow:
  assumes "0 < sint ms" "2 ^ 63 \<le> t + sint ms"
  obtains msg r' where "rd_exec api r t (PEXPIRE k ms) = (ErrReply msg, r')"
    "\<And>t'. rd_view api r' t' k = rd_view api r t' k"
  using documented(4) [unfolded pexpire_documented_def, rule_format, of ms t r k] assms
  by (auto dest!: failsD)

lemma exec_pttl:
  obtains r' where "rd_exec api r t (PTTL k) =
      (IntReply (case rd_view api r t k of
                    None \<Rightarrow> - 2 | Some (v, None) \<Rightarrow> - 1 | Some (v, Some e) \<Rightarrow> word_of_int (e - t)), r')"
    "\<And>t'. rd_view api r' t' k = rd_view api r t' k"
  using documented(5) [unfolded pttl_documented_def, rule_format, of r t k]
  by (auto simp: does_def split: prod.splits)

lemma exec_pttl_of:
  assumes "rd_view api r t k = Some (v, d)"
  obtains r' where
    "rd_exec api r t (PTTL k) = (IntReply (case d of None \<Rightarrow> - 1 | Some e \<Rightarrow> word_of_int (e - t)), r')"
    "\<And>t'. rd_view api r' t' k = rd_view api r t' k"
proof -
  obtain r' where r': "rd_exec api r t (PTTL k) =
      (IntReply (case rd_view api r t k of
                    None \<Rightarrow> - 2 | Some (v, None) \<Rightarrow> - 1 | Some (v, Some e) \<Rightarrow> word_of_int (e - t)), r')"
    "\<And>t'. rd_view api r' t' k = rd_view api r t' k"
    using exec_pttl by blast
  show thesis
    by (rule that [OF _ r'(2)]) (simp only: r'(1) assms option.case prod.case)
qed

lemma exec_set_absent:
  assumes "rd_view api r t k = None" "0 < sint ms" "t + sint ms < 2 ^ 63"
  obtains r' where "rd_exec api r t (SET_PX_NX k n ms) = (StatusReply, r')"
    "\<And>t'. rd_view api r' t' k = seen_at (RInt (sint n)) (Some (t + sint ms)) t'"
  using documented(6) [unfolded set_documented_def, rule_format, of ms t r k n] assms
  by (auto simp: does_def split: prod.splits)

lemma exec_set_present:
  assumes "rd_view api r t k = Some (v, d)" "0 < sint ms" "t + sint ms < 2 ^ 63"
  obtains r' where "rd_exec api r t (SET_PX_NX k n ms) = (NilReply, r')"
    "\<And>t'. rd_view api r' t' k = rd_view api r t' k"
  using documented(6) [unfolded set_documented_def, rule_format, of ms t r k n] assms
  by (auto simp: does_def split: prod.splits)

lemma exec_set_overflow:
  assumes "0 < sint ms" "2 ^ 63 \<le> t + sint ms"
  obtains msg r' where "rd_exec api r t (SET_PX_NX k n ms) = (ErrReply msg, r')"
    "\<And>t'. rd_view api r' t' k = rd_view api r t' k"
  using documented(6) [unfolded set_documented_def, rule_format, of ms t r k n] assms
  by (auto dest!: failsD)

end

definition frozen :: "redis_times \<Rightarrow> int \<Rightarrow> bool" where
  "frozen ts t \<longleftrightarrow> t_first ts = t \<and> t_second ts = t \<and> t_third ts = t \<and> outcome ts = Delivered"

definition passed :: "bool \<Rightarrow> 'r redis_api \<Rightarrow> i64 \<Rightarrow> i64" where
  "passed lua api n = (if lua then rd_lua api n else n)"

lemma word_of_int_not_1: "1 \<le> n \<Longrightarrow> n < 2 ^ 63 - 1 \<Longrightarrow> (word_of_int (n + 1) :: i64) \<noteq> 1"
proof
  assume "1 \<le> n" "n < 2 ^ 63 - 1" "(word_of_int (n + 1) :: i64) = 1"
  moreover have "uint (word_of_int (n + 1) :: i64) = (n + 1) mod 2 ^ 64"
    by (simp only: uint_word_of_int) simp
  ultimately show False by simp
qed

context redis_server
begin

lemma counter_absent:
  assumes "frozen ts t" "rd_view api r t k = None" "0 < sint ms" "t + sint ms < 2 ^ 63"
  shows "\<exists>r'. increment_counter lua api r ts k ms = (Inr (passed lua api 1, passed lua api ms), r') \<and>
    (\<forall>t'. rd_view api r' t' k = seen_at (RInt 1) (Some (t + sint ms)) t')"
proof (cases lua)
  case True
  obtain r1 where r1: "rd_exec api r t (INCR k) = (IntReply 1, r1)"
    "\<And>t'. rd_view api r1 t' k = seen_at (RInt 1) None t'"
    using exec_incr_absent [OF assms(2)] by blast
  have "rd_view api r1 t k = Some (RInt 1, None)" using r1(2) by (simp add: seen_at_def)
  from exec_pexpire [OF this assms(3,4)] obtain r2 where
    r2: "rd_exec api r1 t (PEXPIRE k ms) = (IntReply 1, r2)"
    "\<And>t'. rd_view api r2 t' k = seen_at (RInt 1) (Some (t + sint ms)) t'"
    by blast
  obtain r3 where r3: "rd_exec api r2 t (PTTL k) = (IntReply ms, r3)"
    "\<And>t'. rd_view api r3 t' k = rd_view api r2 t' k"
    using exec_pttl [of r2 t k] r2(2) [of t] assms(3) by (auto simp: seen_at_def)
  show ?thesis
    using assms(1) True r1 r2 r3
    by (simp add: increment_counter_def increment_script_def frozen_def decode_pair_def decode_int_def passed_def)
next
  case False
  obtain r1 where r1: "rd_exec api r t (SET_PX_NX k 0 ms) = (StatusReply, r1)"
    "\<And>t'. rd_view api r1 t' k = seen_at (RInt 0) (Some (t + sint ms)) t'"
    using exec_set_absent [OF assms(2-4), of 0] by auto
  have "rd_view api r1 t k = Some (RInt 0, Some (t + sint ms))"
    using r1(2) assms(3) by (simp add: seen_at_def)
  from exec_incr_present [OF this] obtain r2 where
    r2: "rd_exec api r1 t (INCR k) = (IntReply 1, r2)"
    "\<And>t'. rd_view api r2 t' k = seen_at (RInt 1) (Some (t + sint ms)) t'"
    by auto
  obtain r3 where r3: "rd_exec api r2 t (PTTL k) = (IntReply ms, r3)"
    "\<And>t'. rd_view api r3 t' k = rd_view api r2 t' k"
    using exec_pttl [of r2 t k] r2(2) [of t] assms(3) by (auto simp: seen_at_def)
  show ?thesis
    using assms(1) False r1 r2 r3
    by (simp add: increment_counter_def increment_transaction_def frozen_def decode_pair_def decode_int_def passed_def)
qed

lemma counter_present:
  assumes "frozen ts t" "rd_view api r t k = Some (RInt n, d)" "1 \<le> n" "n < 2 ^ 63 - 1"
    and "0 < sint ms" "t + sint ms < 2 ^ 63"
  shows "\<exists>r'. increment_counter lua api r ts k ms =
      (Inr (passed lua api (word_of_int (n + 1)),
            passed lua api (case d of None \<Rightarrow> - 1 | Some e \<Rightarrow> word_of_int (e - t))), r') \<and>
    (\<forall>t'. rd_view api r' t' k = seen_at (RInt (n + 1)) d t')"
proof (cases lua)
  case True
  obtain r1 where r1: "rd_exec api r t (INCR k) = (IntReply (word_of_int (n + 1)), r1)"
    "\<And>t'. rd_view api r1 t' k = seen_at (RInt (n + 1)) d t'"
    using exec_incr_present [OF assms(2,4)] by blast
  have v1: "rd_view api r1 t k = Some (RInt (n + 1), d)"
    using r1(2) view_unexpired assms(2) by (auto simp: seen_at_def split: option.split)
  obtain r3 where r3: "rd_exec api r1 t (PTTL k) =
      (IntReply (case d of None \<Rightarrow> - 1 | Some e \<Rightarrow> word_of_int (e - t)), r3)"
    "\<And>t'. rd_view api r3 t' k = rd_view api r1 t' k"
    using exec_pttl_of [OF v1] by blast
  show ?thesis
    using assms(1) True r1 r3 word_of_int_not_1 [OF assms(3,4)]
    by (simp add: increment_counter_def increment_script_def frozen_def decode_pair_def decode_int_def passed_def)
next
  case False
  obtain r1 where r1: "rd_exec api r t (SET_PX_NX k 0 ms) = (NilReply, r1)"
    "\<And>t'. rd_view api r1 t' k = rd_view api r t' k"
    using exec_set_present [OF assms(2,5,6), of 0] by auto
  have "rd_view api r1 t k = Some (RInt n, d)" using r1(2) assms(2) by simp
  from exec_incr_present [OF this assms(4)] obtain r2 where
    r2: "rd_exec api r1 t (INCR k) = (IntReply (word_of_int (n + 1)), r2)"
    "\<And>t'. rd_view api r2 t' k = seen_at (RInt (n + 1)) d t'"
    by blast
  have v2: "rd_view api r2 t k = Some (RInt (n + 1), d)"
    using r2(2) view_unexpired assms(2) by (auto simp: seen_at_def split: option.split)
  obtain r3 where r3: "rd_exec api r2 t (PTTL k) =
      (IntReply (case d of None \<Rightarrow> - 1 | Some e \<Rightarrow> word_of_int (e - t)), r3)"
    "\<And>t'. rd_view api r3 t' k = rd_view api r2 t' k"
    using exec_pttl_of [OF v2] by blast
  show ?thesis
    using assms(1) False r1 r2 r3
    by (simp add: increment_counter_def increment_transaction_def frozen_def decode_pair_def decode_int_def passed_def)
qed

lemma counter_overflow:
  assumes "frozen ts t" "rd_view api r t k = Some (RInt n, d)" "2 ^ 63 - 1 \<le> n"
    and "0 < sint ms" "t + sint ms < 2 ^ 63"
  shows "\<exists>msg r'. increment_counter lua api r ts k ms = (Inl (CommandFailed msg), r') \<and>
    (\<forall>t'. rd_view api r' t' k = rd_view api r t' k)"
proof (cases lua)
  case True
  obtain msg r1 where "rd_exec api r t (INCR k) = (ErrReply msg, r1)"
    "\<And>t'. rd_view api r1 t' k = rd_view api r t' k"
    using exec_incr_overflow [OF assms(2,3)] by blast
  then show ?thesis
    using assms(1) True by (simp add: increment_counter_def increment_script_def frozen_def)
next
  case False
  obtain r1 where r1: "rd_exec api r t (SET_PX_NX k 0 ms) = (NilReply, r1)"
    "\<And>t'. rd_view api r1 t' k = rd_view api r t' k"
    using exec_set_present [OF assms(2,4,5), of 0] by auto
  have "rd_view api r1 t k = Some (RInt n, d)" using r1(2) assms(2) by simp
  from exec_incr_overflow [OF this assms(3)] obtain msg r2 where
    r2: "rd_exec api r1 t (INCR k) = (ErrReply msg, r2)"
    "\<And>t'. rd_view api r2 t' k = rd_view api r1 t' k" by blast
  obtain ttl r3 where r3: "rd_exec api r2 t (PTTL k) = (ttl, r3)"
    "\<And>t'. rd_view api r3 t' k = rd_view api r2 t' k"
    using exec_pttl [of r2 t k] by metis
  show ?thesis
    using assms(1) False r1 r2 r3
    by (simp add: increment_counter_def increment_transaction_def frozen_def decode_pair_def decode_int_def)
qed

lemma script_other:
  assumes "k' \<noteq> k"
  shows "rd_view api (snd (increment_script api r ts k ms)) t' k' = rd_view api r t' k'"
proof -
  obtain a r1 where 1: "rd_exec api r (t_first ts) (INCR k) = (a, r1)" by fastforce
  obtain b r2 where 2: "(if a = IntReply 1 then rd_exec api r1 (t_second ts) (PEXPIRE k ms)
      else (NilReply, r1)) = (b, r2)" by fastforce
  obtain c r3 where 3: "rd_exec api r2 (t_third ts) (PTTL k) = (c, r3)" by fastforce
  have v1: "rd_view api r1 t' k' = rd_view api r t' k'" using view_other [OF 1] assms by simp
  have v2: "rd_view api r2 t' k' = rd_view api r1 t' k'"
    using 2 view_other [of r1 "t_second ts" "PEXPIRE k ms" b r2 k'] assms by (simp split: if_splits)
  have v3: "rd_view api r3 t' k' = rd_view api r2 t' k'" using view_other [OF 3] assms by simp
  have "snd (increment_script api r ts k ms) \<in> {r1, r2, r3}"
    unfolding increment_script_def 1 using 2 3
    by (cases a; cases b; cases c) (simp_all split: if_splits)
  then show ?thesis using v1 v2 v3 by auto
qed

lemma transaction_other:
  "k' \<noteq> k \<Longrightarrow> rd_view api (snd (increment_transaction api r ts k ms)) t' k' = rd_view api r t' k'"
  by (auto simp: increment_transaction_def view_other split: prod.split redis_reply.split)

lemma counter_other:
  assumes "increment_counter lua api r ts k ms = (res, r')" "k' \<noteq> k"
  shows "rd_view api r' t' k' = rd_view api r t' k'"
  using assms(1) script_other [OF assms(2), of r ts ms t'] transaction_other [OF assms(2), of r ts ms t']
  by (simp add: increment_counter_def Let_def split: connection_outcome.splits if_splits)

end

section \<open>Conversions\<close>

lemma sint_word_of_int_64: "- (2 ^ 63) \<le> n \<Longrightarrow> n < 2 ^ 63 \<Longrightarrow> sint (word_of_int n :: i64) = n"
  by (simp add: sint_sbintrunc' signed_take_bit_int_eq_self)

lemma sint_of_small:
  assumes "unat (w :: i64) < 2 ^ 63"
  shows "sint w = int (unat w)"
proof -
  have "int (unat w) < int (2 ^ 63)" using assms by (simp only: of_nat_less_iff)
  then have "uint w < 2 ^ 63" by simp
  moreover have "- (2 ^ 63) \<le> uint w" by (rule order_trans [OF _ uint_ge_0]) simp
  ultimately show ?thesis using sint_word_of_int_64 [of "uint w"] by simp
qed

text \<open>The window in whole milliseconds, rounded down, which has to be positive and fit an \<open>i64\<close>.\<close>

lemma checked_window_millis_cases:
  assumes "wf_duration win"
  defines "m \<equiv> dur_nanos win div 1000000"
  shows "m = 0 \<Longrightarrow> checked_window_millis win = Inl WindowTooShort"
    and "2 ^ 63 \<le> m \<Longrightarrow> checked_window_millis win = Inl WindowTooLarge"
    and "0 < m \<Longrightarrow> m < 2 ^ 63 \<Longrightarrow> checked_window_millis win = Inr (word_of_nat m)"
proof -
  have m: "unat (as_millis win) = m" unfolding m_def by (rule unat_as_millis_floor [OF assms(1)])
  have zero: "as_millis win = 0 \<longleftrightarrow> m = 0" using m by (metis unat_eq_zero)
  have big: "as_millis win > 9223372036854775807 \<longleftrightarrow> m > 9223372036854775807"
    by (simp add: word_less_nat_alt m)
  have "(ucast (as_millis win) :: i64) = word_of_nat m" by (simp add: m [symmetric])
  then show "m = 0 \<Longrightarrow> checked_window_millis win = Inl WindowTooShort"
    and "2 ^ 63 \<le> m \<Longrightarrow> checked_window_millis win = Inl WindowTooLarge"
    and "0 < m \<Longrightarrow> m < 2 ^ 63 \<Longrightarrow> checked_window_millis win = Inr (word_of_nat m)"
    by (simp_all add: checked_window_millis_def zero big)
qed

lemma checked_window_millis_Inr:
  assumes "checked_window_millis win = Inr ms"
  shows "0 < sint ms"
proof -
  have a: "as_millis win \<noteq> 0" "\<not> as_millis win > 9223372036854775807" "ms = ucast (as_millis win)"
    using assms by (auto simp: checked_window_millis_def Let_def split: if_splits)
  then have "unat (as_millis win) < 2 ^ 63" "0 < unat (as_millis win)"
    by (simp_all add: word_less_nat_alt unat_gt_0)
  moreover from this have "unat ms = unat (as_millis win)"
    using a(3) by (simp add: unsigned_ucast_eq take_bit_nat_eq_self)
  ultimately have "sint ms = int (unat ms)" "0 < unat ms" using sint_of_small [of ms] by simp_all
  then show ?thesis by linarith
qed

lemma unat_of_positive:
  assumes "0 < sint (w :: i64)"
  shows "int (unat w) = sint w"
proof -
  have "sint w < 2 ^ 63" using sint_less [of w] by simp
  then have "take_bit 64 (sint w) = sint w" using assms by (intro take_bit_int_eq_self) simp_all
  then show ?thesis by (simp add: uint_sint)
qed

lemma usage_from_positive:
  assumes "1 \<le> n" "n < 2 ^ 63" "1 \<le> m" "m < 2 ^ 63"
  shows "usage_from_increment_result (word_of_int n, word_of_int m) =
    Inr \<lparr>used = word_of_int n, reset_after = from_millis (word_of_int m)\<rparr>"
  using assms sint_word_of_int_64 [of n] sint_word_of_int_64 [of m]
  by (simp add: usage_from_increment_result_def)

section \<open>The fixed-window contract\<close>

text \<open>
  The largest integer that reaches the client unchanged: a count, or a point in time and with it
  every remaining time.  A script's numbers are exact up to \<open>2 ^ 53\<close>, which as a millisecond of
  the Unix clock lies far beyond the year 280000.
\<close>

definition horizon :: "bool \<Rightarrow> int" where
  "horizon lua = (if lua then 2 ^ 53 else 2 ^ 63 - 1)"

definition redis_live :: "'r redis_api \<Rightarrow> RedisStore \<Rightarrow> 'r \<Rightarrow> int \<Rightarrow> string \<Rightarrow> (nat \<times> int) option" where
  "redis_live api this r t k =
     (case rd_view api r t (redis_key this k) of
        Some (RInt n, Some e) \<Rightarrow> Some (nat n, e)
      | _ \<Rightarrow> None)"

definition redis_invar :: "bool \<Rightarrow> 'r redis_api \<Rightarrow> RedisStore \<Rightarrow> 'r \<Rightarrow> bool" where
  "redis_invar lua api this r \<longleftrightarrow>
     (\<forall>t k v d. rd_view api r t (redis_key this k) = Some (v, d) \<longrightarrow>
        (\<exists>n e. v = RInt n \<and> 1 \<le> n \<and> n < 2 ^ 63 \<and> d = Some e \<and> e \<le> horizon lua))"

definition redis_opens :: "int \<Rightarrow> Duration \<Rightarrow> int option" where
  "redis_opens t win =
     (case checked_window_millis win of Inl err \<Rightarrow> None | Inr ms \<Rightarrow> Some (t + sint ms))"

text \<open>The commands of one increment see one time, and the window ends within the horizon.\<close>

definition redis_valid :: "bool \<Rightarrow> redis_times \<Rightarrow> Duration \<Rightarrow> bool" where
  "redis_valid lua ts win \<longleftrightarrow> frozen ts (t_first ts) \<and> 0 \<le> t_first ts \<and>
     (case redis_opens (t_first ts) win of None \<Rightarrow> False | Some e \<Rightarrow> e \<le> horizon lua)"

definition redis_left :: "redis_times \<Rightarrow> int \<Rightarrow> Duration" where
  "redis_left ts e = from_millis (word_of_int (e - t_third ts))"

lemma format_redis_key_inject: "format_redis_key ns a = format_redis_key ns b \<longleftrightarrow> a = b"
  by (simp add: format_redis_key_def split: option.split)

lemma redis_key_inject [simp]: "redis_key this a = redis_key this b \<longleftrightarrow> a = b"
  by (simp add: redis_key_def format_redis_key_inject)

lemma redis_validE:
  assumes "redis_valid lua ts win"
  obtains ms where "checked_window_millis win = Inr ms" "0 < sint ms"
    "t_first ts + sint ms \<le> horizon lua" "t_first ts + sint ms < 2 ^ 63"
    "frozen ts (t_first ts)" "0 \<le> t_first ts" "t_third ts = t_first ts"
proof -
  obtain ms where ms: "checked_window_millis win = Inr ms" "t_first ts + sint ms \<le> horizon lua"
    using assms by (auto simp: redis_valid_def redis_opens_def split: sum.splits)
  moreover have "horizon lua < 2 ^ 63" by (simp add: horizon_def)
  ultimately show thesis
    using that checked_window_millis_Inr [OF ms(1)] assms by (simp add: redis_valid_def frozen_def)
qed

locale redis_store = redis_server api
  for api :: "'r redis_api" +
  fixes lua :: bool and this :: RedisStore
begin

lemma passed_exact:
  assumes "1 \<le> n" "n \<le> horizon lua"
  shows "passed lua api (word_of_int n) = word_of_int n"
proof (cases lua)
  case True
  then have "sint (word_of_int n :: i64) = n" using assms by (simp add: horizon_def sint_word_of_int_64)
  then show ?thesis
    using documented(7) assms True by (simp add: passed_def lua_documented_def horizon_def)
qed (simp add: passed_def)

lemma invar_view:
  assumes "redis_invar lua api this r" "rd_view api r t (redis_key this k) = Some (v, d)"
  obtains n e where "v = RInt n" "1 \<le> n" "n < 2 ^ 63" "d = Some e" "e \<le> horizon lua" "t < e"
  using assms view_unexpired unfolding redis_invar_def by blast

lemma increment_new:
  assumes "redis_valid lua ts win" "rd_view api r (t_first ts) (redis_key this k) = None"
    and "redis_opens (t_first ts) win = Some e"
  shows "\<exists>r'. redis_increment lua api this r ts k win = (Inr \<lparr>used = 1, reset_after = redis_left ts e\<rparr>, r') \<and>
    (\<forall>t'. rd_view api r' t' (redis_key this k) = seen_at (RInt 1) (Some e) t')"
proof -
  obtain ms where ms: "checked_window_millis win = Inr ms" "0 < sint ms"
    "t_first ts + sint ms \<le> horizon lua" "t_first ts + sint ms < 2 ^ 63"
    "frozen ts (t_first ts)" "0 \<le> t_first ts" "t_third ts = t_first ts"
    using redis_validE [OF assms(1)] by blast
  have e: "e = t_first ts + sint ms" using assms(3) ms(1) by (simp add: redis_opens_def)
  obtain r' where r': "increment_counter lua api r ts (redis_key this k) ms =
      (Inr (passed lua api 1, passed lua api ms), r')"
    "\<forall>t'. rd_view api r' t' (redis_key this k) = seen_at (RInt 1) (Some e) t'"
    using counter_absent [OF ms(5) assms(2) ms(2,4), of lua] e by blast
  have "passed lua api (word_of_int 1) = word_of_int 1" by (rule passed_exact) (simp_all add: horizon_def)
  moreover have "passed lua api (word_of_int (sint ms)) = word_of_int (sint ms)"
    using ms by (intro passed_exact) simp_all
  ultimately have "increment_counter lua api r ts (redis_key this k) ms =
      (Inr (word_of_int 1, word_of_int (sint ms)), r')"
    using r'(1) by simp
  moreover have "usage_from_increment_result (word_of_int 1, word_of_int (sint ms)) =
      Inr \<lparr>used = word_of_int 1, reset_after = from_millis (word_of_int (sint ms))\<rparr>"
    using ms by (intro usage_from_positive) simp_all
  moreover have "redis_left ts e = from_millis (word_of_int (sint ms))"
    by (simp add: redis_left_def e ms(7))
  ultimately show ?thesis using r'(2) by (simp add: redis_increment_def ms(1))
qed

lemma increment_more:
  assumes "redis_valid lua ts win" "rd_view api r (t_first ts) (redis_key this k) = Some (RInt n, Some e)"
    and "1 \<le> n" "n < 2 ^ 63 - 1" "e \<le> horizon lua"
  shows "\<exists>res r'. redis_increment lua api this r ts k win = (res, r') \<and>
    (n < horizon lua \<longrightarrow> res = Inr \<lparr>used = word_of_int (n + 1), reset_after = redis_left ts e\<rparr>) \<and>
    (\<forall>t'. rd_view api r' t' (redis_key this k) = seen_at (RInt (n + 1)) (Some e) t')"
proof -
  obtain ms where ms: "checked_window_millis win = Inr ms" "0 < sint ms"
    "t_first ts + sint ms \<le> horizon lua" "t_first ts + sint ms < 2 ^ 63"
    "frozen ts (t_first ts)" "0 \<le> t_first ts" "t_third ts = t_first ts"
    using redis_validE [OF assms(1)] by blast
  have left: "1 \<le> e - t_first ts" "e - t_first ts \<le> horizon lua"
    using view_unexpired [OF assms(2)] ms(6) assms(5) by simp_all
  have h: "horizon lua < 2 ^ 63" by (simp add: horizon_def)
  obtain r' where r': "increment_counter lua api r ts (redis_key this k) ms =
      (Inr (passed lua api (word_of_int (n + 1)), passed lua api (word_of_int (e - t_first ts))), r')"
    "\<forall>t'. rd_view api r' t' (redis_key this k) = seen_at (RInt (n + 1)) (Some e) t'"
    using counter_present [OF ms(5) assms(2-4) ms(2,4), of lua] by auto
  have "redis_increment lua api this r ts k win =
      (Inr \<lparr>used = word_of_int (n + 1), reset_after = redis_left ts e\<rparr>, r')" if "n < horizon lua"
  proof -
    have "passed lua api (word_of_int (n + 1)) = word_of_int (n + 1)"
      using that assms(3) by (intro passed_exact) simp_all
    moreover note passed_exact [OF left]
    moreover have "usage_from_increment_result (word_of_int (n + 1), word_of_int (e - t_first ts)) =
        Inr \<lparr>used = word_of_int (n + 1), reset_after = from_millis (word_of_int (e - t_first ts))\<rparr>"
      using assms(3,4) left h by (intro usage_from_positive) simp_all
    ultimately show ?thesis using r'(1)
      by (simp only: redis_increment_def ms(1) ms(7) redis_left_def sum.case prod.case)
  qed
  moreover have "snd (redis_increment lua api this r ts k win) = r'"
    using r'(1) by (simp add: redis_increment_def ms(1) split: sum.split)
  ultimately show ?thesis using r'(2)
    by (cases "redis_increment lua api this r ts k win") auto
qed

lemma increment_full:
  assumes "redis_valid lua ts win" "rd_view api r (t_first ts) (redis_key this k) = Some (RInt n, d)"
    and "2 ^ 63 - 1 \<le> n"
  shows "\<exists>err r'. redis_increment lua api this r ts k win = (Inl err, r') \<and>
    (\<forall>t'. rd_view api r' t' (redis_key this k) = rd_view api r t' (redis_key this k))"
proof -
  obtain ms where ms: "checked_window_millis win = Inr ms" "0 < sint ms"
    "t_first ts + sint ms \<le> horizon lua" "t_first ts + sint ms < 2 ^ 63"
    "frozen ts (t_first ts)" "0 \<le> t_first ts" "t_third ts = t_first ts"
    using redis_validE [OF assms(1)] by blast
  from counter_overflow [OF ms(5) assms(2,3) ms(2,4), of lua] show ?thesis
    by (auto simp: redis_increment_def ms(1))
qed

lemma increment_other:
  assumes "redis_increment lua api this r ts k win = (res, r')" "k' \<noteq> redis_key this k"
  shows "rd_view api r' t' k' = rd_view api r t' k'"
proof (cases "checked_window_millis win")
  case (Inr ms)
  obtain x r1 where x: "increment_counter lua api r ts (redis_key this k) ms = (x, r1)" by fastforce
  then have "r' = r1" using assms(1) Inr by (auto simp: redis_increment_def split: sum.splits)
  then show ?thesis using counter_other [OF x assms(2)] by simp
qed (use assms in \<open>simp add: redis_increment_def\<close>)

end

context redis_store
begin

lemma increment_keeps_invar:
  assumes inv: "redis_invar lua api this r" and v: "redis_valid lua ts win"
    and i: "redis_increment lua api this r ts k win = (res, r')"
  shows "redis_invar lua api this r'"
proof -
  have own: "\<exists>n e. (\<forall>t'. rd_view api r' t' (redis_key this k) = seen_at (RInt n) (Some e) t') \<and>
      1 \<le> n \<and> n < 2 ^ 63 \<and> e \<le> horizon lua"
  proof (cases "rd_view api r (t_first ts) (redis_key this k)")
    case None
    obtain e where e: "redis_opens (t_first ts) win = Some e" "e \<le> horizon lua"
      using v by (auto simp: redis_valid_def split: option.splits)
    show ?thesis using increment_new [OF v None e(1)] i e(2) by fastforce
  next
    case (Some x)
    obtain w d where "x = (w, d)" by (cases x)
    with Some invar_view [OF inv] obtain n e where
      x: "x = (RInt n, Some e)" "1 \<le> n" "n < 2 ^ 63" "e \<le> horizon lua" by metis
    note view = Some [unfolded x(1)]
    show ?thesis
    proof (cases "n < 2 ^ 63 - 1")
      case True
      then show ?thesis using increment_more [OF v view x(2) True x(4)] i x by fastforce
    next
      case False
      then show ?thesis
        using increment_full [OF v view] i x view_seen [OF view] by fastforce
    qed
  qed
  show ?thesis
    unfolding redis_invar_def
  proof (intro allI impI)
    fix t k' w d
    assume view: "rd_view api r' t (redis_key this k') = Some (w, d)"
    show "\<exists>n e. w = RInt n \<and> 1 \<le> n \<and> n < 2 ^ 63 \<and> d = Some e \<and> e \<le> horizon lua"
    proof (cases "k' = k")
      case True
      then obtain n e where "seen_at (RInt n) (Some e) t = Some (w, d)"
        "1 \<le> n" "n < 2 ^ 63" "e \<le> horizon lua" using own view by metis
      then show ?thesis by (auto simp: seen_at_def split: if_splits)
    next
      case False
      then have "rd_view api r t (redis_key this k') = Some (w, d)"
        using increment_other [OF i, of "redis_key this k'" t] view by simp
      then show ?thesis using inv unfolding redis_invar_def by blast
    qed
  qed
qed

lemma live_view:
  assumes "redis_invar lua api this r"
  shows "redis_live api this r t k = Some (n, e) \<longleftrightarrow>
      rd_view api r t (redis_key this k) = Some (RInt (int n), Some e)"
    and "redis_live api this r t k = None \<longleftrightarrow> rd_view api r t (redis_key this k) = None"
  using assms
  by (fastforce simp: redis_live_def redis_invar_def split: option.splits redis_value.splits)+

lemma live_seen:
  "(\<forall>t'. rd_view api r t' (redis_key this k) = seen_at (RInt n) (Some e) t') \<Longrightarrow>
   redis_live api this r t k = (if t < e then Some (nat n, e) else None)"
  by (simp add: redis_live_def seen_at_def)

end

text \<open>The Redis store keeps the contract of a fixed-window store, with either increment.\<close>

sublocale redis_store \<subseteq>
  red: fixed_window_store "redis_increment lua api this" "redis_valid lua" t_first t_first
    "redis_live api this" redis_opens redis_left "nat (horizon lua)" "redis_invar lua api this"
proof unfold_locales
  fix s t k n e
  assume inv: "redis_invar lua api this s" and live: "redis_live api this s t k = Some (n, e)"
  note view = live_view(1) [OF inv, THEN iffD1, OF live]
  show "0 < n \<and> t < e" using invar_view [OF inv view] by fastforce
  show "redis_live api this s t' k = (if t' < e then Some (n, e) else None)" if "t \<le> t'" for t'
    using view_seen [OF view, of t'] by (simp add: redis_live_def seen_at_def)
next
  fix s t k t'
  assume inv: "redis_invar lua api this s" and "redis_live api this s t k = None" "t \<le> (t' :: int)"
  then have none: "rd_view api s t (redis_key this k) = None" using live_view(2) [OF inv] by simp
  show "redis_live api this s t' k = None"
  proof (cases "rd_view api s t' (redis_key this k)")
    case (Some x)
    obtain w d where x: "x = (w, d)" by (cases x)
    have "\<exists>e. d = Some e \<and> t' < e" using invar_view [OF inv Some [unfolded x]] by blast
    then show ?thesis
      using view_seen [OF Some [unfolded x], of t] none \<open>t \<le> t'\<close> by (auto simp: seen_at_def split: if_splits)
  qed (simp add: redis_live_def)
next
  fix s ts k n e win
  assume inv: "redis_invar lua api this s" and v: "redis_valid lua ts win"
    and live: "redis_live api this s (t_first ts) k = Some (n, e)" and n: "n < nat (horizon lua)"
  note view = live_view(1) [OF inv, THEN iffD1, OF live]
  have b: "1 \<le> int n" "e \<le> horizon lua" using invar_view [OF inv view] by (metis redis_value.inject option.inject)+
  have h: "int n < horizon lua" "int n < 2 ^ 63 - 1" using n by (simp_all add: horizon_def split: if_splits)
  from increment_more [OF v view b(1) h(2) b(2)] h(1) obtain r' where
    i: "redis_increment lua api this s ts k win =
      (Inr \<lparr>used = word_of_int (int n + 1), reset_after = redis_left ts e\<rparr>, r')"
    and seen: "\<forall>t'. rd_view api r' t' (redis_key this k) = seen_at (RInt (int n + 1)) (Some e) t'"
    by auto
  have "unat (word_of_int (int n + 1) :: u64) = Suc n"
    using h(2) by (simp add: unat_eq_nat_uint uint_word_of_int del: of_int_add)
  then show "\<exists>u s'. redis_increment lua api this s ts k win = (Inr u, s') \<and> unat (used u) = Suc n \<and>
      reset_after u = redis_left ts e \<and> redis_invar lua api this s' \<and>
      (\<forall>t \<ge> t_first ts. redis_live api this s' t k = (if t < e then Some (Suc n, e) else None))"
    using i live_seen [OF seen] increment_keeps_invar [OF inv v i] by (simp add: nat_add_distrib)
next
  fix s ts k win e
  assume inv: "redis_invar lua api this s" and v: "redis_valid lua ts win"
    and live: "redis_live api this s (t_first ts) k = None" and e: "redis_opens (t_first ts) win = Some e"
  have "rd_view api s (t_first ts) (redis_key this k) = None" using live live_view(2) [OF inv] by simp
  from increment_new [OF v this e] obtain r' where
    i: "redis_increment lua api this s ts k win = (Inr \<lparr>used = 1, reset_after = redis_left ts e\<rparr>, r')"
    and seen: "\<forall>t'. rd_view api r' t' (redis_key this k) = seen_at (RInt 1) (Some e) t'" by blast
  show "\<exists>u s'. redis_increment lua api this s ts k win = (Inr u, s') \<and> unat (used u) = 1 \<and>
      reset_after u = redis_left ts e \<and> redis_invar lua api this s' \<and>
      (\<forall>t \<ge> t_first ts. redis_live api this s' t k = (if t < e then Some (1, e) else None))"
    using i live_seen [OF seen] increment_keeps_invar [OF inv v i] by simp
next
  fix s ts k win r s' k' t
  assume "redis_increment lua api this s ts k win = (r, s')" "k' \<noteq> k"
  then show "redis_live api this s' t k' = redis_live api this s t k'"
    using increment_other [of s ts k win r s' "redis_key this k'" t] by (simp add: redis_live_def)
qed (use increment_keeps_invar in blast)+

context redis_store
begin

lemma contract:
  "fixed_window_store (redis_increment lua api this) (redis_valid lua) t_first t_first
    (redis_live api this) redis_opens redis_left (nat (horizon lua)) (redis_invar lua api this)"
  by unfold_locales

end

lemma redis_fixed_window:
  assumes "redis_api_ok api"
  shows "fixed_window_store (redis_increment lua api this) (redis_valid lua) t_first t_first
    (redis_live api this) redis_opens redis_left (nat (horizon lua)) (redis_invar lua api this)"
proof -
  have "redis_store api" using assms by (simp add: redis_store_def redis_server_def)
  then show ?thesis by (rule redis_store.contract)
qed

interpretation mr: redis_store map_redis_api lua this for lua this
  by unfold_locales (rule map_redis_api_ok)

section \<open>Properties\<close>

text \<open>
  In one window of the Redis store exactly the first \<open>lim\<close> requests of a key stay within
  the limit, with the Lua script and with the transaction: the requests are the one that opens
  the window and any sequence of delivered increments, of this key and of others and with any
  window lengths, before the window ends.
\<close>

theorem redis_window_admits_limit:
  assumes "redis_api_ok api" "redis_invar lua api this r"
    and "redis_live api this r (t_first ts) k = None"
    and "redis_opens (t_first ts) win = Some e" "t_first ts < e"
    and "in_order t_first t_first t ((ts, k, win) # cs)" "redis_valid lua ts win"
    and "\<forall>(ts, k', win) \<in> set cs. redis_valid lua ts win \<and> t_first ts < e"
    and "Suc (charges_on k cs) \<le> nat (horizon lua)"
    and "run_charges (redis_increment lua api this) r ((ts, k, win) # cs) = (rs, r')"
  shows "map (admitted nm w lim) (usages_of k ((ts, k, win) # cs) rs) =
    replicate (min (unat lim) (Suc (charges_on k cs))) True @
    replicate (Suc (charges_on k cs) - unat lim) False"
  by (rule fixed_window_store.admitted_in_new_window [OF redis_fixed_window [OF assms(1)] assms(2-10)])

definition redis_at :: "int \<Rightarrow> redis_times" where
  "redis_at t = \<lparr>t_first = t, t_second = t, t_third = t, outcome = Delivered\<rparr>"

definition sample_redis_charges :: "redis_times charge list" where
  "sample_redis_charges =
     [(redis_at 7, ''p:other'', from_secs 60), (redis_at 8, ''p:k'', from_secs 1),
      (redis_at 9, ''p:k'', from_secs 60)]"

lemma empty_redis: "redis_invar lua map_redis_api this (\<lambda>_. None)"
  by (simp add: redis_invar_def map_redis_api_def map_redis_view_def)

lemma checked_millis_secs:
  "checked_window_millis (from_secs 60) = Inr 60000" "checked_window_millis (from_secs 1) = Inr 1000"
  using checked_window_millis_cases(3) [of "from_secs 60"] checked_window_millis_cases(3) [of "from_secs 1"]
  by simp_all

lemma redis_valid_at:
  "0 \<le> t \<Longrightarrow> t \<le> 1000000 \<Longrightarrow> redis_valid lua (redis_at t) (from_secs 60)"
  "0 \<le> t \<Longrightarrow> t \<le> 1000000 \<Longrightarrow> redis_valid lua (redis_at t) (from_secs 1)"
  by (simp_all add: redis_valid_def redis_at_def frozen_def redis_opens_def checked_millis_secs horizon_def)

theorem redis_window_admits_limit_witness:
  "map (admitted ''p'' (from_secs 60) 2)
     (usages_of ''p:k'' ((redis_at 6, ''p:k'', from_secs 60) # sample_redis_charges)
        (fst (run_charges (redis_increment True map_redis_api redis_store_new) (\<lambda>_. None)
           ((redis_at 6, ''p:k'', from_secs 60) # sample_redis_charges)))) = [True, True, False]"
proof -
  let ?cs = "(redis_at 6, ''p:k'', from_secs 60) # sample_redis_charges"
  obtain rs r' where run: "run_charges (redis_increment True map_redis_api redis_store_new) (\<lambda>_. None) ?cs
      = (rs, r')" by (rule prod.exhaust)
  have absent: "redis_live map_redis_api redis_store_new (\<lambda>_. None) (t_first (redis_at 6)) ''p:k'' = None"
    by (simp add: redis_live_def map_redis_api_def map_redis_view_def)
  have opens: "redis_opens (t_first (redis_at 6)) (from_secs 60) = Some 60006"
    by (simp add: redis_opens_def checked_millis_secs redis_at_def)
  have first: "t_first (redis_at 6) < 60006" by (simp add: redis_at_def)
  have order: "in_order t_first t_first 0 ?cs" by (simp add: sample_redis_charges_def redis_at_def)
  have valid: "\<forall>(ts, k', win) \<in> set sample_redis_charges. redis_valid True ts win \<and> t_first ts < 60006"
    by (simp add: sample_redis_charges_def redis_valid_at) (simp add: redis_at_def)
  have on: "charges_on ''p:k'' sample_redis_charges = 2" by (simp add: sample_redis_charges_def)
  then have cap: "Suc (charges_on ''p:k'' sample_redis_charges) \<le> nat (horizon True)"
    by (simp add: horizon_def)
  have two: "replicate 2 True = [True, True]" by (simp add: numeral_2_eq_2)
  have v0: "redis_valid True (redis_at 6) (from_secs 60)" by (simp add: redis_valid_at)
  show ?thesis
    using redis_window_admits_limit [OF map_redis_api_ok empty_redis absent opens first order v0 valid cap run,
        of "''p''" "from_secs 60" 2]
    by (simp add: run on two del: usages_of.simps run_charges.simps)
qed

text \<open>
  C15.  The two builds of \<open>increment_counter\<close> agree.  On a server where the store's keys all have
  an expiry and a positive count, and as long as the count and the end of the window are within
  what the script's numbers represent, the Lua script and the transaction return the same usage
  and leave every key with the same value and the same expiry.
\<close>

theorem redis_backends_agree:
  assumes "redis_api_ok api" "redis_invar True api this r" "redis_valid True ts win"
    and "case redis_live api this r (t_first ts) k of None \<Rightarrow> True | Some (n, e) \<Rightarrow> n < 2 ^ 53"
    and "redis_increment True api this r ts k win = (res, r1)"
    and "redis_increment False api this r ts k win = (res', r2)"
  shows "res = res' \<and> (\<forall>t key. rd_view api r1 t key = rd_view api r2 t key)"
proof -
  have server: "redis_store api" using assms(1) by (simp add: redis_store_def redis_server_def)
  let ?key = "redis_key this k"
  have v2: "redis_valid False ts win"
    using assms(3) by (auto simp: redis_valid_def horizon_def split: option.splits)
  have other: "rd_view api r1 t key = rd_view api r2 t key" if "key \<noteq> ?key" for t key
    using redis_store.increment_other [OF server assms(5) that]
      redis_store.increment_other [OF server assms(6) that] by simp
  have "res = res' \<and> (\<forall>t. rd_view api r1 t ?key = rd_view api r2 t ?key)"
  proof (cases "rd_view api r (t_first ts) ?key")
    case None
    obtain e where e: "redis_opens (t_first ts) win = Some e"
      using assms(3) by (auto simp: redis_valid_def split: option.splits)
    show ?thesis
      using redis_store.increment_new [OF server assms(3) None e]
        redis_store.increment_new [OF server v2 None e] assms(5,6) by auto
  next
    case (Some x)
    obtain w d where x: "x = (w, d)" by (cases x)
    obtain n e where n: "w = RInt n" "1 \<le> n" "d = Some e" "e \<le> horizon True"
      using redis_store.invar_view [OF server assms(2) Some [unfolded x]] by metis
    note view = Some [unfolded x n(1,3)]
    have "n < 2 ^ 53" using assms(4) view n(2) by (simp add: redis_live_def nat_less_iff)
    then have small: "n < horizon True" "n < horizon False" "n < 2 ^ 63 - 1" "e \<le> horizon False"
      using n(4) by (simp_all add: horizon_def)
    show ?thesis
      using redis_store.increment_more [OF server assms(3) view n(2) small(3) n(4)]
        redis_store.increment_more [OF server v2 view n(2) small(3,4)] small assms(5,6) by auto
  qed
  then show ?thesis using other by metis
qed

theorem redis_backends_agree_witness:
  "fst (redis_increment True map_redis_api redis_store_new (\<lambda>_. None) (redis_at 6) ''p:k'' (from_secs 60)) =
   fst (redis_increment False map_redis_api redis_store_new (\<lambda>_. None) (redis_at 6) ''p:k'' (from_secs 60))"
proof -
  obtain a r1 where 1: "redis_increment True map_redis_api redis_store_new (\<lambda>_. None) (redis_at 6)
    ''p:k'' (from_secs 60) = (a, r1)" by (rule prod.exhaust)
  obtain b r2 where 2: "redis_increment False map_redis_api redis_store_new (\<lambda>_. None) (redis_at 6)
    ''p:k'' (from_secs 60) = (b, r2)" by (rule prod.exhaust)
  have "case redis_live map_redis_api redis_store_new (\<lambda>_. None) (t_first (redis_at 6)) ''p:k'' of
    None \<Rightarrow> True | Some (n, e) \<Rightarrow> n < 2 ^ 53"
    by (simp add: redis_live_def map_redis_api_def map_redis_view_def)
  from redis_backends_agree [OF map_redis_api_ok empty_redis redis_valid_at(1) this 1 2]
  show ?thesis by (simp add: 1 2)
qed

context redis_store
begin

lemma oversized_counter:
  assumes "frozen ts t" "rd_view api r t k = None" "0 < sint ms" "2 ^ 63 \<le> t + sint ms"
  shows "\<exists>msg r'. increment_counter lua api r ts k ms = (Inl (CommandFailed msg), r') \<and>
    (\<forall>t'. rd_view api r' t' k = Some (RInt 1, None))"
proof (cases lua)
  case True
  obtain r1 where r1: "rd_exec api r t (INCR k) = (IntReply 1, r1)"
    "\<And>t'. rd_view api r1 t' k = seen_at (RInt 1) None t'"
    using exec_incr_absent [OF assms(2)] by blast
  obtain msg r2 where r2: "rd_exec api r1 t (PEXPIRE k ms) = (ErrReply msg, r2)"
    "\<And>t'. rd_view api r2 t' k = rd_view api r1 t' k"
    using exec_pexpire_overflow [OF assms(3,4)] by blast
  show ?thesis
    using assms(1) True r1 r2
    by (simp add: increment_counter_def increment_script_def frozen_def seen_at_def)
next
  case False
  obtain msg r1 where r1: "rd_exec api r t (SET_PX_NX k 0 ms) = (ErrReply msg, r1)"
    "\<And>t'. rd_view api r1 t' k = rd_view api r t' k"
    using exec_set_overflow [OF assms(3,4)] by blast
  have "rd_view api r1 t k = None" using r1(2) assms(2) by simp
  from exec_incr_absent [OF this] obtain r2 where r2: "rd_exec api r1 t (INCR k) = (IntReply 1, r2)"
    "\<And>t'. rd_view api r2 t' k = seen_at (RInt 1) None t'" by blast
  obtain ttl r3 where r3: "rd_exec api r2 t (PTTL k) = (ttl, r3)"
    "\<And>t'. rd_view api r3 t' k = rd_view api r2 t' k"
    using exec_pttl [of r2 t k] by metis
  show ?thesis
    using assms(1) False r1 r2 r3
    by (simp add: increment_counter_def increment_transaction_def frozen_def seen_at_def)
qed

lemma persistent_key_rejected:
  assumes "redis_valid lua' ts win" "rd_view api r (t_first ts) (redis_key this k) = Some (RInt 1, None)"
  shows "fst (redis_increment lua api this r ts k win) = Inl (redis_error_into (InvalidResetAfter (- 1)))"
proof -
  obtain ms where ms: "checked_window_millis win = Inr ms" "0 < sint ms"
    "t_first ts + sint ms < 2 ^ 63" "frozen ts (t_first ts)"
    using redis_validE [OF assms(1)] by metis
  have "passed lua api 2 = 2" using passed_exact [of 2] by (simp add: horizon_def)
  moreover have "passed lua api (- 1) = - 1"
    using documented(7) by (simp add: passed_def lua_documented_def)
  moreover obtain r' where "increment_counter lua api r ts (redis_key this k) ms =
      (Inr (passed lua api 2, passed lua api (- 1)), r')"
    using counter_present [OF ms(4) assms(2) _ _ ms(2,3), of lua] by auto
  ultimately show ?thesis by (simp add: redis_increment_def ms(1) usage_from_increment_result_def)
qed

end

text \<open>
  C33.  A window that passes \<open>checked_window_millis\<close> but ends beyond the server's 64-bit
  milliseconds is refused by the server after the counter was created, or before it in a
  transaction that goes on regardless.  Either way the first increment fails and leaves the key
  with count one and without an expiry, and from then on the increments of that key fail for
  every window, however short.
\<close>

theorem oversized_window_leaves_persistent_key:
  assumes "redis_api_ok api" "frozen ts t" "checked_window_millis win = Inr ms" "2 ^ 63 \<le> t + sint ms"
    and "rd_view api r t (redis_key this k) = None"
    and "redis_increment lua api this r ts k win = (res, r')"
  shows "(\<exists>msg. res = Inl (redis_error_into (CommandFailed msg))) \<and>
    (\<forall>t'. rd_view api r' t' (redis_key this k) = Some (RInt 1, None)) \<and>
    (\<forall>ts' win'. redis_valid lua ts' win' \<longrightarrow>
       fst (redis_increment lua api this r' ts' k win') =
         Inl (Store ''redis_store_error'' ''redis returned invalid reset-after milliseconds -1''))"
proof -
  have server: "redis_store api" using assms(1) by (simp add: redis_store_def redis_server_def)
  obtain msg where c: "increment_counter lua api r ts (redis_key this k) ms = (Inl (CommandFailed msg), r')"
    "res = Inl (redis_error_into (CommandFailed msg))"
    "\<forall>t'. rd_view api r' t' (redis_key this k) = Some (RInt 1, None)"
    using redis_store.oversized_counter [OF server assms(2,5) checked_window_millis_Inr [OF assms(3)] assms(4), of lua]
      assms(3,6) by (auto simp: redis_increment_def)
  have "digit_char (Suc 0) = CHR ''1''" by code_simp
  then have "redis_error_into (InvalidResetAfter (- 1)) =
      Store ''redis_store_error'' ''redis returned invalid reset-after milliseconds -1''"
    by (simp add: redis_error_into_def show_i64_def show_nat.simps)
  then show ?thesis
    using c redis_store.persistent_key_rejected [OF server, of lua _ _ r' this k lua] by auto
qed

text \<open>The largest window \<open>checked_window_millis\<close> lets through, at a millisecond past the epoch.\<close>

theorem oversized_window_leaves_persistent_key_witness:
  "rd_view map_redis_api
     (snd (redis_increment True map_redis_api redis_store_new (\<lambda>_. None) (redis_at 6) ''p:k''
        (from_millis 9223372036854775807))) 900 ''rl:p:k'' = Some (RInt 1, None)"
proof -
  obtain res r' where i: "redis_increment True map_redis_api redis_store_new (\<lambda>_. None) (redis_at 6)
      ''p:k'' (from_millis 9223372036854775807) = (res, r')" by (rule prod.exhaust)
  have w: "checked_window_millis (from_millis 9223372036854775807) = Inr 9223372036854775807"
    using checked_window_millis_cases(3) [of "from_millis 9223372036854775807"] by simp
  have f: "frozen (redis_at 6) 6" by (simp add: frozen_def redis_at_def)
  have big: "(2 :: int) ^ 63 \<le> 6 + sint (9223372036854775807 :: i64)" by simp
  have none: "rd_view map_redis_api (\<lambda>_. None) 6 (redis_key redis_store_new ''p:k'') = None"
    by (simp add: map_redis_api_def map_redis_view_def)
  have "redis_key redis_store_new ''p:k'' = ''rl:p:k''"
    by (simp add: redis_key_def redis_store_new_def format_redis_key_def REDIS_PREFIX_def)
  with oversized_window_leaves_persistent_key [OF map_redis_api_ok f w big none i]
  show ?thesis by (simp add: i)
qed

text \<open>
  C35.  What the conversions of the Redis store accept: a window is refused exactly when it is
  shorter than one millisecond or has \<open>2 ^ 63\<close> milliseconds or more, and is rounded down to
  whole milliseconds otherwise; an answer of the server is turned into a usage exactly when
  count and remaining time are positive, with both values unchanged.
\<close>

theorem redis_conversions:
  assumes "wf_duration win"
  shows "(checked_window_millis win = Inl WindowTooShort \<longleftrightarrow> dur_nanos win < 1000000) \<and>
    (checked_window_millis win = Inl WindowTooLarge \<longleftrightarrow> 2 ^ 63 * 1000000 \<le> dur_nanos win) \<and>
    (\<forall>ms. checked_window_millis win = Inr ms \<longrightarrow>
       sint ms = int (dur_nanos win div 1000000) \<and> dur_nanos (from_millis (ucast ms)) \<le> dur_nanos win) \<and>
    (case usage_from_increment_result (n, m) of
       Inr u \<Rightarrow> 1 \<le> sint n \<and> 1 \<le> sint m \<and> int (unat (used u)) = sint n \<and>
         int (dur_nanos (reset_after u)) = sint m * 1000000
     | Inl err \<Rightarrow> sint n < 1 \<and> err = InvalidUsage n \<or>
         1 \<le> sint n \<and> sint m < 1 \<and> err = InvalidResetAfter m)"
proof -
  let ?m = "dur_nanos win div 1000000"
  have sint_m: "sint (word_of_nat ?m :: i64) = int ?m" if "?m < 2 ^ 63"
    using that sint_word_of_int_64 [of "int ?m"] by simp
  consider "?m = 0" | "2 ^ 63 \<le> ?m" | "0 < ?m" "?m < 2 ^ 63" by linarith
  then have "(checked_window_millis win = Inl WindowTooShort \<longleftrightarrow> dur_nanos win < 1000000) \<and>
    (checked_window_millis win = Inl WindowTooLarge \<longleftrightarrow> 2 ^ 63 * 1000000 \<le> dur_nanos win) \<and>
    (\<forall>ms. checked_window_millis win = Inr ms \<longrightarrow> sint ms = int ?m)"
    by cases (auto simp: checked_window_millis_cases [OF assms] sint_m)
  moreover have "dur_nanos (from_millis (ucast ms)) \<le> dur_nanos win"
    if "checked_window_millis win = Inr ms" for ms
  proof -
    have "int (unat ms) = int ?m"
      using unat_of_positive [OF checked_window_millis_Inr [OF that]] that calculation by simp
    then have "unat ms = ?m" by (simp only: of_nat_eq_iff)
    then show ?thesis by simp
  qed
  moreover have "case usage_from_increment_result (n, m) of
       Inr u \<Rightarrow> 1 \<le> sint n \<and> 1 \<le> sint m \<and> int (unat (used u)) = sint n \<and>
         int (dur_nanos (reset_after u)) = sint m * 1000000
     | Inl err \<Rightarrow> sint n < 1 \<and> err = InvalidUsage n \<or>
         1 \<le> sint n \<and> sint m < 1 \<and> err = InvalidResetAfter m"
    using unat_of_positive [of n] unat_of_positive [of m]
    by (auto simp: usage_from_increment_result_def)
  ultimately show ?thesis by blast
qed

theorem redis_conversions_witness:
  "checked_window_millis (from_secs 0) = Inl WindowTooShort \<and>
   (case usage_from_increment_result (7, - 1) of Inr u \<Rightarrow> False | Inl err \<Rightarrow> err = InvalidResetAfter (- 1))"
  using redis_conversions [of "from_secs 0" 7 "- 1"] by (auto split: sum.splits)

definition effective_namespace :: "string option \<Rightarrow> string option" where
  "effective_namespace ns = (if ns = Some [] then None else ns)"

lemma format_redis_key_prefix:
  "format_redis_key ns key =
     (case effective_namespace ns of None \<Rightarrow> [] | Some n \<Rightarrow> n @ '':'') @ ''rl:'' @ key"
  by (auto simp: format_redis_key_def effective_namespace_def REDIS_PREFIX_def split: option.split)

lemma format_scoped_inject:
  "format_redis_key ns (make_key p c) = format_redis_key ns' (make_key p' c') \<longleftrightarrow>
     effective_namespace ns = effective_namespace ns' \<and> p = p' \<and> c = c'"
proof
  let ?pre = "\<lambda>ns. case effective_namespace ns of None \<Rightarrow> [] | Some n \<Rightarrow> n @ '':''"
  assume "format_redis_key ns (make_key p c) = format_redis_key ns' (make_key p' c')"
  then have eq: "(?pre ns @ ''rl:'' @ escape_key_part p) @ CHR '':'' # escape_key_part c =
      (?pre ns' @ ''rl:'' @ escape_key_part p') @ CHR '':'' # escape_key_part c'"
    by (simp add: format_redis_key_prefix make_key_def)
  have c: "?pre ns @ ''rl:'' @ escape_key_part p = ?pre ns' @ ''rl:'' @ escape_key_part p'"
      "escape_key_part c = escape_key_part c'"
    using split_at_unique_rev [OF eq] colon_notin_escape by auto
  have eq2: "(?pre ns @ ''rl'') @ CHR '':'' # escape_key_part p = (?pre ns' @ ''rl'') @ CHR '':'' # escape_key_part p'"
    using c(1) by simp
  have "?pre ns @ ''rl'' = ?pre ns' @ ''rl''" "escape_key_part p = escape_key_part p'"
    using split_at_unique_rev [OF eq2] colon_notin_escape by auto
  then have "?pre ns = ?pre ns'" by (simp del: append_assoc)
  then have "effective_namespace ns = effective_namespace ns'"
    by (auto split: option.splits)
  then show "effective_namespace ns = effective_namespace ns' \<and> p = p' \<and> c = c'"
    using c(2) \<open>escape_key_part p = escape_key_part p'\<close> escape_key_part_inject by blast
qed (simp add: format_redis_key_prefix)

text \<open>
  Keys in Redis do not collide: two stores, with any namespaces, use the same Redis key for
  scoped keys of the middleware only when the namespaces agree, where an empty one counts as
  none, and policy name and client key agree too.
\<close>

theorem redis_keys_distinct:
  "format_redis_key ns (make_key p c) = format_redis_key ns' (make_key p' c') \<longleftrightarrow>
     effective_namespace ns = effective_namespace ns' \<and> p = p' \<and> c = c'"
  by (rule format_scoped_inject)

end
