(* ===== verification/RL_Session.thy ===== *)
theory RL_Session
  imports RL_Service Memory_Store Redis_Store
begin

text \<open>
  The middleware over the stores, end to end: a sequence of requests through the service, each
  awaited before the next is made, with the counts kept in one shared store.
\<close>

section \<open>Stores in a world\<close>

text \<open>
  The world the requests share: the contents of the store, the number of increments that have
  taken effect, and the number of increment futures that were handed out before taking effect.
  The readings of the \<open>n\<close>-th increment are \<open>clock n\<close>.
\<close>

record 's store_world =
  sw_state :: 's
  sw_tick :: nat
  sw_calls :: nat

definition charge ::
  "('s, 't) increment_fun \<Rightarrow> (nat \<Rightarrow> 't) \<Rightarrow> string \<Rightarrow> Duration \<Rightarrow> 's store_world \<Rightarrow>
    (RateLimitError, Usage) result \<times> 's store_world" where
  "charge inc clock key win w =
     (case inc (sw_state w) (clock (sw_tick w)) key win of
        (r, s') \<Rightarrow> (r, w\<lparr>sw_state := s', sw_tick := Suc (sw_tick w)\<rparr>))"

text \<open>A future that performs one operation on the world, after \<open>n\<close> polls, and reports \<open>m\<close> polls later.\<close>

fun charging :: "('w \<Rightarrow> 'a \<times> 'w) \<Rightarrow> nat \<Rightarrow> nat \<Rightarrow> ('w, 'a) future" where
  "charging act 0 m = Future (\<lambda>w. case act w of
     (r, w') \<Rightarrow> (case m of 0 \<Rightarrow> (Ready r, w') | Suc m' \<Rightarrow> (Pending (delayed m' r), w')))"
| "charging act (Suc n) m = Future (\<lambda>w. (Pending (charging act n m), w))"

text \<open>
  When an increment takes effect: at the call of \<open>increment\<close>, with the answer \<open>m\<close> polls later, or
  at the \<open>n\<close>-th poll of the future, with the answer \<open>m\<close> polls after that.
\<close>

datatype charge_plan = At_Call nat | On_Poll nat nat

definition atomic_store ::
  "('s, 't) increment_fun \<Rightarrow> (nat \<Rightarrow> 't) \<Rightarrow> (nat \<Rightarrow> nat \<Rightarrow> charge_plan) \<Rightarrow> 's store_world store" where
  "atomic_store inc clock plan key win w =
     (case plan (sw_calls w) (sw_tick w) of
        At_Call m \<Rightarrow> (case charge inc clock key win w of (r, w') \<Rightarrow> (delayed m r, w'))
      | On_Poll n m \<Rightarrow>
          (charging (charge inc clock key win) n m, w\<lparr>sw_calls := Suc (sw_calls w)\<rparr>))"

text \<open>
  \<open>MemoryStore\<close> as a store of the middleware: the increment happens when \<open>increment\<close> is called,
  and the future it returns is ready.
\<close>

definition memory_store :: "'c cache_api \<Rightarrow> (nat \<Rightarrow> op_times) \<Rightarrow> 'c store_world store" where
  "memory_store cache clock key win w =
     (case charge (memory_increment cache) clock key win w of (r, w') \<Rightarrow> (ready r, w'))"

lemma memory_store_atomic: "memory_store cache clock = atomic_store (memory_increment cache) clock (\<lambda>c t. At_Call 0)"
  by (simp add: fun_eq_iff memory_store_def atomic_store_def)

text \<open>
  \<open>RedisStore\<close> as a store of the middleware: a window Redis cannot represent is refused at once;
  otherwise the request is sent when the future is polled.  The network decides how many polls
  pass before the server executes it and before the reply arrives.
\<close>

definition redis_store_future ::
  "bool \<Rightarrow> 'r redis_api \<Rightarrow> RedisStore \<Rightarrow> (nat \<Rightarrow> redis_times) \<Rightarrow> (nat \<Rightarrow> nat \<times> nat) \<Rightarrow> 'r store_world store" where
  "redis_store_future lua api this clock network key win w =
     (case checked_window_millis win of
        Inl err \<Rightarrow> (ready (Inl (redis_error_into err)), w)
      | Inr window_millis \<Rightarrow>
          (case network (sw_calls w) of
             (n, m) \<Rightarrow> (charging (charge (redis_increment lua api this) clock key win) n m,
                       w\<lparr>sw_calls := Suc (sw_calls w)\<rparr>)))"

lemma redis_store_atomic:
  assumes "checked_window_millis win = Inr ms"
  shows "redis_store_future lua api this clock network key win =
    atomic_store (redis_increment lua api this) clock (\<lambda>c t. case network c of (n, m) \<Rightarrow> On_Poll n m) key win"
  by (simp add: fun_eq_iff redis_store_future_def atomic_store_def assms split: prod.split)

lemma awaits_delayed_iff: "awaits (=) (delayed m r) w x w' \<longleftrightarrow> x = r \<and> w' = w"
  using awaits_delayed awaits_deterministic by metis

lemma awaits_charging: "awaits (=) (charging act n m) w r w' \<longleftrightarrow> act w = (r, w')"
proof (induction n)
  case 0
  show ?case
    by (subst awaits_unfold) (auto simp: awaits_delayed_iff split: prod.split nat.split)
next
  case (Suc n)
  then show ?case by (subst awaits_unfold) simp
qed

text \<open>Awaited without interference, an atomic store performs its increment and returns its result.\<close>

lemma awaits_atomic_store:
  assumes "atomic_store inc clock plan key win w = (fut, w1)"
  shows "\<exists>c. \<forall>r w'. awaits (=) fut w1 r w' \<longleftrightarrow> charge inc clock key win (w\<lparr>sw_calls := c\<rparr>) = (r, w')"
proof (cases "plan (sw_calls w) (sw_tick w)")
  case (At_Call m)
  obtain x v where c: "charge inc clock key win w = (x, v)" by fastforce
  have "w\<lparr>sw_calls := sw_calls w\<rparr> = w" by simp
  then show ?thesis
    using assms At_Call c by (intro exI [of _ "sw_calls w"]) (auto simp: atomic_store_def awaits_delayed_iff)
next
  case (On_Poll n m)
  then show ?thesis
    using assms by (intro exI [of _ "Suc (sw_calls w)"]) (auto simp: atomic_store_def awaits_charging)
qed

section \<open>Requests in sequence\<close>

text \<open>An inner service that answers at once with a function of the request.\<close>

definition handler_service ::
  "(('p, 'b) http_request \<Rightarrow> ('h, 'r) response) \<Rightarrow> ('w, unit, 'p, 'b, 'h, 'r, 'e) inner_service" where
  "handler_service respond =
     \<lparr>svc_poll_ready = (\<lambda>i w. (Ready (Inr ()), i, w)),
      svc_call = (\<lambda>i request w. (ready (Inr (respond request)), i, w)),
      svc_clone = (\<lambda>i w. (i, w))\<rparr>"

text \<open>
  A sequence of requests: each is called on the service the one before left, once it is ready, and
  awaited.
\<close>

inductive session ::
  "('w, 's, 'req, 'res, 'e) service \<Rightarrow> 's \<Rightarrow> 'w \<Rightarrow> 'req list \<Rightarrow> ('e + 'res) list \<Rightarrow> 'w \<Rightarrow> bool"
  for svc where
  session_nil: "session svc s w [] [] w"
| session_cons: "svc_poll_ready svc s w = (Ready (Inr ()), s0, w0) \<Longrightarrow>
     svc_call svc s0 request w0 = (fut, s', w1) \<Longrightarrow> awaits (=) fut w1 out w2 \<Longrightarrow>
     session svc s' w2 requests outs w' \<Longrightarrow> session svc s w (request # requests) (out # outs) w'"

inductive_simps session_Nil: "session svc s w [] outs w'"
inductive_simps session_Cons: "session svc s w (request # requests) outs w'"

lemma session_length: "session svc s w requests outs w' \<Longrightarrow> length outs = length requests"
  by (induction rule: session.induct) simp_all

text \<open>A quota provider that computes the limit from the request head at once.\<close>

definition pure_provider :: "(('p, unit) http_request \<Rightarrow> u64) \<Rightarrow> ('w, 'p) limit_provider" where
  "pure_provider lim_of request w = (ready (Inr (lim_of request)), w)"

lemma fixed_limit_pure: "fixed_limit n = pure_provider (\<lambda>_. n)"
  by (simp add: fun_eq_iff fixed_limit_def pure_provider_def)

text \<open>
  The limiter in front of the handler: no skip predicate, a key and a limit for every request.
\<close>

definition keyed_limiter ::
  "'p RateLimitConfig \<Rightarrow> (('p, unit) http_request \<Rightarrow> 'key) \<Rightarrow> ('key \<Rightarrow> string) \<Rightarrow>
    (('p, unit) http_request \<Rightarrow> u64) \<Rightarrow>
    (('p, 'b) http_request \<Rightarrow> ResponseReason \<Rightarrow> ('h, 'r) response) \<Rightarrow> 'w store \<Rightarrow>
    ('w, 'p, 'b, 'h, 'r, unit, 'key) rate_limit" where
  "keyed_limiter config key_of disp lim_of mk_response st =
     \<lparr>r_inner = (), r_key_extractor = pure_extractor (\<lambda>r. Inr (key_of r)) disp, r_store = st,
      r_limit_provider = pure_provider lim_of, r_response_factory = (\<lambda>q reason w. (mk_response q reason, w)),
      r_config = config\<lparr>cfg_skip_predicate := None\<rparr>\<rparr>"

text \<open>The charges the requests make, and the answer a request gets for the result of its charge.\<close>

fun charges_of ::
  "'p RateLimitConfig \<Rightarrow> (('p, unit) http_request \<Rightarrow> string) \<Rightarrow> (nat \<Rightarrow> 't) \<Rightarrow> nat \<Rightarrow>
    ('p, 'b) http_request list \<Rightarrow> 't charge list" where
  "charges_of config key clock n [] = []"
| "charges_of config key clock n (q # qs) =
     (clock n, scoped_key config (key (request_head q)), cfg_window config)
       # charges_of config key clock (Suc n) qs"

definition answer ::
  "('h, 'v) header_api \<Rightarrow> 'p RateLimitConfig \<Rightarrow> (('p, unit) http_request \<Rightarrow> u64) \<Rightarrow>
    (('p, 'b) http_request \<Rightarrow> ResponseReason \<Rightarrow> ('h, 'r) response) \<Rightarrow>
    (('p, 'b) http_request \<Rightarrow> ('h, 'r) response) \<Rightarrow> ('p, 'b) http_request \<Rightarrow>
    (RateLimitError, Usage) result \<Rightarrow> ('h, 'r) response" where
  "answer hdr config lim_of mk_response respond q r =
     (case decide config (lim_of (request_head q)) r of
        Admit p \<Rightarrow> append_rate_limit_fields hdr (respond (append_context q (metadata_of config p))) (metadata_of config p)
      | Limited p \<Rightarrow> append_rate_limited_response_headers hdr (mk_response q (Reason_RateLimited p)) (metadata_of config p)
      | Fail_Open e \<Rightarrow> respond q
      | Refuse e \<Rightarrow> mk_response q (Reason_Error e))"

section \<open>A session is a run of the store\<close>

lemma handler_ready [simp]:
  "svc_poll_ready (rate_limit_service hdr emit (handler_service respond)) rl w = (Ready (Inr ()), rl, w)"
  by (simp add: rate_limit_service_def poll_ready_def handler_service_def)

lemma report_silent: "report (\<lambda>_ w. w) config e w = w"
  by (simp add: report_event)

lemma concludes_answer:
  "concludes R hdr (\<lambda>_ w. w) (handler_service respond) config (\<lambda>q reason w. (mk_response q reason, w)) ()
     q (decide config (lim_of (request_head q)) r) w out w' \<longleftrightarrow>
   out = Inr (answer hdr config lim_of mk_response respond q r) \<and> w' = w"
  by (cases "decide config (lim_of (request_head q)) r")
    (auto simp: concludes_simps answer_def handler_service_def report_silent)

lemma decide_skip [simp]: "decide (config\<lparr>cfg_skip_predicate := x\<rparr>) = decide config"
  by (simp add: decide_def store_failed_def fun_eq_iff split: sum.split)

lemma answer_skip [simp]: "answer hdr (config\<lparr>cfg_skip_predicate := x\<rparr>) = answer hdr config"
  by (simp add: answer_def fun_eq_iff split: decision.split)

lemma scoped_key_skip [simp]: "scoped_key (config\<lparr>cfg_skip_predicate := x\<rparr>) = scoped_key config"
  by (simp add: scoped_key_def fun_eq_iff)

text \<open>One request: one increment under the scoped key, and the answer for its result.\<close>

definition behaves_atomic ::
  "'s store_world store \<Rightarrow> Duration \<Rightarrow> ('s, 't) increment_fun \<Rightarrow> (nat \<Rightarrow> 't) \<Rightarrow> bool" where
  "behaves_atomic st win inc clock \<longleftrightarrow> (\<exists>plan. \<forall>key. st key win = atomic_store inc clock plan key win)"

lemma memory_store_behaves: "behaves_atomic (memory_store cache clock) win (memory_increment cache) clock"
  unfolding behaves_atomic_def memory_store_atomic by blast

lemma redis_store_behaves:
  "checked_window_millis win = Inr ms \<Longrightarrow>
   behaves_atomic (redis_store_future lua api this clock network) win (redis_increment lua api this) clock"
  unfolding behaves_atomic_def using redis_store_atomic by blast

lemma keyed_request:
  fixes key_of :: "('p, unit) http_request \<Rightarrow> 'key" and inc :: "('s, 't) increment_fun"
  assumes "behaves_atomic st (cfg_window config) inc clock"
    and "svc_call (rate_limit_service hdr (\<lambda>_ w. w) (handler_service respond))
      (keyed_limiter config key_of disp lim_of mk_response st) q w = (fut, rl', w1)"
    and "inc (sw_state w) (clock (sw_tick w))
      (scoped_key config (disp (key_of (request_head q)))) (cfg_window config) = (r, s')"
  shows "rl' = keyed_limiter config key_of disp lim_of mk_response st"
    and "\<exists>c. \<forall>out w2. awaits (=) fut w1 out w2 \<longleftrightarrow>
      out = Inr (answer hdr config lim_of mk_response respond q r) \<and>
      w2 = w\<lparr>sw_state := s', sw_tick := Suc (sw_tick w), sw_calls := c\<rparr>"
proof -
  let ?rl = "keyed_limiter config key_of disp lim_of mk_response st"
  let ?key = "scoped_key config (disp (key_of (request_head q)))"
  show "rl' = ?rl"
    using assms(2)
    by (simp add: rate_limit_service_def call_def check_skip skips_def keyed_limiter_def
        handler_service_def pure_extractor_def pure_provider_def)
  obtain plan where plan: "\<And>key. st key (cfg_window config) = atomic_store inc clock plan key (cfg_window config)"
    using assms(1) by (auto simp: behaves_atomic_def)
  obtain sf v where st: "atomic_store inc clock plan ?key (cfg_window config) w = (sf, v)" by fastforce
  then obtain c where c: "\<And>x w'. awaits (=) sf v x w' \<longleftrightarrow>
      charge inc clock ?key (cfg_window config) (w\<lparr>sw_calls := c\<rparr>) = (x, w')"
    using awaits_atomic_store [OF st] by blast
  have ch: "charge inc clock ?key (cfg_window config) (w\<lparr>sw_calls := c\<rparr>) =
      (r, w\<lparr>sw_state := s', sw_tick := Suc (sw_tick w), sw_calls := c\<rparr>)"
    by (simp add: charge_def assms(3))
  have "svc_clone (handler_service respond) (r_inner ?rl) w = ((), w)"
    by (simp add: handler_service_def)
  note call = awaited_call_serves [OF this assms(2)]
  have "awaits (=) fut w1 out w2 \<longleftrightarrow> out = Inr (answer hdr config lim_of mk_response respond q r) \<and>
      w2 = w\<lparr>sw_state := s', sw_tick := Suc (sw_tick w), sw_calls := c\<rparr>" for out w2
  proof -
    have "awaits (=) fut w1 out w2 \<longleftrightarrow> lifecycle (=) hdr (\<lambda>_ w. w) (handler_service respond) (r_config ?rl)
      (r_response_factory ?rl) () q st (disp (key_of (request_head q)))
      (ready (Inr (lim_of (request_head q)))) w out w2"
      unfolding call
      by (subst serves.simps)
        (simp add: keyed_limiter_def skips_def pure_extractor_def pure_provider_def)
    also have "\<dots> \<longleftrightarrow> out = Inr (answer hdr config lim_of mk_response respond q r) \<and>
        w2 = w\<lparr>sw_state := s', sw_tick := Suc (sw_tick w), sw_calls := c\<rparr>"
      by (subst lifecycle.simps)
        (auto simp: keyed_limiter_def plan st c ch
          concludes_answer [where config = "config\<lparr>cfg_skip_predicate := None\<rparr>", simplified])
    finally show ?thesis .
  qed
  then show "\<exists>c. \<forall>out w2. awaits (=) fut w1 out w2 \<longleftrightarrow>
      out = Inr (answer hdr config lim_of mk_response respond q r) \<and>
      w2 = w\<lparr>sw_state := s', sw_tick := Suc (sw_tick w), sw_calls := c\<rparr>" by blast
qed

lemma session_run:
  fixes hdr :: "('h, 'v) header_api" and inc :: "('s, 't) increment_fun"
    and mk_response :: "('p, 'b) http_request \<Rightarrow> ResponseReason \<Rightarrow> ('h, 'r) response"
  assumes "behaves_atomic st (cfg_window config) inc clock"
    and "run_charges inc (sw_state w) (charges_of config (\<lambda>h. disp (key_of h)) clock (sw_tick w) qs) = (rs, s')"
  shows "\<exists>c. \<forall>(outs :: ('e, ('h, 'r) response) result list) w'.
    session (rate_limit_service hdr (\<lambda>_ w. w) (handler_service respond))
      (keyed_limiter config key_of disp lim_of mk_response st) w qs outs w' \<longleftrightarrow>
    outs = map2 (\<lambda>q r. Inr (answer hdr config lim_of mk_response respond q r)) qs rs \<and>
    w' = w\<lparr>sw_state := s', sw_tick := sw_tick w + length qs, sw_calls := c\<rparr>"
  using assms(2)
proof (induction qs arbitrary: w rs)
  case Nil
  then show ?case by (intro exI [of _ "sw_calls w"]) (auto simp: session_Nil)
next
  case (Cons q qs)
  let ?svc = "rate_limit_service hdr (\<lambda>_ w. w) (handler_service respond)"
  let ?rl = "keyed_limiter config key_of disp lim_of mk_response st"
  let ?answer = "\<lambda>q r. Inr (answer hdr config lim_of mk_response respond q r) :: ('e, ('h, 'r) response) result"
  obtain r s1 where i: "inc (sw_state w) (clock (sw_tick w))
      (scoped_key config (disp (key_of (request_head q)))) (cfg_window config) = (r, s1)" by fastforce
  obtain fut :: "('s store_world, ('e, ('h, 'r) response) result) future" and rl' w1
    where c: "svc_call ?svc ?rl q w = (fut, rl', w1)" using prod_cases3 by blast
  from keyed_request [OF assms(1) c i] obtain d where rl: "rl' = ?rl"
    and aw: "\<And>out w2. awaits (=) fut w1 out w2 \<longleftrightarrow>
      out = ?answer q r \<and> w2 = w\<lparr>sw_state := s1, sw_tick := Suc (sw_tick w), sw_calls := d\<rparr>" by blast
  let ?w = "w\<lparr>sw_state := s1, sw_tick := Suc (sw_tick w), sw_calls := d\<rparr>"
  obtain rs1 s2 where run: "run_charges inc (sw_state ?w)
      (charges_of config (\<lambda>h. disp (key_of h)) clock (sw_tick ?w) qs) = (rs1, s2)" by fastforce
  have rs: "rs = r # rs1" "s' = s2" using Cons.prems i run by simp_all
  have step: "session ?svc ?rl w (q # qs) outs w' \<longleftrightarrow>
      (\<exists>outs1. outs = ?answer q r # outs1 \<and> session ?svc ?rl ?w qs outs1 w')" for outs w'
    using aw rl by (auto simp: session_Cons c)
  from Cons.IH [OF run [folded rs(2)]] show ?case by (auto simp: step rs)
qed

text \<open>
  An extractor may fail on some requests; for those on which it succeeds only the keys matter.
\<close>

lemma extractor_call:
  fixes rl :: "('w, 'p, 'b, 'h, 'r, unit, 'key) rate_limit"
  assumes "f (request_head q) = Inr (key_of (request_head q))"
  shows "svc_call (rate_limit_service hdr emit (handler_service respond))
      (rl\<lparr>r_key_extractor := pure_extractor f disp\<rparr>) q w =
    (case svc_call (rate_limit_service hdr emit (handler_service respond))
        (rl\<lparr>r_key_extractor := pure_extractor (\<lambda>h. Inr (key_of h)) disp\<rparr>) q w of
       (fut, _, w') \<Rightarrow> (fut, rl\<lparr>r_key_extractor := pure_extractor f disp\<rparr>, w'))"
  using assms
  by (simp add: rate_limit_service_def call_def check_skip handler_service_def pure_extractor_def
      response_future_skipped_def Let_def split: prod.split bool.split)

lemma handler_call_keeps:
  fixes rl :: "('w, 'p, 'b, 'h, 'r, unit, 'key) rate_limit"
  assumes "svc_call (rate_limit_service hdr emit (handler_service respond)) rl q w = (fut, rl', w')"
  shows "rl' = rl"
  using assms
  by (auto simp: rate_limit_service_def call_def check_skip handler_service_def
      response_future_skipped_def Let_def split: prod.splits bool.splits sum.splits)

lemma session_extractor:
  fixes rl :: "('w, 'p, 'b, 'h, 'r, unit, 'key) rate_limit"
    and outs :: "('e, ('h, 'r) response) result list"
  assumes "\<forall>q \<in> set qs. f (request_head q) = Inr (key_of (request_head q))"
  shows "session (rate_limit_service hdr emit (handler_service respond))
      (rl\<lparr>r_key_extractor := pure_extractor f disp\<rparr>) w qs outs w' \<longleftrightarrow>
    session (rate_limit_service hdr emit (handler_service respond))
      (rl\<lparr>r_key_extractor := pure_extractor (\<lambda>h. Inr (key_of h)) disp\<rparr>) w qs outs w'"
  using assms
proof (induction qs arbitrary: w outs)
  case Nil
  then show ?case by (simp add: session_Nil)
next
  case (Cons q qs)
  let ?svc = "rate_limit_service hdr emit (handler_service respond)"
  let ?g = "rl\<lparr>r_key_extractor := pure_extractor (\<lambda>h. Inr (key_of h)) disp\<rparr>"
  obtain fut :: "('w, ('e, ('h, 'r) response) result) future" and rl1 w1
    where c: "svc_call ?svc ?g q w = (fut, rl1, w1)" using prod_cases3 by blast
  have "f (request_head q) = Inr (key_of (request_head q))" using Cons.prems by simp
  note call = extractor_call [where hdr = hdr and emit = emit and respond = respond and rl = rl and disp = disp
      and w = w, of f q key_of, OF this]
  show ?case using Cons by (auto simp: session_Cons call c handler_call_keeps [OF c])
qed

section \<open>The answers of one client\<close>

text \<open>The clock moves on between increments, and within an increment.\<close>

definition clock_runs ::
  "('t \<Rightarrow> Duration \<Rightarrow> bool) \<Rightarrow> ('t \<Rightarrow> int) \<Rightarrow> ('t \<Rightarrow> int) \<Rightarrow> Duration \<Rightarrow> (nat \<Rightarrow> 't) \<Rightarrow> bool" where
  "clock_runs valid start fin win clock \<longleftrightarrow>
     (\<forall>n. valid (clock n) win \<and> fin (clock n) \<le> start (clock (Suc n)))"

text \<open>The default factory as a function of the request and the reason.\<close>

definition default_answer ::
  "('h, 'v) header_api \<Rightarrow> 'r \<Rightarrow> ('p, 'b) http_request \<Rightarrow> ResponseReason \<Rightarrow> ('h, 'r) response" where
  "default_answer hdr b q reason = fst (default_build hdr b q reason ())"

lemma answer_status:
  assumes "\<And>q. status (respond q) \<noteq> TOO_MANY_REQUESTS" "0 < unat (used u)"
  shows "status (answer hdr config lim_of (default_answer hdr b) respond q (Inr u)) \<noteq> TOO_MANY_REQUESTS \<longleftrightarrow>
    admitted nm w (lim_of (request_head q)) u"
  using assms
  by (simp add: answer_def decide_usage admitted_iff default_answer_def default_build_def rl_frame)

text \<open>What the client with scoped key \<open>k\<close> sees: whether each of its requests was let through.\<close>

fun let_through :: "('e, ('h, 'r) response) result \<Rightarrow> bool" where
  "let_through (Inr response) \<longleftrightarrow> status response \<noteq> TOO_MANY_REQUESTS"
| "let_through (Inl e) \<longleftrightarrow> False"

text \<open>All requests that share the key \<open>k\<close> are given the limit \<open>lim\<close>.\<close>

definition same_limit ::
  "'p RateLimitConfig \<Rightarrow> (('p, unit) http_request \<Rightarrow> string) \<Rightarrow> (('p, unit) http_request \<Rightarrow> u64) \<Rightarrow>
    string \<Rightarrow> u64 \<Rightarrow> ('p, 'b) http_request list \<Rightarrow> bool" where
  "same_limit config key lim_of k lim qs \<longleftrightarrow>
     (\<forall>q \<in> set qs. scoped_key config (key (request_head q)) = k \<longrightarrow> lim_of (request_head q) = lim)"

lemma results_of_answers:
  assumes "\<And>q. status (respond q) \<noteq> TOO_MANY_REQUESTS"
    and "results_of k (charges_of config key clock n qs) rs = map Inr us"
    and "\<And>u. u \<in> set us \<Longrightarrow> 0 < unat (used u)"
    and "length rs = length qs" "same_limit config key lim_of k lim qs"
  shows "map let_through (results_of k (charges_of config key clock n qs)
      (map2 (\<lambda>q r. Inr (answer hdr config lim_of (default_answer hdr b) respond q r)) qs rs)) =
    map (admitted nm w lim) us"
  using assms(4,2,3,5)
proof (induction rs qs arbitrary: n us rule: list_induct2)
  case (Cons r rs q qs)
  let ?k = "scoped_key config (key (request_head q))"
  have lims: "same_limit config key lim_of k lim qs" using Cons.prems(3) by (simp add: same_limit_def)
  show ?case
  proof (cases "?k = k")
    case True
    then obtain u us1 where us: "us = u # us1" "r = Inr u"
      "results_of k (charges_of config key clock (Suc n) qs) rs = map Inr us1"
      using Cons.prems(1) by (cases us) auto
    have "0 < unat (used u)" using us(1) Cons.prems(2) by simp
    moreover have "lim_of (request_head q) = lim" using Cons.prems(3) True by (simp add: same_limit_def)
    ultimately have "let_through (Inr (answer hdr config lim_of (default_answer hdr b) respond q r)) \<longleftrightarrow>
        admitted nm w lim u"
      using answer_status [where hdr = hdr and config = config and lim_of = lim_of and b = b and nm = nm
          and w = w and respond = respond and q = q and u = u, OF assms(1)] by (simp add: us(2))
    then show ?thesis
      using Cons.IH [OF us(3) _ lims] Cons.prems(2) us(1) True by simp
  next
    case False
    then show ?thesis using Cons.IH [OF _ Cons.prems(2) lims] Cons.prems(1) by simp
  qed
qed simp

lemma length_charges_of [simp]: "length (charges_of config key clock n qs) = length qs"
  by (induction qs arbitrary: n) simp_all

lemma length_run_charges: "run_charges increment s cs = (rs, s') \<Longrightarrow> length rs = length cs"
proof (induction cs arbitrary: s rs)
  case (Cons c cs)
  then show ?case by (cases c) (auto split: prod.splits)
qed simp

text \<open>All increments between two states of the clock happen before any window they may open ends.\<close>

definition one_window :: "('t \<Rightarrow> int option) \<Rightarrow> ('t \<Rightarrow> int) \<Rightarrow> (nat \<Rightarrow> 't) \<Rightarrow> nat \<Rightarrow> nat \<Rightarrow> bool" where
  "one_window ends fin clock n0 n \<longleftrightarrow>
     (\<forall>m. n0 \<le> m \<and> m < n \<longrightarrow> (\<exists>e. ends (clock m) = Some e \<and> fin (clock (n - 1)) < e))"

lemma set_charges_of:
  "(ts, k, win) \<in> set (charges_of config key clock n qs) \<Longrightarrow>
   win = cfg_window config \<and> (\<exists>m. n \<le> m \<and> m < n + length qs \<and> ts = clock m)"
proof (induction qs arbitrary: n)
  case (Cons q qs)
  then show ?case using Cons.IH [of "Suc n"] by (auto intro: exI [of _ n]) (metis Suc_leD)
qed simp

lemma results_of_zip:
  "length outs = length qs \<Longrightarrow> results_of k (charges_of config key clock n qs) outs =
     map snd (filter (\<lambda>(q, out). scoped_key config (key (request_head q)) = k) (zip qs outs))"
  by (induction outs qs arbitrary: n rule: list_induct2) simp_all

lemma charges_on_keys:
  "charges_on k (charges_of config key clock n qs) =
     length (filter (\<lambda>q. scoped_key config (key (request_head q)) = k) qs)"
  by (induction qs arbitrary: n) simp_all

text \<open>When the store counts the requests of \<open>k\<close> one by one, the limit decides which are let through.\<close>

lemma counted_let_through:
  fixes outs :: "('e, ('h, 'r) response) result list" and hdr :: "('h, 'v) header_api"
  assumes "behaves_atomic st (cfg_window config) inc clock"
    and "\<And>q. status (respond q) \<noteq> TOO_MANY_REQUESTS"
    and "same_limit config (\<lambda>h. disp (key_of h)) lim_of k lim qs"
    and "session (rate_limit_service hdr (\<lambda>_ w. w) (handler_service respond))
      (keyed_limiter config key_of disp lim_of (default_answer hdr b) st) w qs outs w'"
    and "cs = charges_of config (\<lambda>h. disp (key_of h)) clock (sw_tick w) qs"
    and "run_charges inc (sw_state w) cs = (rs, s')"
    and "counts_of k cs rs = [1..<Suc (charges_on k cs)]"
  shows "map let_through (results_of k cs outs) =
    replicate (min (unat lim) (charges_on k cs)) True @ replicate (charges_on k cs - unat lim) False"
proof -
  have outs: "outs = map2 (\<lambda>q r. Inr (answer hdr config lim_of (default_answer hdr b) respond q r)) qs rs"
    using session_run [where disp = disp and key_of = key_of, OF assms(1) assms(6) [unfolded assms(5)]] assms(4)
    by blast
  have "length (usages_of k cs rs) = charges_on k cs"
    using arg_cong [OF assms(7), of length] by (simp add: counts_of_def)
  then have results: "results_of k cs rs = map Inr (usages_of k cs rs)"
    using results_of_usages [of k cs rs] length_results_le [of k cs rs] by simp
  have pos: "0 < unat (used u)" if "u \<in> set (usages_of k cs rs)" for u
  proof -
    have "unat (used u) \<in> set (counts_of k cs rs)" using that by (simp add: counts_of_def)
    then show ?thesis unfolding assms(7) by auto
  qed
  have "length rs = length qs" using length_run_charges [OF assms(6)] assms(5) by simp
  then have "map let_through (results_of k cs outs) = map (admitted nm w0 lim) (usages_of k cs rs)" for nm w0
    unfolding outs assms(5)
    by (intro results_of_answers [OF assms(2) results [unfolded assms(5)] pos [unfolded assms(5)] _ assms(3)])
  then show ?thesis using admitted_counts [OF assms(7)] by simp
qed

context fixed_window_store
begin

lemma clock_le: "clock_runs valid start fin win clock \<Longrightarrow> start (clock n) \<le> fin (clock n)"
  unfolding clock_runs_def using valid_times by blast

lemma in_order_charges:
  "clock_runs valid start fin (cfg_window config) clock \<Longrightarrow> t \<le> start (clock n) \<Longrightarrow>
   in_order start fin t (charges_of config key clock n qs)"
proof (induction qs arbitrary: t n)
  case (Cons q qs)
  then show ?case using clock_le by (simp add: clock_runs_def)
qed simp

lemma fin_mono: "clock_runs valid start fin win clock \<Longrightarrow> fin (clock n) \<le> fin (clock (n + m))"
proof (induction m)
  case (Suc m)
  then have "fin (clock (n + m)) \<le> start (clock (Suc (n + m)))"
    by (simp add: clock_runs_def)
  then show ?case using Suc clock_le [OF Suc.prems, of "Suc (n + m)"] by simp
qed simp

lemma charges_before:
  assumes "clock_runs valid start fin (cfg_window config) clock" "fin (clock (n + length qs)) < e"
  shows "\<forall>(ts, k, win) \<in> set (charges_of config key clock (Suc n) qs). valid ts win \<and> fin ts < e"
  using assms(2)
proof (induction qs arbitrary: n)
  case (Cons q qs)
  have "fin (clock (Suc n)) \<le> fin (clock (Suc n + length qs))"
    by (rule fin_mono [OF assms(1)])
  then show ?case using Cons.IH [of "Suc n"] Cons.prems assms(1) by (simp add: clock_runs_def)
qed simp

text \<open>
  A session over a store that keeps the contract: within the window its first request opens, the
  client is let through exactly as often as its limit says.
\<close>

lemma session_admits:
  fixes outs :: "('e, ('h, 'r) response) result list" and hdr :: "('h, 'v) header_api"
  assumes "behaves_atomic st (cfg_window config) increment clock"
    and "invar (sw_state w)" "clock_runs valid start fin (cfg_window config) clock"
    and "\<And>q. status (respond q) \<noteq> TOO_MANY_REQUESTS"
    and "k = scoped_key config (disp (key_of (request_head q)))"
    and "same_limit config (\<lambda>h. disp (key_of h)) lim_of k lim (q # qs)"
    and "live (sw_state w) (start (clock (sw_tick w))) k = None"
    and "opens (start (clock (sw_tick w))) (cfg_window config) = Some e"
    and "fin (clock (sw_tick w + length qs)) < e" "length qs < cap"
    and "session (rate_limit_service hdr (\<lambda>_ w. w) (handler_service respond))
      (keyed_limiter config key_of disp lim_of (default_answer hdr b) st) w (q # qs) outs w'"
    and "cs = charges_of config (\<lambda>h. disp (key_of h)) clock (sw_tick w) (q # qs)"
  shows "map let_through (results_of k cs outs) =
    replicate (min (unat lim) (charges_on k cs)) True @ replicate (charges_on k cs - unat lim) False"
proof -
  let ?n = "sw_tick w" and ?key = "\<lambda>h. disp (key_of h)"
  let ?cs1 = "charges_of config ?key clock (Suc ?n) qs"
  have cs: "cs = (clock ?n, k, cfg_window config) # ?cs1" by (simp add: assms(5,12))
  obtain rs s' where run: "run_charges increment (sw_state w) cs = (rs, s')" by (rule prod.exhaust)
  have first: "fin (clock ?n) < e" using fin_mono [OF assms(3), of ?n "length qs"] assms(9) by simp
  have order: "in_order start fin (start (clock ?n)) ((clock ?n, k, cfg_window config) # ?cs1)"
    using in_order_charges [OF assms(3) order_refl, of ?n ?key "q # qs"] by (simp add: assms(5))
  have before: "\<forall>(ts, k', win) \<in> set ?cs1. valid ts win \<and> (k' = k \<longrightarrow> fin ts < e)"
    using charges_before [OF assms(3,9), of ?key] by fastforce
  have valid: "valid (clock ?n) (cfg_window config)" using assms(3) by (simp add: clock_runs_def)
  have "charges_on k ?cs1 \<le> length qs"
    by (metis charges_on_def length_charges_of length_filter_le)
  then have cap: "Suc (charges_on k ?cs1) \<le> cap" using assms(10) by simp
  note window = assms(2,7,8) first in_order_key_order [OF order order.refl] valid before cap run [unfolded cs]
  have "counts_of k cs rs = [1..<Suc (charges_on k cs)]"
    using counts_in_new_window [OF window, folded cs] by (simp add: cs)
  from counted_let_through [OF assms(1,4,6,11,12) run this] show ?thesis .
qed

lemma fin_le: "clock_runs valid start fin win clock \<Longrightarrow> m < n \<Longrightarrow> fin (clock m) \<le> fin (clock (n - 1))"
  using fin_mono [of win clock m "n - 1 - m"] by simp

text \<open>
  The same for a client whose first request may come later, as long as the whole session fits
  into one window length.
\<close>

lemma session_within:
  fixes outs :: "('e, ('h, 'r) response) result list" and hdr :: "('h, 'v) header_api"
  assumes "behaves_atomic st (cfg_window config) increment clock"
    and "invar (sw_state w)" "clock_runs valid start fin (cfg_window config) clock"
    and "\<And>q. status (respond q) \<noteq> TOO_MANY_REQUESTS"
    and "same_limit config (\<lambda>h. disp (key_of h)) lim_of k lim qs"
    and "live (sw_state w) (start (clock (sw_tick w))) k = None"
    and "one_window (\<lambda>ts. opens (start ts) (cfg_window config)) fin clock (sw_tick w) (sw_tick w + length qs)"
    and "length qs \<le> cap"
    and "session (rate_limit_service hdr (\<lambda>_ w. w) (handler_service respond))
      (keyed_limiter config key_of disp lim_of (default_answer hdr b) st) w qs outs w'"
    and "cs = charges_of config (\<lambda>h. disp (key_of h)) clock (sw_tick w) qs"
  shows "map let_through (results_of k cs outs) =
    replicate (min (unat lim) (charges_on k cs)) True @ replicate (charges_on k cs - unat lim) False"
proof -
  let ?win = "cfg_window config" and ?n = "sw_tick w + length qs"
  obtain rs s' where run: "run_charges increment (sw_state w) cs = (rs, s')" by (rule prod.exhaust)
  have ticks: "win = ?win \<and> (\<exists>m. sw_tick w \<le> m \<and> m < ?n \<and> ts = clock m)" if "(ts, k', win) \<in> set cs" for ts k' win
    using set_charges_of [OF that [unfolded assms(10)]] by simp
  have valid: "\<forall>(ts, k', win) \<in> set cs. valid ts win"
    using ticks assms(3) by (auto simp: clock_runs_def)
  have before: "\<forall>(ts, k', win) \<in> set cs. \<exists>e. opens (start ts) win = Some e \<and> (\<forall>(ts', _) \<in> set cs. fin ts' < e)"
  proof clarify
    fix ts k' win assume "(ts, k', win) \<in> set cs"
    from ticks [OF this] obtain e where e: "opens (start ts) win = Some e" "fin (clock (?n - 1)) < e"
      using assms(7) by (auto simp: one_window_def)
    have "fin ts' < e" if z: "(ts', z) \<in> set cs" for ts' z
    proof -
      obtain m where "m < ?n" "ts' = clock m" using ticks z by (cases z) blast
      with fin_le [OF assms(3) this(1)] e(2) show ?thesis by simp
    qed
    with e(1) show "\<exists>e. opens (start ts) win = Some e \<and> (\<forall>(ts', _) \<in> set cs. fin ts' < e)" by blast
  qed
  have order: "in_order start fin (start (clock (sw_tick w))) cs"
    unfolding assms(10) using in_order_charges [OF assms(3)] by blast
  have "charges_on k cs \<le> length qs"
    unfolding assms(10) charges_on_def by (metis length_charges_of length_filter_le)
  then have "charges_on k cs \<le> cap" using assms(8) by simp
  note counts = counts_within_window [OF assms(2,6) order valid before this run]
  from counted_let_through [OF assms(1,4,5,9,10) run counts] show ?thesis .
qed

end

section \<open>Properties\<close>

text \<open>
  C1.  The rate limiter over the in-memory store, end to end.  Take any sequence of requests,
  each answered before the next is made, to a handler behind the middleware, with keys and limits
  computed from the request, and a client whose first request finds no open window of its key.
  As long as the window that request opens lasts, exactly the first \<open>lim\<close> requests of that
  client are let through and every later one is answered with status 429, whatever other clients
  do in between.
\<close>

theorem session_admits_limit:
  fixes outs :: "('e, ('h, 'r) response) result list" and hdr :: "('h, 'v) header_api"
    and cache :: "'c cache_api"
  assumes "cache_api_ok cache" "memory_invar cache (sw_state w)"
    and "clock_runs (\<lambda>ts win. valid_times ts) memory_start memory_fin (cfg_window config) clock"
    and "\<And>q. status (respond q) \<noteq> TOO_MANY_REQUESTS"
    and "k = scoped_key config (disp (key_of (request_head q)))"
    and "same_limit config (\<lambda>h. disp (key_of h)) lim_of k lim (q # qs)"
    and "memory_live cache (sw_state w) (memory_start (clock (sw_tick w))) k = None"
    and "checked_add (now_in_closure (clock (sw_tick w))) (cfg_window config) = Some e"
    and "stored_at (clock (sw_tick w + length qs)) < e" "length qs < 2 ^ 64 - 1"
    and "session (rate_limit_service hdr (\<lambda>_ w. w) (handler_service respond))
      (keyed_limiter config key_of disp lim_of (default_answer hdr b) (memory_store cache clock))
      w (q # qs) outs w'"
    and "cs = charges_of config (\<lambda>h. disp (key_of h)) clock (sw_tick w) (q # qs)"
  shows "map let_through (results_of k cs outs) =
    replicate (min (unat lim) (charges_on k cs)) True @ replicate (charges_on k cs - unat lim) False"
proof -
  have opens: "memory_opens (memory_start (clock (sw_tick w))) (cfg_window config) = Some (instant_nanos e)"
    using assms(8) by (simp add: memory_opens_def memory_start_def)
  have last: "memory_fin (clock (sw_tick w + length qs)) < instant_nanos e"
    using assms(9) by (simp add: memory_fin_def less_Instant_def)
  show ?thesis
    by (rule fixed_window_store.session_admits [OF memory_fixed_window [OF assms(1)] memory_store_behaves
      assms(2-7) opens last assms(10-12)])
qed

text \<open>
  C8.  The same over the Redis store, with either build of the increment, and with any number of
  polls before the server executes a request and before its reply arrives.
\<close>

theorem redis_session_admits_limit:
  fixes outs :: "('e, ('h, 'r) response) result list" and hdr :: "('h, 'v) header_api"
    and api :: "'d redis_api"
  assumes "redis_api_ok api" "redis_invar lua api this (sw_state w)"
    and "checked_window_millis (cfg_window config) = Inr ms"
    and "clock_runs (redis_valid lua) t_first t_first (cfg_window config) clock"
    and "\<And>q. status (respond q) \<noteq> TOO_MANY_REQUESTS"
    and "k = scoped_key config (disp (key_of (request_head q)))"
    and "same_limit config (\<lambda>h. disp (key_of h)) lim_of k lim (q # qs)"
    and "redis_live api this (sw_state w) (t_first (clock (sw_tick w))) k = None"
    and "t_first (clock (sw_tick w + length qs)) < t_first (clock (sw_tick w)) + sint ms"
    and "length qs < nat (horizon lua)"
    and "session (rate_limit_service hdr (\<lambda>_ w. w) (handler_service respond))
      (keyed_limiter config key_of disp lim_of (default_answer hdr b)
        (redis_store_future lua api this clock network))
      w (q # qs) outs w'"
    and "cs = charges_of config (\<lambda>h. disp (key_of h)) clock (sw_tick w) (q # qs)"
  shows "map let_through (results_of k cs outs) =
    replicate (min (unat lim) (charges_on k cs)) True @ replicate (charges_on k cs - unat lim) False"
proof -
  have opens: "redis_opens (t_first (clock (sw_tick w))) (cfg_window config) =
      Some (t_first (clock (sw_tick w)) + sint ms)"
    using assms(3) by (simp add: redis_opens_def)
  show ?thesis
    by (rule fixed_window_store.session_admits [OF redis_fixed_window [OF assms(1)] redis_store_behaves
      [OF assms(3)] assms(2,4-8) opens assms(9-12)])
qed

section \<open>Witnesses\<close>

definition sample_clock :: "nat \<Rightarrow> op_times" where
  "sample_clock n = times_at (int (min n 50))"

definition sample_redis_clock :: "nat \<Rightarrow> redis_times" where
  "sample_redis_clock n = redis_at (int (min n 50))"

definition sample_network :: "nat \<Rightarrow> nat \<times> nat" where
  "sample_network n = (n + 1, 2)"

definition sample_handler :: "(unit, unit) http_request \<Rightarrow> ((string \<times> string) list, unit) response" where
  "sample_handler q = response_new list_header_api ()"

definition sample_session ::
  "'w store \<Rightarrow> 'w \<Rightarrow> (string, ((string \<times> string) list, unit) response) result list \<Rightarrow> 'w \<Rightarrow> bool" where
  "sample_session st w outs w' \<longleftrightarrow>
     session (rate_limit_service list_header_api (\<lambda>_ w. w) (handler_service sample_handler))
       (keyed_limiter sample_config (\<lambda>_. ''caller'') id (\<lambda>_. 1) (default_answer list_header_api ()) st)
       w [sample_request, sample_request] outs w'"

lemma sample_handler_passes: "\<And>q. status (sample_handler q) \<noteq> TOO_MANY_REQUESTS"
  by (simp add: sample_handler_def response_new_def status_defs)

lemma sample_key:
  "make_key ''api'' ''caller'' = scoped_key sample_config (id ((\<lambda>_. ''caller'') (request_head sample_request)))"
  by (simp add: scoped_key_def sample_config_def)

lemma sample_same_limit: "same_limit sample_config key (\<lambda>_. 1) k 1 qs"
  by (simp add: same_limit_def)

lemma sample_charges_on:
  "charges_on (make_key ''api'' ''caller'')
     (charges_of sample_config (\<lambda>h. ''caller'') clock 0 [sample_request, sample_request]) = 2"
  using sample_key by (simp add: id_def)

lemma sample_session_exists:
  assumes "behaves_atomic st (cfg_window sample_config) inc clock"
  shows "\<exists>outs w'. sample_session st w outs w'"
proof -
  obtain rs s' where "run_charges inc (sw_state w)
      (charges_of sample_config (\<lambda>h. id ''caller'') clock (sw_tick w) [sample_request, sample_request]) = (rs, s')"
    by (rule prod.exhaust)
  from session_run [where disp = id and key_of = "\<lambda>_. ''caller''", OF assms this]
  show ?thesis unfolding sample_session_def by blast
qed

lemma sample_window: "cfg_window sample_config = from_secs 60"
  by (simp add: sample_config_def from_secs_def)

lemma sample_clock_runs: "clock_runs (\<lambda>ts win. valid_times ts) memory_start memory_fin win sample_clock"
  unfolding clock_runs_def sample_clock_def
  by (simp add: valid_times_at) (auto simp: times_at_def memory_fin_def memory_start_def Let_def min_def)

lemma sample_redis_clock_runs:
  "clock_runs (redis_valid True) t_first t_first (cfg_window sample_config) sample_redis_clock"
  unfolding clock_runs_def sample_redis_clock_def sample_window
  by (simp add: redis_valid_at) (auto simp: redis_at_def min_def)

theorem session_admits_limit_witness:
  "\<exists>outs w'. sample_session (memory_store map_cache_api sample_clock)
       \<lparr>sw_state = memory_store_new map_cache_api, sw_tick = 0, sw_calls = 0\<rparr> outs w' \<and>
     map let_through (results_of (make_key ''api'' ''caller'')
       (charges_of sample_config (\<lambda>h. id ''caller'') sample_clock 0 [sample_request, sample_request]) outs)
       = [True, False]"
proof -
  let ?w = "\<lparr>sw_state = memory_store_new map_cache_api, sw_tick = 0, sw_calls = 0\<rparr>"
  let ?K = "make_key ''api'' ''caller''"
  let ?cs = "charges_of sample_config (\<lambda>h. id ''caller'') sample_clock (sw_tick ?w) [sample_request, sample_request]"
  obtain outs w' where session: "sample_session (memory_store map_cache_api sample_clock) ?w outs w'"
    using sample_session_exists [OF memory_store_behaves] by blast
  have absent: "memory_live map_cache_api (sw_state ?w) (memory_start (sample_clock (sw_tick ?w))) ?K = None"
    by (simp add: memory_live_def mc.get_new memory_store_new_def)
  have opens: "checked_add (now_in_closure (sample_clock (sw_tick ?w))) (cfg_window sample_config)
      = Some (Instant 60000000000)"
    by (simp add: checked_add_def sample_clock_def times_at_def sample_config_def instant_max_def Let_def dur_nanos_def)
  have before: "stored_at (sample_clock (sw_tick ?w + length [sample_request])) < Instant 60000000000"
    by (simp add: sample_clock_def times_at_def less_Instant_def Let_def)
  have small: "length [sample_request] < 2 ^ 64 - 1" by simp
  have inv: "memory_invar map_cache_api (sw_state ?w)" using mc.invar_new by simp
  note all = session_admits_limit [OF map_cache_api_ok inv sample_clock_runs sample_handler_passes sample_key
      sample_same_limit absent opens before small session [unfolded sample_session_def] refl]
  have "map let_through (results_of ?K ?cs outs) = [True, False]"
    using all by (simp add: sample_charges_on numeral_2_eq_2 del: charges_of.simps)
  then show ?thesis using session by (intro exI conjI) (assumption, simp del: charges_of.simps)
qed

theorem redis_session_admits_limit_witness:
  "\<exists>outs w'. sample_session
       (redis_store_future True map_redis_api redis_store_new sample_redis_clock sample_network)
       \<lparr>sw_state = (\<lambda>_. None), sw_tick = 0, sw_calls = 0\<rparr> outs w' \<and>
     map let_through (results_of (make_key ''api'' ''caller'')
       (charges_of sample_config (\<lambda>h. id ''caller'') sample_redis_clock 0 [sample_request, sample_request]) outs)
       = [True, False]"
proof -
  let ?st = "redis_store_future True map_redis_api redis_store_new sample_redis_clock sample_network"
  let ?w = "\<lparr>sw_state = (\<lambda>_. None), sw_tick = 0, sw_calls = 0\<rparr> :: map_redis store_world"
  let ?K = "make_key ''api'' ''caller''"
  let ?cs = "charges_of sample_config (\<lambda>h. id ''caller'') sample_redis_clock (sw_tick ?w) [sample_request, sample_request]"
  have ms: "checked_window_millis (cfg_window sample_config) = Inr 60000"
    by (simp add: sample_window checked_millis_secs)
  obtain outs w' where session: "sample_session ?st ?w outs w'"
    using sample_session_exists [OF redis_store_behaves [OF ms]] by blast
  have absent: "redis_live map_redis_api redis_store_new (sw_state ?w) (t_first (sample_redis_clock (sw_tick ?w))) ?K = None"
    by (simp add: redis_live_def map_redis_api_def map_redis_view_def)
  have before: "t_first (sample_redis_clock (sw_tick ?w + length [sample_request])) <
      t_first (sample_redis_clock (sw_tick ?w)) + sint (60000 :: i64)"
    by (simp add: sample_redis_clock_def redis_at_def)
  have small: "length [sample_request] < nat (horizon True)" by (simp add: horizon_def)
  have inv: "redis_invar True map_redis_api redis_store_new (sw_state ?w)" using empty_redis by simp
  note all = redis_session_admits_limit [OF map_redis_api_ok inv ms sample_redis_clock_runs sample_handler_passes sample_key
      sample_same_limit absent before small session [unfolded sample_session_def] refl]
  have "map let_through (results_of ?K ?cs outs) = [True, False]"
    using all by (simp add: sample_charges_on numeral_2_eq_2 del: charges_of.simps)
  then show ?thesis using session by (intro exI conjI) (assumption, simp del: charges_of.simps)
qed

end
