(* ===== verification/RL_Executor.thy ===== *)
theory RL_Executor
  imports RL_Session "HOL-Library.Multiset"
begin

text \<open>
  Concurrent requests.  An executor calls the service for requests as they arrive and polls
  their response futures in any order, with any number of requests in flight; it may also drop a
  future before it is ready.  Every such execution gives the answers of a sequence of requests
  made one after the other, in the order in which their increments took effect.
\<close>

section \<open>The executor\<close>

record ('w, 's, 'req, 'out) executor =
  ex_service :: 's
  ex_world :: 'w
  ex_running :: "('req \<times> ('w, 'out) future) list"
  ex_done :: "('req \<times> 'out) list"
  ex_dropped :: "'req list"

definition executor_start :: "'s \<Rightarrow> 'w \<Rightarrow> ('w, 's, 'req, 'out) executor" where
  "executor_start s w = \<lparr>ex_service = s, ex_world = w, ex_running = [], ex_done = [], ex_dropped = []\<rparr>"

text \<open>
  A request arrives once the service is ready for it; a future in flight is polled, and is put
  back when it is pending or yields the answer; a future in flight is dropped.
\<close>

inductive executor_step ::
  "('w, 's, 'req, 'res, 'e) service \<Rightarrow> ('w, 's, 'req, 'e + 'res) executor \<Rightarrow>
    ('w, 's, 'req, 'e + 'res) executor \<Rightarrow> bool" for svc where
  arrives: "svc_poll_ready svc (ex_service x) (ex_world x) = (Ready (Inr ()), s1, w1) \<Longrightarrow>
     svc_call svc s1 q w1 = (fut, s2, w2) \<Longrightarrow>
     executor_step svc x (x\<lparr>ex_service := s2, ex_world := w2, ex_running := ex_running x @ [(q, fut)]\<rparr>)"
| polled_pending: "ex_running x = before @ (q, fut) # after \<Longrightarrow>
     poll_future fut (ex_world x) = (Pending fut', w') \<Longrightarrow>
     executor_step svc x (x\<lparr>ex_world := w', ex_running := before @ (q, fut') # after\<rparr>)"
| polled_ready: "ex_running x = before @ (q, fut) # after \<Longrightarrow>
     poll_future fut (ex_world x) = (Ready out, w') \<Longrightarrow>
     executor_step svc x
       (x\<lparr>ex_world := w', ex_running := before @ after, ex_done := (q, out) # ex_done x\<rparr>)"
| dropped: "ex_running x = before @ (q, fut) # after \<Longrightarrow>
     executor_step svc x (x\<lparr>ex_running := before @ after, ex_dropped := q # ex_dropped x\<rparr>)"

inductive executes ::
  "('w, 's, 'req, 'res, 'e) service \<Rightarrow> 's \<Rightarrow> 'w \<Rightarrow> ('w, 's, 'req, 'e + 'res) executor \<Rightarrow> bool"
  for svc s w where
  executes_start: "executes svc s w (executor_start s w)"
| executes_step: "executes svc s w x \<Longrightarrow> executor_step svc x y \<Longrightarrow> executes svc s w y"

section \<open>Requests in flight\<close>

text \<open>
  Where a request stands: not polled yet, its increment not performed for \<open>n\<close> more polls, or its
  increment performed with a result that is reported in \<open>m\<close> polls.
\<close>

datatype task = Fresh | Waiting nat nat | Charged nat "(RateLimitError, Usage) result"

text \<open>What the limiter and its handler consist of.\<close>

record ('s, 't, 'p, 'b, 'h, 'r, 'v, 'key) deployment =
  dp_hdr :: "('h, 'v) header_api"
  dp_config :: "'p RateLimitConfig"
  dp_key :: "('p, unit) http_request \<Rightarrow> 'key"
  dp_disp :: "'key \<Rightarrow> string"
  dp_limit :: "('p, unit) http_request \<Rightarrow> u64"
  dp_factory :: "('p, 'b) http_request \<Rightarrow> ResponseReason \<Rightarrow> ('h, 'r) response"
  dp_handler :: "('p, 'b) http_request \<Rightarrow> ('h, 'r) response"
  dp_store :: "'s store_world store"
  dp_increment :: "('s, 't) increment_fun"
  dp_clock :: "nat \<Rightarrow> 't"
  dp_plan :: "nat \<Rightarrow> nat \<Rightarrow> charge_plan"

definition dp_ok :: "('s, 't, 'p, 'b, 'h, 'r, 'v, 'key) deployment \<Rightarrow> bool" where
  "dp_ok d \<longleftrightarrow> (\<forall>key. dp_store d key (cfg_window (dp_config d)) =
     atomic_store (dp_increment d) (dp_clock d) (dp_plan d) key (cfg_window (dp_config d)))"

definition client :: "('s, 't, 'p, 'b, 'h, 'r, 'v, 'key) deployment \<Rightarrow> ('p, unit) http_request \<Rightarrow> string" where
  "client d = (\<lambda>h. dp_disp d (dp_key d h))"

definition dp_limiter ::
  "('s, 't, 'p, 'b, 'h, 'r, 'v, 'key) deployment \<Rightarrow> ('s store_world, 'p, 'b, 'h, 'r, unit, 'key) rate_limit" where
  "dp_limiter d =
     keyed_limiter (dp_config d) (dp_key d) (dp_disp d) (dp_limit d) (dp_factory d) (dp_store d)"

definition dp_service ::
  "('s, 't, 'p, 'b, 'h, 'r, 'v, 'key) deployment \<Rightarrow>
    ('s store_world, ('s store_world, 'p, 'b, 'h, 'r, unit, 'key) rate_limit, 'p, 'b, 'h, 'r, 'e) inner_service" where
  "dp_service d = rate_limit_service (dp_hdr d) (\<lambda>_ w. w) (handler_service (dp_handler d))"

definition dp_answer ::
  "('s, 't, 'p, 'b, 'h, 'r, 'v, 'key) deployment \<Rightarrow> ('p, 'b) http_request \<Rightarrow> (RateLimitError, Usage) result \<Rightarrow>
    ('e, ('h, 'r) response) result" where
  "dp_answer d q r =
     Inr (answer (dp_hdr d) (dp_config d) (dp_limit d) (dp_factory d) (dp_handler d) q r)"

definition dp_charge ::
  "('s, 't, 'p, 'b, 'h, 'r, 'v, 'key) deployment \<Rightarrow> ('p, 'b) http_request \<Rightarrow> 's store_world \<Rightarrow>
    (RateLimitError, Usage) result \<times> 's store_world" where
  "dp_charge d q = charge (dp_increment d) (dp_clock d)
     (scoped_key (dp_config d) (client d (request_head q))) (cfg_window (dp_config d))"

text \<open>The response future of a request in flight.\<close>

fun task_state ::
  "('s, 't, 'p, 'b, 'h, 'r, 'v, 'key) deployment \<Rightarrow> ('p, 'b) http_request \<Rightarrow> task \<Rightarrow>
    ('s store_world, 'p, 'b, 'h, 'r, 'e) State" where
  "task_state d q Fresh = State_Limit (ready (Inr (dp_limit d (request_head q)))) q (client d (request_head q))"
| "task_state d q (Waiting n m) =
     State_Store (charging (dp_charge d q) n m) q (dp_limit d (request_head q))"
| "task_state d q (Charged m r) = State_Store (delayed m r) q (dp_limit d (request_head q))"

definition task_future ::
  "('s, 't, 'p, 'b, 'h, 'r, 'v, 'key) deployment \<Rightarrow> ('p, 'b) http_request \<Rightarrow> task \<Rightarrow>
    ('s store_world, ('e, ('h, 'r) response) result) future" where
  "task_future d q t = as_future (dp_hdr d) (\<lambda>_ w. w) (handler_service (dp_handler d))
     \<lparr>f_state = task_state d q t, f_inner = (), f_store = dp_store d,
      f_config = (dp_config d)\<lparr>cfg_skip_predicate := None\<rparr>,
      f_factory = (\<lambda>q reason w. (dp_factory d q reason, w))\<rparr>"

text \<open>What a poll does to a request in flight.\<close>

fun charged_poll :: "nat \<Rightarrow> (RateLimitError, Usage) result \<Rightarrow> ((RateLimitError, Usage) result, task) poll" where
  "charged_poll 0 r = Ready r"
| "charged_poll (Suc m) r = Pending (Charged m r)"

fun waiting_poll ::
  "('w \<Rightarrow> (RateLimitError, Usage) result \<times> 'w) \<Rightarrow> nat \<Rightarrow> nat \<Rightarrow> 'w \<Rightarrow>
    ((RateLimitError, Usage) result, task) poll \<times> 'w" where
  "waiting_poll act 0 m w = map_prod (charged_poll m) id (act w)"
| "waiting_poll act (Suc n) m w = (Pending (Waiting n m), w)"

fun task_poll ::
  "('s, 't, 'p, 'b, 'h, 'r, 'v, 'key) deployment \<Rightarrow> ('p, 'b) http_request \<Rightarrow> task \<Rightarrow> 's store_world \<Rightarrow>
    ((RateLimitError, Usage) result, task) poll \<times> 's store_world" where
  "task_poll d q (Charged m r) w = (charged_poll m r, w)"
| "task_poll d q (Waiting n m) w = waiting_poll (dp_charge d q) n m w"
| "task_poll d q Fresh w =
     (case dp_plan d (sw_calls w) (sw_tick w) of
        At_Call m \<Rightarrow> map_prod (charged_poll m) id (dp_charge d q w)
      | On_Poll n m \<Rightarrow> waiting_poll (dp_charge d q) n m (w\<lparr>sw_calls := Suc (sw_calls w)\<rparr>))"

section \<open>A poll of a request in flight\<close>

declare as_future.simps [simp del] as_future.sel [simp del]

lemma poll_delayed:
  "poll_future (delayed m r) w = (case m of 0 \<Rightarrow> (Ready r, w) | Suc m' \<Rightarrow> (Pending (delayed m' r), w))"
  by (cases m) simp_all

lemma poll_charging:
  "poll_future (charging act n m) w =
     (case n of
        0 \<Rightarrow> (case act w of (r, w') \<Rightarrow> poll_future (delayed m r) w')
      | Suc n' \<Rightarrow> (Pending (charging act n' m), w))"
  by (cases n) (simp_all add: poll_delayed split: nat.split prod.split)

text \<open>Once the store future of a request is ready, the same poll gives the answer.\<close>

lemma poll_store_ready:
  assumes "poll_future sf w = (Ready r, w')"
    and "c = (dp_config d)\<lparr>cfg_skip_predicate := None\<rparr>"
    and "fa = (\<lambda>q reason w. (dp_factory d q reason, w))"
  shows "poll_future (as_future (dp_hdr d) (\<lambda>_ w. w) (handler_service (dp_handler d))
     \<lparr>f_state = State_Store sf q (dp_limit d (request_head q)), f_inner = (), f_store = st,
      f_config = c, f_factory = fa\<rparr>) w = (Ready (dp_answer d q r), w')"
  using assms(1)
  by (subst poll_future_as_future)
    (simp add: poll_step_def ready_bang_def after_store_decide assms(2,3) dp_answer_def answer_def
      poll_future_as_future handler_service_def report_silent append_inner_response_headers_def
      split: decision.split)

lemma poll_store_pending:
  assumes "poll_future sf w = (Pending sf', w')"
  shows "poll_future (as_future hdr emit svc
     \<lparr>f_state = State_Store sf q lim, f_inner = i, f_store = st, f_config = c, f_factory = fa\<rparr>) w =
     (Pending (as_future hdr emit svc
       \<lparr>f_state = State_Store sf' q lim, f_inner = i, f_store = st, f_config = c, f_factory = fa\<rparr>), w')"
  using assms
  by (subst poll_future_as_future)
    (simp add: poll_step_def ready_bang_def)

lemmas poll_store = poll_store_ready [OF _ refl refl] poll_store_pending

lemma poll_charged:
  "poll_future (task_future d q (Charged m r)) w =
     map_prod (map_poll (dp_answer d q) (task_future d q)) id (charged_poll m r, w)"
  by (cases m) (simp_all add: task_future_def poll_store poll_delayed del: delayed.simps)

lemma poll_waiting:
  "poll_future (task_future d q (Waiting n m)) w =
     map_prod (map_poll (dp_answer d q) (task_future d q)) id (waiting_poll (dp_charge d q) n m w)"
proof (cases n)
  case 0
  obtain r w' where c: "dp_charge d q w = (r, w')" by fastforce
  then show ?thesis
    by (cases m) (simp_all add: 0 task_future_def poll_store poll_charging poll_delayed
        del: delayed.simps charging.simps)
next
  case (Suc n')
  then show ?thesis by (simp add: task_future_def poll_store poll_charging del: charging.simps)
qed

text \<open>The first poll resolves the quota, calls the store and polls its future.\<close>

lemma poll_fresh:
  fixes d :: "('s, 't, 'p, 'b, 'h, 'r, 'v, 'key) deployment"
  assumes "dp_ok d"
  shows "poll_future (task_future d q Fresh :: ('s store_world, ('e, ('h, 'r) response) result) future) w =
    (case dp_plan d (sw_calls w) (sw_tick w) of
       At_Call m \<Rightarrow> (case dp_charge d q w of (r, w') \<Rightarrow> poll_future (task_future d q (Charged m r)) w')
     | On_Poll n m \<Rightarrow> poll_future (task_future d q (Waiting n m)) (w\<lparr>sw_calls := Suc (sw_calls w)\<rparr>))"
  using assms
  by (subst task_future_def, subst poll_future_as_future)
    (simp add: poll_step_def ready_bang_def after_limit_def dp_ok_def atomic_store_def
      task_future_def dp_charge_def split: charge_plan.split prod.split)

lemma poll_task:
  assumes "dp_ok d"
  shows "poll_future (task_future d q t) w =
     map_prod (map_poll (dp_answer d q) (task_future d q)) id (task_poll d q t w)"
  by (cases t)
    (auto simp: poll_fresh [OF assms] poll_waiting poll_charged split: charge_plan.split prod.split)

section \<open>The increments in the order they take effect\<close>

text \<open>The result a request in flight already holds, and what a poll leaves it with.\<close>

fun held :: "task \<Rightarrow> (RateLimitError, Usage) result list" where
  "held (Charged m r) = [r]"
| "held t = []"

fun held_after :: "((RateLimitError, Usage) result, task) poll \<Rightarrow> (RateLimitError, Usage) result list" where
  "held_after (Ready r) = [r]"
| "held_after (Pending t) = held t"
| "held_after (Panic m) = []"

definition silent :: "'s store_world \<Rightarrow> 's store_world \<Rightarrow> bool" where
  "silent w w' \<longleftrightarrow> sw_state w' = sw_state w \<and> sw_tick w' = sw_tick w"

definition increments ::
  "('s, 't, 'p, 'b, 'h, 'r, 'v, 'key) deployment \<Rightarrow> ('p, 'b) http_request \<Rightarrow> 's store_world \<Rightarrow>
    (RateLimitError, Usage) result \<Rightarrow> 's store_world \<Rightarrow> bool" where
  "increments d q w r w' \<longleftrightarrow>
     dp_increment d (sw_state w) (dp_clock d (sw_tick w))
       (scoped_key (dp_config d) (client d (request_head q))) (cfg_window (dp_config d)) = (r, sw_state w') \<and>
     sw_tick w' = Suc (sw_tick w)"

lemma increments_charge: "dp_charge d q w = (r, w') \<Longrightarrow> increments d q w r w'"
  by (auto simp: dp_charge_def charge_def increments_def split: prod.splits)

lemma increments_calls [simp]: "increments d q (w\<lparr>sw_calls := c\<rparr>) = increments d q w"
  by (simp add: increments_def fun_eq_iff)

lemma held_charged_poll [simp]: "held_after (charged_poll m r) = [r]"
  by (cases m) simp_all

lemma charged_poll_no_panic [simp]: "charged_poll m r \<noteq> Panic msg"
  by (cases m) simp_all

lemma charge_poll_effect:
  assumes "map_prod (charged_poll m) id (dp_charge d q w) = (p, w')"
  shows "\<exists>r. increments d q w r w' \<and> held_after p = [r] \<and> (\<forall>msg. p \<noteq> Panic msg)"
  using assms by (cases "dp_charge d q w") (auto dest: increments_charge)

lemma waiting_poll_effect:
  "waiting_poll (dp_charge d q) n m w = (p, w') \<Longrightarrow>
   w' = w \<and> held_after p = [] \<and> (\<forall>msg. p \<noteq> Panic msg) \<or>
   (\<exists>r. increments d q w r w' \<and> held_after p = [r] \<and> (\<forall>msg. p \<noteq> Panic msg))"
  using charge_poll_effect [of m d q w p w'] by (cases n) auto

text \<open>
  A poll performs no increment and keeps what the request holds, or it performs the request's
  one increment; it never panics.
\<close>

lemma task_poll_effect:
  assumes "task_poll d q t w = (p, w')"
  shows "silent w w' \<and> held_after p = held t \<or>
    held t = [] \<and> (\<exists>r. increments d q w r w' \<and> held_after p = [r])"
    and "p \<noteq> Panic msg"
proof -
  have "(silent w w' \<and> held_after p = held t \<or>
    held t = [] \<and> (\<exists>r. increments d q w r w' \<and> held_after p = [r])) \<and> p \<noteq> Panic msg"
  proof (cases t)
    case Fresh
    show ?thesis
    proof (cases "dp_plan d (sw_calls w) (sw_tick w)")
      case (At_Call m)
      then show ?thesis using assms Fresh charge_poll_effect [of m d q w p w'] by auto
    next
      case (On_Poll n m)
      then show ?thesis
        using assms Fresh waiting_poll_effect [of d q n m "w\<lparr>sw_calls := Suc (sw_calls w)\<rparr>" p w']
        by (auto simp: silent_def)
    qed
  next
    case (Waiting n m)
    then show ?thesis using assms waiting_poll_effect [of d q n m w p w'] by (auto simp: silent_def)
  next
    case (Charged m r)
    then show ?thesis using assms by (auto simp: silent_def)
  qed
  then show "silent w w' \<and> held_after p = held t \<or>
    held t = [] \<and> (\<exists>r. increments d q w r w' \<and> held_after p = [r])" and "p \<noteq> Panic msg" by blast+
qed

lemma run_charges_snoc:
  "run_charges inc s cs = (rs, s1) \<Longrightarrow> inc s1 ts k win = (r, s2) \<Longrightarrow>
   run_charges inc s (cs @ [(ts, k, win)]) = (rs @ [r], s2)"
proof (induction cs arbitrary: s rs)
  case (Cons c cs)
  then show ?case by (cases c) (auto split: prod.splits)
qed auto

lemma charges_of_append:
  "charges_of config key clock n (qs @ qs') =
     charges_of config key clock n qs @ charges_of config key clock (n + length qs) qs'"
  by (induction qs arbitrary: n) simp_all

text \<open>
  The increments performed so far are a run of the store over the requests \<open>order\<close>, with the
  results \<open>rs\<close>.
\<close>

definition ran ::
  "('s, 't, 'p, 'b, 'h, 'r, 'v, 'key) deployment \<Rightarrow> 's store_world \<Rightarrow> ('p, 'b) http_request list \<Rightarrow>
    (RateLimitError, Usage) result list \<Rightarrow> 's store_world \<Rightarrow> bool" where
  "ran d w0 order rs w \<longleftrightarrow>
     run_charges (dp_increment d) (sw_state w0)
       (charges_of (dp_config d) (client d) (dp_clock d) (sw_tick w0) order) = (rs, sw_state w) \<and>
     sw_tick w = sw_tick w0 + length order"

lemma ran_length: "ran d w0 order rs w \<Longrightarrow> length rs = length order"
  using length_run_charges by (fastforce simp: ran_def)

lemma ran_silent: "ran d w0 order rs w \<Longrightarrow> silent w w' \<Longrightarrow> ran d w0 order rs w'"
  by (simp add: ran_def silent_def)

lemma ran_increments:
  "ran d w0 order rs w \<Longrightarrow> increments d q w r w' \<Longrightarrow> ran d w0 (order @ [q]) (rs @ [r]) w'"
  by (auto simp: ran_def increments_def charges_of_append intro!: run_charges_snoc)

section \<open>Every execution is a sequence\<close>

definition in_flight ::
  "('s, 't, 'p, 'b, 'h, 'r, 'v, 'key) deployment \<Rightarrow> (('p, 'b) http_request \<times> task) list \<Rightarrow>
    (('p, 'b) http_request \<times> ('s store_world, ('e, ('h, 'r) response) result) future) list" where
  "in_flight d ts = map (\<lambda>(q, t). (q, task_future d q t)) ts"

definition holding :: "('q \<times> task) list \<Rightarrow> ('q \<times> (RateLimitError, Usage) result) multiset" where
  "holding ts = mset (concat (map (\<lambda>(q, t). map (Pair q) (held t)) ts))"

lemma holding_simps [simp]:
  "holding [] = {#}"
  "holding ((q, t) # ts) = mset (map (Pair q) (held t)) + holding ts"
  "holding (ts @ ts') = holding ts + holding ts'"
  by (simp_all add: holding_def)

lemma holding_running: "image_mset fst (holding ts) \<subseteq># mset (map fst (in_flight d ts))"
proof (induction ts)
  case (Cons a ts)
  obtain q t where a: "a = (q, t)" by (cases a)
  have "image_mset fst (mset (map (Pair q) (held t))) \<subseteq># {#q#}" by (cases t) simp_all
  from subset_mset.add_mono [OF this Cons] show ?case by (simp add: a in_flight_def)
qed (simp add: in_flight_def)

text \<open>
  The state of an execution: where each request in flight stands, the increments performed so
  far, and that their results are exactly those that were answered, are still held by a request
  in flight, or were lost with a dropped one.
\<close>

definition linear ::
  "('s, 't, 'p, 'b, 'h, 'r, 'v, 'key) deployment \<Rightarrow> 's store_world \<Rightarrow>
    ('s store_world, ('s store_world, 'p, 'b, 'h, 'r, unit, 'key) rate_limit, ('p, 'b) http_request,
      ('e, ('h, 'r) response) result) executor \<Rightarrow> (('p, 'b) http_request \<times> task) list \<Rightarrow>
    ('p, 'b) http_request list \<Rightarrow> (RateLimitError, Usage) result list \<Rightarrow>
    (('p, 'b) http_request \<times> (RateLimitError, Usage) result) list \<Rightarrow>
    (('p, 'b) http_request \<times> (RateLimitError, Usage) result) list \<Rightarrow> bool" where
  "linear d w0 x ts order rs dn lost \<longleftrightarrow>
     ex_service x = dp_limiter d \<and> ex_running x = in_flight d ts \<and>
     ex_done x = map (\<lambda>(q, r). (q, dp_answer d q r)) dn \<and>
     ran d w0 order rs (ex_world x) \<and>
     mset (zip order rs) = mset dn + holding ts + mset lost \<and>
     mset (map fst lost) \<subseteq># mset (ex_dropped x)"

lemma linear_start: "linear d w0 (executor_start (dp_limiter d) w0) [] [] [] [] []"
  by (simp add: linear_def executor_start_def in_flight_def ran_def)

lemma in_flight_split:
  assumes "in_flight d ts = before @ (q, fut) # after"
  shows "\<exists>ts1 t ts2. ts = ts1 @ (q, t) # ts2 \<and> before = in_flight d ts1 \<and> after = in_flight d ts2 \<and>
    fut = task_future d q t"
  using assms by (fastforce simp: in_flight_def map_eq_append_conv Cons_eq_map_conv)

lemma dp_arrives:
  assumes "svc_poll_ready (dp_service d) (dp_limiter d) w = (Ready (Inr ()), s1, w1)"
    and "svc_call (dp_service d) s1 q w1 = (fut, s2, w2)"
  shows "s2 = dp_limiter d \<and> w2 = w \<and> fut = task_future d q Fresh"
  using assms
  by (auto simp: dp_service_def rate_limit_service_def poll_ready_def call_def check_skip skips_def
      dp_limiter_def keyed_limiter_def handler_service_def pure_extractor_def pure_provider_def
      response_future_new_def task_future_def client_def)

lemma linear_poll:
  assumes "linear d w0 x (ts1 @ (q, t) # ts2) order rs dn lost"
    and "task_poll d q t (ex_world x) = (p, w')"
  shows "\<exists>order' rs'. ran d w0 order' rs' w' \<and>
    mset (zip order' rs') = mset dn + holding (ts1 @ ts2) + mset (map (Pair q) (held_after p)) + mset lost"
proof -
  have r: "ran d w0 order rs (ex_world x)"
    and m: "mset (zip order rs) = mset dn + holding (ts1 @ (q, t) # ts2) + mset lost"
    using assms(1) by (simp_all add: linear_def)
  from task_poll_effect(1) [OF assms(2)] show ?thesis
  proof (elim disjE conjE exE)
    assume s: "silent (ex_world x) w'" "held_after p = held t"
    then show ?thesis using ran_silent [OF r s(1)] m by (auto simp: ac_simps)
  next
    fix v assume v: "held t = []" "increments d q (ex_world x) v w'" "held_after p = [v]"
    then show ?thesis
      using ran_increments [OF r v(2)] m ran_length [OF r]
      by (intro exI [of _ "order @ [q]"] exI [of _ "rs @ [v]"]) (simp add: ac_simps)
  qed
qed

lemma linear_step:
  assumes "dp_ok d" "executor_step (dp_service d) x y" "linear d w0 x ts order rs dn lost"
  shows "\<exists>ts order rs dn lost. linear d w0 y ts order rs dn lost"
  using assms(2)
proof cases
  case (arrives s1 w1 q fut s2 w2)
  have "ex_service x = dp_limiter d" using assms(3) by (simp add: linear_def)
  with arrives dp_arrives [of d "ex_world x" s1 w1 q fut s2 w2]
  have "linear d w0 y (ts @ [(q, Fresh)]) order rs dn lost"
    using assms(3) by (auto simp: linear_def in_flight_def)
  then show ?thesis by blast
next
  case (polled_pending before q fut after fut' w')
  obtain ts1 t ts2 where t: "ts = ts1 @ (q, t) # ts2" "before = in_flight d ts1" "after = in_flight d ts2"
    "fut = task_future d q t"
    using in_flight_split [of d ts before q fut after] polled_pending(2) assms(3) by (auto simp: linear_def)
  obtain p v where p: "task_poll d q t (ex_world x) = (p, v)" by fastforce
  then obtain t' where t': "p = Pending t'" "fut' = task_future d q t'" "v = w'"
    using polled_pending(3) by (cases p) (auto simp: t(4) poll_task [OF assms(1)])
  from linear_poll [OF assms(3) [unfolded t(1)] p]
  obtain order' rs' where "ran d w0 order' rs' w'"
    "mset (zip order' rs') = mset dn + holding (ts1 @ (q, t') # ts2) + mset lost"
    by (auto simp: t' ac_simps)
  then have "linear d w0 y (ts1 @ (q, t') # ts2) order' rs' dn lost"
    using assms(3) polled_pending(1) by (simp add: linear_def t t' in_flight_def)
  then show ?thesis by blast
next
  case (polled_ready before q fut after out w')
  obtain ts1 t ts2 where t: "ts = ts1 @ (q, t) # ts2" "before = in_flight d ts1" "after = in_flight d ts2"
    "fut = task_future d q t"
    using in_flight_split [of d ts before q fut after] polled_ready(2) assms(3) by (auto simp: linear_def)
  obtain p v where p: "task_poll d q t (ex_world x) = (p, v)" by fastforce
  then obtain r where r: "p = Ready r" "out = dp_answer d q r" "v = w'"
    using polled_ready(3) by (cases p) (auto simp: t(4) poll_task [OF assms(1)])
  from linear_poll [OF assms(3) [unfolded t(1)] p]
  obtain order' rs' where "ran d w0 order' rs' w'"
    "mset (zip order' rs') = mset ((q, r) # dn) + holding (ts1 @ ts2) + mset lost"
    by (auto simp: r ac_simps)
  then have "linear d w0 y (ts1 @ ts2) order' rs' ((q, r) # dn) lost"
    using assms(3) polled_ready(1) by (simp add: linear_def t r in_flight_def)
  then show ?thesis by blast
next
  case (dropped before q fut after)
  obtain ts1 t ts2 where t: "ts = ts1 @ (q, t) # ts2" "before = in_flight d ts1" "after = in_flight d ts2"
    using in_flight_split [of d ts before q fut after] dropped(2) assms(3) by (auto simp: linear_def)
  have "image_mset fst (mset (map (Pair q) (held t))) \<subseteq># {#q#}" by (cases t) simp_all
  moreover have "image_mset fst (mset lost) \<subseteq># mset (ex_dropped x)" using assms(3) by (simp add: linear_def)
  ultimately have "image_mset fst (mset (map (Pair q) (held t))) + image_mset fst (mset lost) \<subseteq>#
      {#q#} + mset (ex_dropped x)" by (rule subset_mset.add_mono)
  then have "mset (map fst (map (Pair q) (held t) @ lost)) \<subseteq># mset (q # ex_dropped x)"
    by (simp add: multiset.map_comp)
  then have "linear d w0 y (ts1 @ ts2) order rs dn (map (Pair q) (held t) @ lost)"
    using assms(3) dropped(1) by (simp add: linear_def t in_flight_def ac_simps)
  then show ?thesis by blast
qed

lemma executes_linear:
  assumes "dp_ok d" "executes (dp_service d) (dp_limiter d) w0 x"
  shows "\<exists>ts order rs dn lost. linear d w0 x ts order rs dn lost"
  using assms(2)
proof (induction rule: executes.induct)
  case executes_start
  show ?case using linear_start by blast
next
  case (executes_step x y)
  then show ?case using linear_step [OF assms(1)] by blast
qed

lemma map2_zip: "length rs = length qs \<Longrightarrow> zip qs (map2 f qs rs) = map (\<lambda>(q, r). (q, f q r)) (zip qs rs)"
  by (induction qs rs rule: list_induct2') simp_all

lemma dp_behaves: "dp_ok d \<Longrightarrow> behaves_atomic (dp_store d) (cfg_window (dp_config d)) (dp_increment d) (dp_clock d)"
  unfolding behaves_atomic_def dp_ok_def by blast

text \<open>An execution in the terms of the session its increments make up.\<close>

lemma executes_session:
  fixes d :: "('s, 't, 'p, 'b, 'h, 'r, 'v, 'key) deployment"
    and x :: "('s store_world, ('s store_world, 'p, 'b, 'h, 'r, unit, 'key) rate_limit, ('p, 'b) http_request,
      ('e, ('h, 'r) response) result) executor"
  assumes "dp_ok d" "executes (dp_service d) (dp_limiter d) w0 x"
  shows "\<exists>order outs w1. session (dp_service d) (dp_limiter d) w0 order outs w1 \<and>
    length outs = length order \<and> sw_state w1 = sw_state (ex_world x) \<and> sw_tick w1 = sw_tick (ex_world x) \<and>
    sw_tick w1 = sw_tick w0 + length order \<and>
    mset (ex_done x) \<subseteq># mset (zip order outs) \<and>
    mset order \<subseteq># mset (map fst (ex_done x)) + mset (map fst (ex_running x)) + mset (ex_dropped x)"
proof -
  obtain ts order rs dn lost where l: "linear d w0 x ts order rs dn lost"
    using executes_linear [OF assms] by blast
  have m: "mset (zip order rs) = mset dn + holding ts + mset lost"
    and dn: "ex_done x = map (\<lambda>(q, r). (q, dp_answer d q r)) dn"
    and r: "ran d w0 order rs (ex_world x)" using l by (simp_all add: linear_def)
  have len: "length rs = length order" using r by (rule ran_length)
  define outs where "outs = map2 (dp_answer d :: _ \<Rightarrow> _ \<Rightarrow> ('e, ('h, 'r) response) result) order rs"
  have run: "run_charges (dp_increment d) (sw_state w0) (charges_of (dp_config d)
      (\<lambda>h. dp_disp d (dp_key d h)) (dp_clock d) (sw_tick w0) order) = (rs, sw_state (ex_world x))"
    using r by (simp add: ran_def client_def)
  have "\<exists>c. \<forall>outs' w'. session (dp_service d) (dp_limiter d) w0 order outs' w' \<longleftrightarrow> outs' = outs \<and>
      w' = w0\<lparr>sw_state := sw_state (ex_world x), sw_tick := sw_tick w0 + length order, sw_calls := c\<rparr>"
    unfolding outs_def dp_service_def dp_limiter_def dp_answer_def
    by (rule session_run [where disp = "dp_disp d" and key_of = "dp_key d", OF dp_behaves [OF assms(1)] run])
  then obtain c where "\<And>outs' w'. session (dp_service d) (dp_limiter d) w0 order outs' w' \<longleftrightarrow> outs' = outs \<and>
      w' = w0\<lparr>sw_state := sw_state (ex_world x), sw_tick := sw_tick w0 + length order, sw_calls := c\<rparr>" by blast
  then obtain w1 where s: "session (dp_service d) (dp_limiter d) w0 order outs w1"
    "sw_state w1 = sw_state (ex_world x)" "sw_tick w1 = sw_tick w0 + length order" by simp
  have z: "zip order outs = map (\<lambda>(q, r). (q, dp_answer d q r)) (zip order rs)"
    using len by (simp add: outs_def map2_zip)
  have "mset (ex_done x) \<subseteq># mset (zip order outs)"
    unfolding z dn mset_map m by (simp add: image_mset_subseteq_mono ac_simps)
  moreover have "mset order \<subseteq># mset (map fst (ex_done x)) + mset (map fst (ex_running x)) + mset (ex_dropped x)"
  proof -
    have "mset order = image_mset fst (mset (zip order rs))"
      using len by (metis map_fst_zip mset_map)
    also have "\<dots> = mset (map fst dn) + image_mset fst (holding ts) + mset (map fst lost)" by (simp add: m)
    also have "\<dots> \<subseteq># mset (map fst dn) + mset (map fst (ex_running x)) + mset (ex_dropped x)"
      using l holding_running [of ts d] by (intro subset_mset.add_mono) (simp_all add: linear_def)
    also have "map fst dn = map fst (ex_done x)" by (simp add: dn case_prod_beta)
    finally show ?thesis .
  qed
  moreover have "length outs = length order" by (simp add: outs_def len)
  ultimately show ?thesis using s r unfolding ran_def by metis
qed

section \<open>The limit under concurrency\<close>

text \<open>How many of the answered requests of the client with scoped key \<open>k\<close> were let through.\<close>

definition requests_of ::
  "('s, 't, 'p, 'b, 'h, 'r, 'v, 'key) deployment \<Rightarrow> string \<Rightarrow> ('p, 'b) http_request list \<Rightarrow> nat" where
  "requests_of d k qs = length (filter (\<lambda>q. scoped_key (dp_config d) (client d (request_head q)) = k) qs)"

definition let_through_of ::
  "('s, 't, 'p, 'b, 'h, 'r, 'v, 'key) deployment \<Rightarrow> string \<Rightarrow>
    (('p, 'b) http_request \<times> ('e, ('h, 'r) response) result) list \<Rightarrow> nat" where
  "let_through_of d k answers = length (filter (\<lambda>(q, out).
     scoped_key (dp_config d) (client d (request_head q)) = k \<and> let_through out) answers)"

definition key_limit :: "('s, 't, 'p, 'b, 'h, 'r, 'v, 'key) deployment \<Rightarrow> string \<Rightarrow> u64 \<Rightarrow> bool" where
  "key_limit d k lim \<longleftrightarrow> (\<forall>h. scoped_key (dp_config d) (client d h) = k \<longrightarrow> dp_limit d h = lim)"

lemma let_through_of_zip:
  assumes "length outs = length qs"
  shows "let_through_of d k (zip qs outs) = length (filter id (map let_through
     (results_of k (charges_of (dp_config d) (client d) clock n qs) outs)))"
  using assms
  by (simp add: results_of_zip let_through_of_def filter_map comp_def filter_filter case_prod_unfold conj_commute)

lemma charges_on_requests: "charges_on k (charges_of (dp_config d) (client d) clock n qs) = requests_of d k qs"
  by (simp add: charges_on_keys requests_of_def)

lemma let_through_of_mono: "mset xs \<subseteq># mset ys \<Longrightarrow> let_through_of d k xs \<le> let_through_of d k ys"
  unfolding let_through_of_def
  by (metis mset_filter multiset_filter_mono size_mset size_mset_mono)

lemma let_through_of_mset: "mset xs = mset ys \<Longrightarrow> let_through_of d k xs = let_through_of d k ys"
  using let_through_of_mono by (metis order_antisym subset_mset.order_refl)

lemma requests_of_mset: "mset xs = mset ys \<Longrightarrow> requests_of d k xs = requests_of d k ys"
  unfolding requests_of_def by (metis mset_filter size_mset)

text \<open>With nothing in flight and nothing dropped, the answers are those of the sequence.\<close>

lemma complete_answers:
  assumes "mset done \<subseteq># mset (zip order outs)" "mset order \<subseteq># mset (map fst done)"
    and "length outs = length order"
  shows "mset done = mset (zip order outs)" and "mset (map fst done) = mset order"
proof -
  have "length order \<le> length done" using size_mset_mono [OF assms(2)] by simp
  then have "size (mset (zip order outs)) \<le> size (mset done)" using assms(3) by simp
  then show eq: "mset done = mset (zip order outs)"
    using assms(1) by (meson leD mset_subset_size subset_mset.le_imp_less_or_eq)
  have "mset (map fst done) = image_mset fst (mset (zip order outs))" by (simp add: eq)
  then show "mset (map fst done) = mset order" using assms(3) by (metis map_fst_zip mset_map)
qed

context fixed_window_store
begin

lemma concurrent_admits:
  fixes d :: "('s, 't, 'p, 'b, 'h, 'r, 'v, 'key) deployment"
    and x :: "('s store_world, ('s store_world, 'p, 'b, 'h, 'r, unit, 'key) rate_limit, ('p, 'b) http_request,
      ('e, ('h, 'r) response) result) executor"
  assumes "dp_ok d" "dp_increment d = increment" "dp_factory d = default_answer (dp_hdr d) b"
    and "\<And>q. status (dp_handler d q) \<noteq> TOO_MANY_REQUESTS" "key_limit d k lim"
    and "invar (sw_state w0)" "clock_runs valid start fin (cfg_window (dp_config d)) (dp_clock d)"
    and "live (sw_state w0) (start (dp_clock d (sw_tick w0))) k = None"
    and "executes (dp_service d) (dp_limiter d) w0 x"
    and "one_window (\<lambda>ts. opens (start ts) (cfg_window (dp_config d))) fin (dp_clock d)
      (sw_tick w0) (sw_tick (ex_world x))"
    and "sw_tick (ex_world x) - sw_tick w0 \<le> cap"
  shows "let_through_of d k (ex_done x) \<le> unat lim" (is ?bound)
    and "ex_running x = [] \<Longrightarrow> ex_dropped x = [] \<Longrightarrow>
      let_through_of d k (ex_done x) = min (unat lim) (requests_of d k (map fst (ex_done x)))"
proof -
  let ?win = "cfg_window (dp_config d)" and ?clock = "dp_clock d" and ?n = "sw_tick (ex_world x)"
  obtain order outs w1 where o: "session (dp_service d) (dp_limiter d) w0 order outs w1"
    "length outs = length order" "?n = sw_tick w0 + length order"
    "mset (ex_done x) \<subseteq># mset (zip order outs)"
    "mset order \<subseteq># mset (map fst (ex_done x)) + mset (map fst (ex_running x)) + mset (ex_dropped x)"
    using executes_session [OF assms(1,9)] by metis
  define cs where "cs = charges_of (dp_config d) (client d) ?clock (sw_tick w0) order"
  have lims: "same_limit (dp_config d) (\<lambda>h. dp_disp d (dp_key d h)) (dp_limit d) k lim order"
    using assms(5) by (simp add: same_limit_def key_limit_def client_def)
  have "map let_through (results_of k cs outs) =
    replicate (min (unat lim) (charges_on k cs)) True @ replicate (charges_on k cs - unat lim) False"
    by (rule session_within [where key_of = "dp_key d" and disp = "dp_disp d", OF
          dp_behaves [OF assms(1), unfolded assms(2)] assms(6,7,4) lims assms(8) assms(10) [unfolded o(3)] _
          o(1) [unfolded dp_service_def dp_limiter_def assms(3)]])
      (use assms(11) o(3) in \<open>simp_all add: cs_def client_def\<close>)
  then have total: "let_through_of d k (zip order outs) = min (unat lim) (requests_of d k order)"
    by (simp add: let_through_of_zip [OF o(2), of d k ?clock "sw_tick w0", folded cs_def]
        cs_def charges_on_requests)
  then show ?bound using let_through_of_mono [OF o(4), of d k] by simp
  show "let_through_of d k (ex_done x) = min (unat lim) (requests_of d k (map fst (ex_done x)))"
    if "ex_running x = []" "ex_dropped x = []"
  proof -
    have "mset order \<subseteq># mset (map fst (ex_done x))" using o(5) that by simp
    note complete = complete_answers [OF o(4) this o(2)]
    show ?thesis
      using total let_through_of_mset [OF complete(1), of d k] requests_of_mset [OF complete(2), of d k] by simp
  qed
qed

end

section \<open>Deployments over the two stores\<close>

definition memory_deployment ::
  "('h, 'v) header_api \<Rightarrow> 'r \<Rightarrow> 'p RateLimitConfig \<Rightarrow> (('p, unit) http_request \<Rightarrow> 'key) \<Rightarrow> ('key \<Rightarrow> string) \<Rightarrow>
    (('p, unit) http_request \<Rightarrow> u64) \<Rightarrow> (('p, 'b) http_request \<Rightarrow> ('h, 'r) response) \<Rightarrow>
    'c cache_api \<Rightarrow> (nat \<Rightarrow> op_times) \<Rightarrow> ('c, op_times, 'p, 'b, 'h, 'r, 'v, 'key) deployment" where
  "memory_deployment hdr b config key_of disp lim_of respond cache clock =
     \<lparr>dp_hdr = hdr, dp_config = config, dp_key = key_of, dp_disp = disp, dp_limit = lim_of,
      dp_factory = default_answer hdr b, dp_handler = respond, dp_store = memory_store cache clock,
      dp_increment = memory_increment cache, dp_clock = clock, dp_plan = (\<lambda>c t. At_Call 0)\<rparr>"

definition redis_deployment ::
  "('h, 'v) header_api \<Rightarrow> 'r \<Rightarrow> 'p RateLimitConfig \<Rightarrow> (('p, unit) http_request \<Rightarrow> 'key) \<Rightarrow> ('key \<Rightarrow> string) \<Rightarrow>
    (('p, unit) http_request \<Rightarrow> u64) \<Rightarrow> (('p, 'b) http_request \<Rightarrow> ('h, 'r) response) \<Rightarrow>
    bool \<Rightarrow> 'd redis_api \<Rightarrow> RedisStore \<Rightarrow> (nat \<Rightarrow> redis_times) \<Rightarrow> (nat \<Rightarrow> nat \<times> nat) \<Rightarrow>
    ('d, redis_times, 'p, 'b, 'h, 'r, 'v, 'key) deployment" where
  "redis_deployment hdr b config key_of disp lim_of respond lua api this clock network =
     \<lparr>dp_hdr = hdr, dp_config = config, dp_key = key_of, dp_disp = disp, dp_limit = lim_of,
      dp_factory = default_answer hdr b, dp_handler = respond,
      dp_store = redis_store_future lua api this clock network,
      dp_increment = redis_increment lua api this, dp_clock = clock,
      dp_plan = (\<lambda>c t. case network c of (n, m) \<Rightarrow> On_Poll n m)\<rparr>"

lemma memory_deployment_sel:
  assumes "d = memory_deployment hdr b config key_of disp lim_of respond cache clock"
  shows "dp_hdr d = hdr" "dp_config d = config" "dp_handler d = respond" "dp_clock d = clock"
    "dp_increment d = memory_increment cache" "dp_factory d = default_answer (dp_hdr d) b"
    and "dp_ok d"
  using assms by (simp_all add: memory_deployment_def dp_ok_def memory_store_atomic)

lemma redis_deployment_sel:
  assumes "d = redis_deployment hdr b config key_of disp lim_of respond lua api this clock network"
  shows "dp_hdr d = hdr" "dp_config d = config" "dp_handler d = respond" "dp_clock d = clock"
    "dp_increment d = redis_increment lua api this" "dp_factory d = default_answer (dp_hdr d) b"
    and "checked_window_millis (cfg_window config) = Inr ms \<Longrightarrow> dp_ok d"
  using assms by (simp_all add: redis_deployment_def dp_ok_def redis_store_atomic)

section \<open>Properties\<close>

text \<open>
  C5.  Concurrent requests are answered as if made one after the other.  Whatever the order in
  which an executor polls the response futures of any number of requests in flight, however
  long their increments take, and whichever futures it drops, the answers given are answers of
  a session: the requests in the order in which their increments took effect, each awaited
  before the next.  The session leaves the store in the same state, and it consists of requests
  that were answered, are in flight or were dropped.
\<close>

theorem concurrent_requests_linearize:
  fixes d :: "('s, 't, 'p, 'b, 'h, 'r, 'v, 'key) deployment"
    and x :: "('s store_world, ('s store_world, 'p, 'b, 'h, 'r, unit, 'key) rate_limit, ('p, 'b) http_request,
      ('e, ('h, 'r) response) result) executor"
  assumes "dp_ok d" "executes (dp_service d) (dp_limiter d) w0 x"
  shows "\<exists>order outs w1. session (dp_service d) (dp_limiter d) w0 order outs w1 \<and>
    sw_state w1 = sw_state (ex_world x) \<and> sw_tick w1 = sw_tick (ex_world x) \<and>
    mset (ex_done x) \<subseteq># mset (zip order outs) \<and>
    mset order \<subseteq># mset (map fst (ex_done x)) + mset (map fst (ex_running x)) + mset (ex_dropped x)"
  using executes_session [OF assms] by metis

text \<open>
  C4.  The limit holds under concurrency, over the in-memory store.  Take a client without an
  open window and any execution all of whose increments happen within one window length.  At
  most \<open>lim\<close> of the client's requests are let through, however the requests are interleaved and
  whichever of them are dropped; and when all requests have been answered and none was dropped,
  exactly as many as the limit allows.
\<close>

theorem memory_concurrent_limit:
  fixes hdr :: "('h, 'v) header_api" and cache :: "'c cache_api"
    and config :: "'p RateLimitConfig" and respond :: "('p, 'b) http_request \<Rightarrow> ('h, 'r) response"
    and x :: "('c store_world, ('c store_world, 'p, 'b, 'h, 'r, unit, 'key) rate_limit, ('p, 'b) http_request,
      ('e, ('h, 'r) response) result) executor"
  assumes "d = memory_deployment hdr b config key_of disp lim_of respond cache clock"
    and "cache_api_ok cache" "memory_invar cache (sw_state w0)"
    and "clock_runs (\<lambda>ts win. valid_times ts) memory_start memory_fin (cfg_window config) clock"
    and "\<And>q. status (respond q) \<noteq> TOO_MANY_REQUESTS" "key_limit d k lim"
    and "memory_live cache (sw_state w0) (memory_start (clock (sw_tick w0))) k = None"
    and "executes (dp_service d) (dp_limiter d) w0 x"
    and "one_window (\<lambda>ts. memory_opens (memory_start ts) (cfg_window config)) memory_fin clock
      (sw_tick w0) (sw_tick (ex_world x))"
    and "sw_tick (ex_world x) - sw_tick w0 \<le> 2 ^ 64 - 1"
  shows "let_through_of d k (ex_done x) \<le> unat lim \<and>
    (ex_running x = [] \<and> ex_dropped x = [] \<longrightarrow>
       let_through_of d k (ex_done x) = min (unat lim) (requests_of d k (map fst (ex_done x))))"
proof -
  note sel = memory_deployment_sel [OF assms(1)]
  note admits = fixed_window_store.concurrent_admits [OF memory_fixed_window [OF assms(2)] sel(7,5,6)
      assms(5) [folded sel(3)] assms(6,3) assms(4) [folded sel(2,4)] assms(7) [folded sel(4)] assms(8)
      assms(9) [folded sel(2,4)] assms(10)]
  show ?thesis using admits by blast
qed

text \<open>
  C13.  The same over the Redis store, where requests are in flight to the server for any number of
  polls before their increment is executed and before their reply arrives.
\<close>

theorem redis_concurrent_limit:
  fixes hdr :: "('h, 'v) header_api" and api :: "'d redis_api"
    and config :: "'p RateLimitConfig" and respond :: "('p, 'b) http_request \<Rightarrow> ('h, 'r) response"
    and x :: "('d store_world, ('d store_world, 'p, 'b, 'h, 'r, unit, 'key) rate_limit, ('p, 'b) http_request,
      ('e, ('h, 'r) response) result) executor"
  assumes "d = redis_deployment hdr b config key_of disp lim_of respond lua api this clock network"
    and "redis_api_ok api" "redis_invar lua api this (sw_state w0)"
    and "clock_runs (redis_valid lua) t_first t_first (cfg_window config) clock"
    and "\<And>q. status (respond q) \<noteq> TOO_MANY_REQUESTS" "key_limit d k lim"
    and "redis_live api this (sw_state w0) (t_first (clock (sw_tick w0))) k = None"
    and "executes (dp_service d) (dp_limiter d) w0 x"
    and "one_window (\<lambda>ts. redis_opens (t_first ts) (cfg_window config)) t_first clock
      (sw_tick w0) (sw_tick (ex_world x))"
    and "sw_tick (ex_world x) - sw_tick w0 \<le> nat (horizon lua)"
  shows "let_through_of d k (ex_done x) \<le> unat lim \<and>
    (ex_running x = [] \<and> ex_dropped x = [] \<longrightarrow>
       let_through_of d k (ex_done x) = min (unat lim) (requests_of d k (map fst (ex_done x))))"
proof -
  have "redis_valid lua (clock 0) (cfg_window config)" using assms(4) by (simp add: clock_runs_def)
  then obtain ms where ms: "checked_window_millis (cfg_window config) = Inr ms"
    by (auto simp: redis_valid_def redis_opens_def split: option.splits sum.splits)
  note sel = redis_deployment_sel [OF assms(1)]
  note admits = fixed_window_store.concurrent_admits [OF redis_fixed_window [OF assms(2)] sel(7) [OF ms] sel(5,6)
      assms(5) [folded sel(3)] assms(6,3) assms(4) [folded sel(2,4)] assms(7) [folded sel(4)] assms(8)
      assms(9) [folded sel(2,4)] assms(10)]
  show ?thesis using admits by blast
qed

section \<open>Witnesses\<close>

text \<open>An execution described by where each request stands.\<close>

definition tasks_at ::
  "('s, 't, 'p, 'b, 'h, 'r, 'v, 'key) deployment \<Rightarrow> 's store_world \<Rightarrow> (('p, 'b) http_request \<times> task) list \<Rightarrow>
    (('p, 'b) http_request \<times> (RateLimitError, Usage) result) list \<Rightarrow> ('p, 'b) http_request list \<Rightarrow>
    ('s store_world, ('s store_world, 'p, 'b, 'h, 'r, unit, 'key) rate_limit, ('p, 'b) http_request,
      (string, ('h, 'r) response) result) executor" where
  "tasks_at d w ts dn dr =
     \<lparr>ex_service = dp_limiter d, ex_world = w, ex_running = in_flight d ts,
      ex_done = map (\<lambda>(q, r). (q, dp_answer d q r)) dn, ex_dropped = dr\<rparr>"

abbreviation runs_to ::
  "('s, 't, 'p, 'b, 'h, 'r, 'v, 'key) deployment \<Rightarrow> 's store_world \<Rightarrow> 's store_world \<Rightarrow>
    (('p, 'b) http_request \<times> task) list \<Rightarrow>
    (('p, 'b) http_request \<times> (RateLimitError, Usage) result) list \<Rightarrow> ('p, 'b) http_request list \<Rightarrow> bool" where
  "runs_to d w0 w ts dn dr \<equiv> executes (dp_service d) (dp_limiter d) w0 (tasks_at d w ts dn dr)"

lemma runs_start: "runs_to d w0 w0 [] [] []"
  using executes_start [of "dp_service d" "dp_limiter d" w0]
  by (simp add: executor_start_def tasks_at_def in_flight_def)

lemma runs_arrive:
  fixes d :: "('s, 't, 'p, 'b, 'h, 'r, 'v, 'key) deployment"
  assumes "runs_to d w0 w ts dn dr"
  shows "runs_to d w0 w (ts @ [(q, Fresh)]) dn dr"
proof -
  let ?x = "tasks_at d w ts dn dr"
  let ?svc = "dp_service d :: (_, _, _, _, _, _, string) inner_service"
  have ready: "svc_poll_ready ?svc (ex_service ?x) (ex_world ?x) = (Ready (Inr ()), dp_limiter d, w)"
    by (simp add: tasks_at_def dp_service_def rate_limit_service_def poll_ready_def dp_limiter_def
        keyed_limiter_def handler_service_def)
  obtain fut s2 w2 where call: "svc_call ?svc (dp_limiter d) q w = (fut, s2, w2)"
    using prod_cases3 by blast
  have "s2 = dp_limiter d \<and> w2 = w \<and> fut = task_future d q Fresh"
    by (rule dp_arrives [OF _ call]) (use ready in \<open>simp add: tasks_at_def\<close>)
  then show ?thesis
    using executes_step [OF assms arrives [OF ready call]] by (simp add: tasks_at_def in_flight_def)
qed

lemma runs_poll:
  assumes "dp_ok d" "runs_to d w0 w (ts1 @ (q, t) # ts2) dn dr" "task_poll d q t w = (p, w')"
  shows "case p of
      Pending t' \<Rightarrow> runs_to d w0 w' (ts1 @ (q, t') # ts2) dn dr
    | Ready r \<Rightarrow> runs_to d w0 w' (ts1 @ ts2) ((q, r) # dn) dr
    | Panic m \<Rightarrow> True"
proof -
  let ?x = "tasks_at d w (ts1 @ (q, t) # ts2) dn dr"
  have run: "ex_running ?x = in_flight d ts1 @ (q, task_future d q t) # in_flight d ts2"
    by (simp add: tasks_at_def in_flight_def)
  have poll: "poll_future (task_future d q t) (ex_world ?x) =
      (map_poll (dp_answer d q) (task_future d q) p, w')"
    by (simp add: poll_task [OF assms(1)] tasks_at_def assms(3))
  show ?thesis
  proof (cases p)
    case (Pending t')
    then show ?thesis
      using executes_step [OF assms(2) polled_pending [OF run]] poll by (simp add: tasks_at_def in_flight_def)
  next
    case (Ready r)
    then show ?thesis
      using executes_step [OF assms(2) polled_ready [OF run]] poll by (simp add: tasks_at_def in_flight_def)
  qed simp
qed

lemma runs_reply:
  assumes "dp_ok d" "runs_to d w0 w (ts1 @ (q, Charged m r) # ts2) dn dr"
  shows "runs_to d w0 w (ts1 @ ts2) ((q, r) # dn) dr"
  using assms(2)
proof (induction m)
  case 0
  then show ?case using runs_poll [OF assms(1) 0, of "Ready r" w] by simp
next
  case (Suc m)
  then show ?case using runs_poll [OF assms(1) Suc.prems, of "Pending (Charged m r)" w] by simp
qed

lemma runs_drop:
  assumes "runs_to d w0 w (ts1 @ (q, t) # ts2) dn dr"
  shows "runs_to d w0 w (ts1 @ ts2) dn (q # dr)"
proof -
  have "ex_running (tasks_at d w (ts1 @ (q, t) # ts2) dn dr) =
      in_flight d ts1 @ (q, task_future d q t) # in_flight d ts2"
    by (simp add: tasks_at_def in_flight_def)
  from executes_step [OF assms dropped [OF this]] show ?thesis by (simp add: tasks_at_def in_flight_def)
qed

text \<open>A request whose increment happens at its first poll is charged by it and then answered.\<close>

lemma runs_serve:
  assumes "dp_ok d" "runs_to d w0 w (ts1 @ (q, Fresh) # ts2) dn dr"
    and "dp_plan d (sw_calls w) (sw_tick w) \<in> {At_Call m, On_Poll 0 m}"
  shows "\<exists>r w'. runs_to d w0 w' (ts1 @ ts2) ((q, r) # dn) dr \<and> sw_tick w' = Suc (sw_tick w)"
proof -
  have "\<exists>r w'. task_poll d q Fresh w = (charged_poll m r, w') \<and> sw_tick w' = Suc (sw_tick w)"
    using assms(3) by (auto simp: dp_charge_def charge_def split: prod.split)
  then obtain r w' where p: "task_poll d q Fresh w = (charged_poll m r, w')" "sw_tick w' = Suc (sw_tick w)"
    by blast
  have "runs_to d w0 w' (ts1 @ ts2) ((q, r) # dn) dr"
    using runs_poll [OF assms(1,2) p(1)] runs_reply [OF assms(1)] by (cases m) simp_all
  with p(2) show ?thesis by blast
qed

text \<open>
  Three requests arrive; one is dropped, then the last is served before the first.  Without the
  dropped request the execution is complete.
\<close>

lemma runs_sample:
  assumes "dp_ok d" "\<And>c t. dp_plan d c t \<in> {At_Call m, On_Poll 0 m}"
  shows "\<exists>r1 r2 w. runs_to d w0 w [] [(q, r1), (q, r2)] [q] \<and> sw_tick w = sw_tick w0 + 2"
    and "\<exists>r1 r2 w. runs_to d w0 w [] [(q, r1), (q, r2)] [] \<and> sw_tick w = sw_tick w0 + 2"
proof -
  have two: "\<exists>r1 r2 w. runs_to d w0 w [] [(q, r1), (q, r2)] dr \<and> sw_tick w = sw_tick w0 + 2"
    if start: "runs_to d w0 w0 [(q, Fresh), (q, Fresh)] [] dr" for dr
  proof -
    obtain r1 w1 where 1: "runs_to d w0 w1 [(q, Fresh)] [(q, r1)] dr" "sw_tick w1 = Suc (sw_tick w0)"
      using runs_serve [where ?ts1.0 = "[(q, Fresh)]" and ?ts2.0 = "[]", OF assms(1) _ assms(2)] start by force
    obtain r2 w2 where "runs_to d w0 w2 [] [(q, r2), (q, r1)] dr" "sw_tick w2 = Suc (sw_tick w1)"
      using runs_serve [where ?ts1.0 = "[]" and ?ts2.0 = "[]", OF assms(1) _ assms(2)] 1(1) by force
    then show ?thesis using 1(2) by auto
  qed
  have arrived: "runs_to d w0 w0 [(q, Fresh), (q, Fresh)] [] []"
    using runs_arrive [OF runs_arrive [OF runs_start]] by simp
  from two [OF this] show "\<exists>r1 r2 w. runs_to d w0 w [] [(q, r1), (q, r2)] [] \<and> sw_tick w = sw_tick w0 + 2" .
  have "runs_to d w0 w0 [(q, Fresh), (q, Fresh)] [] [q]"
    using runs_drop [where ?ts1.0 = "[(q, Fresh)]" and ?ts2.0 = "[(q, Fresh)]" and d = d]
      runs_arrive [OF arrived, of q] by simp
  from two [OF this] show "\<exists>r1 r2 w. runs_to d w0 w [] [(q, r1), (q, r2)] [q] \<and> sw_tick w = sw_tick w0 + 2" .
qed

abbreviation sample_memory_deployment ::
  "(map_cache, op_times, unit, unit, (string \<times> string) list, unit, string, string) deployment" where
  "sample_memory_deployment \<equiv> memory_deployment list_header_api () sample_config (\<lambda>_. ''caller'') id (\<lambda>_. 1)
     sample_handler map_cache_api sample_clock"

abbreviation sample_redis_deployment ::
  "(map_redis, redis_times, unit, unit, (string \<times> string) list, unit, string, string) deployment" where
  "sample_redis_deployment \<equiv> redis_deployment list_header_api () sample_config (\<lambda>_. ''caller'') id (\<lambda>_. 1)
     sample_handler True map_redis_api redis_store_new sample_redis_clock (\<lambda>_. (0, 2))"

lemma sample_memory_runs:
  "dp_ok sample_memory_deployment"
  "\<And>c t. dp_plan sample_memory_deployment c t \<in> {At_Call 0, On_Poll 0 0}"
  by (rule memory_deployment_sel(7) [OF refl], simp add: memory_deployment_def)

lemma sample_redis_runs:
  "dp_ok sample_redis_deployment"
  "\<And>c t. dp_plan sample_redis_deployment c t \<in> {At_Call 2, On_Poll 0 2}"
proof -
  have "checked_window_millis (cfg_window sample_config) = Inr 60000"
    by (simp add: sample_window checked_millis_secs)
  from redis_deployment_sel(7) [OF refl this] show "dp_ok sample_redis_deployment" .
  show "\<And>c t. dp_plan sample_redis_deployment c t \<in> {At_Call 2, On_Poll 0 2}"
    by (simp add: redis_deployment_def)
qed

theorem concurrent_requests_linearize_witness:
  "\<exists>x order outs w1.
     executes (dp_service sample_memory_deployment :: (_, _, _, _, _, _, string) inner_service)
       (dp_limiter sample_memory_deployment)
       \<lparr>sw_state = memory_store_new map_cache_api, sw_tick = 0, sw_calls = 0\<rparr> x \<and>
     ex_dropped x = [sample_request] \<and> length (ex_done x) = 2 \<and>
     session (dp_service sample_memory_deployment :: (_, _, _, _, _, _, string) inner_service)
       (dp_limiter sample_memory_deployment)
       \<lparr>sw_state = memory_store_new map_cache_api, sw_tick = 0, sw_calls = 0\<rparr> order outs w1 \<and>
     mset (ex_done x) \<subseteq># mset (zip order outs)"
proof -
  let ?d = sample_memory_deployment
  let ?w = "\<lparr>sw_state = memory_store_new map_cache_api, sw_tick = 0, sw_calls = 0\<rparr>"
  obtain r1 r2 w where run: "runs_to ?d ?w w [] [(sample_request, r1), (sample_request, r2)] [sample_request]"
    using runs_sample(1) [OF sample_memory_runs] by blast
  let ?x = "tasks_at ?d w [] [(sample_request, r1), (sample_request, r2)] [sample_request]"
  from concurrent_requests_linearize [OF sample_memory_runs(1) run]
  obtain order outs w1 where "session (dp_service ?d) (dp_limiter ?d) ?w order outs w1"
    "mset (ex_done ?x) \<subseteq># mset (zip order outs)" by blast
  moreover have "ex_dropped ?x = [sample_request]" "length (ex_done ?x) = 2" by (simp_all add: tasks_at_def)
  ultimately show ?thesis using run by (intro exI [of _ ?x] exI conjI)
qed

theorem memory_concurrent_limit_witness:
  "\<exists>x. executes (dp_service sample_memory_deployment :: (_, _, _, _, _, _, string) inner_service)
       (dp_limiter sample_memory_deployment)
       \<lparr>sw_state = memory_store_new map_cache_api, sw_tick = 0, sw_calls = 0\<rparr> x \<and>
     map fst (ex_done x) = [sample_request, sample_request] \<and>
     let_through_of sample_memory_deployment (make_key ''api'' ''caller'') (ex_done x) = 1"
proof -
  let ?d = sample_memory_deployment and ?K = "make_key ''api'' ''caller''"
  let ?w = "\<lparr>sw_state = memory_store_new map_cache_api, sw_tick = 0, sw_calls = 0\<rparr>"
  obtain r1 r2 w where run: "runs_to ?d ?w w [] [(sample_request, r1), (sample_request, r2)] []"
    and tick: "sw_tick w = 2" using runs_sample(2) [OF sample_memory_runs, of ?w sample_request] by auto
  let ?x = "tasks_at ?d w [] [(sample_request, r1), (sample_request, r2)] []"
  have inv: "memory_invar map_cache_api (sw_state ?w)" using mc.invar_new by simp
  have absent: "memory_live map_cache_api (sw_state ?w) (memory_start (sample_clock (sw_tick ?w))) ?K = None"
    by (simp add: memory_live_def mc.get_new memory_store_new_def)
  have window: "one_window (\<lambda>ts. memory_opens (memory_start ts) (cfg_window sample_config)) memory_fin sample_clock
      (sw_tick ?w) (sw_tick (ex_world ?x))"
    by (auto simp: one_window_def tasks_at_def tick sample_clock_def times_at_def memory_opens_def memory_start_def
        memory_fin_def checked_add_def sample_config_def instant_max_def Let_def dur_nanos_def)
  have lim: "key_limit ?d ?K 1" by (simp add: key_limit_def memory_deployment_def)
  have small: "sw_tick (ex_world ?x) - sw_tick ?w \<le> 2 ^ 64 - 1" by (simp add: tasks_at_def tick)
  note all = memory_concurrent_limit [OF refl map_cache_api_ok inv sample_clock_runs sample_handler_passes lim
      absent run window small]
  have dn: "map fst (ex_done ?x) = [sample_request, sample_request]" by (simp add: tasks_at_def)
  have "requests_of ?d ?K [sample_request, sample_request] = 2"
    using sample_key by (simp add: requests_of_def client_def memory_deployment_def)
  moreover have "ex_running ?x = []" "ex_dropped ?x = []" by (simp_all add: tasks_at_def in_flight_def)
  ultimately have "let_through_of ?d ?K (ex_done ?x) = 1" using all unfolding dn by simp
  with run dn show ?thesis by (intro exI [of _ ?x] conjI)
qed

theorem redis_concurrent_limit_witness:
  "\<exists>x. executes (dp_service sample_redis_deployment :: (_, _, _, _, _, _, string) inner_service)
       (dp_limiter sample_redis_deployment) \<lparr>sw_state = (\<lambda>_. None), sw_tick = 0, sw_calls = 0\<rparr> x \<and>
     map fst (ex_done x) = [sample_request, sample_request] \<and>
     let_through_of sample_redis_deployment (make_key ''api'' ''caller'') (ex_done x) = 1"
proof -
  let ?d = sample_redis_deployment and ?K = "make_key ''api'' ''caller''"
  let ?w = "\<lparr>sw_state = (\<lambda>_. None), sw_tick = 0, sw_calls = 0\<rparr> :: map_redis store_world"
  obtain r1 r2 w where run: "runs_to ?d ?w w [] [(sample_request, r1), (sample_request, r2)] []"
    and tick: "sw_tick w = 2" using runs_sample(2) [OF sample_redis_runs, of ?w sample_request] by auto
  let ?x = "tasks_at ?d w [] [(sample_request, r1), (sample_request, r2)] []"
  have ms: "checked_window_millis (cfg_window sample_config) = Inr 60000"
    by (simp add: sample_window checked_millis_secs)
  have inv: "redis_invar True map_redis_api redis_store_new (sw_state ?w)" using empty_redis by simp
  have absent: "redis_live map_redis_api redis_store_new (sw_state ?w)
      (t_first (sample_redis_clock (sw_tick ?w))) ?K = None"
    by (simp add: redis_live_def map_redis_api_def map_redis_view_def)
  have window: "one_window (\<lambda>ts. redis_opens (t_first ts) (cfg_window sample_config)) t_first sample_redis_clock
      (sw_tick ?w) (sw_tick (ex_world ?x))"
    by (auto simp: one_window_def tasks_at_def tick sample_redis_clock_def redis_at_def redis_opens_def ms)
  have lim: "key_limit ?d ?K 1" by (simp add: key_limit_def redis_deployment_def)
  have small: "sw_tick (ex_world ?x) - sw_tick ?w \<le> nat (horizon True)"
    by (simp add: tasks_at_def tick horizon_def)
  note all = redis_concurrent_limit [OF refl map_redis_api_ok inv sample_redis_clock_runs sample_handler_passes lim
      absent run window small]
  have dn: "map fst (ex_done ?x) = [sample_request, sample_request]" by (simp add: tasks_at_def)
  have "requests_of ?d ?K [sample_request, sample_request] = 2"
    using sample_key by (simp add: requests_of_def client_def redis_deployment_def)
  moreover have "ex_running ?x = []" "ex_dropped ?x = []" by (simp_all add: tasks_at_def in_flight_def)
  ultimately have "let_through_of ?d ?K (ex_done ?x) = 1" using all unfolding dn by simp
  with run dn show ?thesis by (intro exI [of _ ?x] conjI)
qed

end
