(* ===== verification/RL_World.thy ===== *)
theory RL_World
  imports RL_Executor
begin

text \<open>
  The world of an application around the middleware: the shared store, a record of the requests
  that reached the inner service and of the requests that were answered as rate limited, and
  whatever else the application keeps.  Handlers, quota providers, extractors, response factories
  and trace subscribers are arbitrary programs on that last part, placed beside the store by
  \<open>hosted_service\<close> and \<open>hosted_limiter\<close>.
\<close>

section \<open>The world of an application\<close>

record ('s, 'p, 'b, 'x) shared_world =
  sh_store :: "'s store_world"
  sh_served :: "('p, 'b) http_request list"
  sh_rejected :: "('p, 'b) http_request list"
  sh_rest :: 'x

text \<open>A future that acts on a part of the world.\<close>

primcorec through :: "('w \<Rightarrow> 'v) \<Rightarrow> ('v \<Rightarrow> 'w \<Rightarrow> 'w) \<Rightarrow> ('v, 'a) future \<Rightarrow> ('w, 'a) future" where
  "through get put fut =
     Future (\<lambda>w. map_prod (map_poll id (through get put)) (\<lambda>v. put v w) (poll_future fut (get w)))"

declare through.simps [simp del]

abbreviation on_store :: "('s store_world, 'a) future \<Rightarrow> (('s, 'p, 'b, 'x) shared_world, 'a) future" where
  "on_store \<equiv> through sh_store (\<lambda>sw w. w\<lparr>sh_store := sw\<rparr>)"

abbreviation on_rest :: "('x, 'a) future \<Rightarrow> (('s, 'p, 'b, 'x) shared_world, 'a) future" where
  "on_rest \<equiv> through sh_rest (\<lambda>r w. w\<lparr>sh_rest := r\<rparr>)"

lemma poll_through:
  "poll_future (through get put fut) w =
     (case poll_future fut (get w) of (p, v) \<Rightarrow> (map_poll id (through get put) p, put v w))"
  by (simp add: through.simps split: prod.split)

text \<open>A store of the middleware in such a world.\<close>

definition shared_store :: "'s store_world store \<Rightarrow> ('s, 'p, 'b, 'x) shared_world store" where
  "shared_store st key win w =
     (case st key win (sh_store w) of (fut, sw) \<Rightarrow> (on_store fut, w\<lparr>sh_store := sw\<rparr>))"

section \<open>Increments performed between two worlds\<close>

definition performed ::
  "('s, 't) increment_fun \<Rightarrow> (nat \<Rightarrow> 't) \<Rightarrow> Duration set \<Rightarrow> 's store_world \<Rightarrow> 't charge list \<Rightarrow>
    (RateLimitError, Usage) result list \<Rightarrow> 's store_world \<Rightarrow> bool" where
  "performed inc clock wins sw cs rs sw' \<longleftrightarrow>
     run_charges inc (sw_state sw) cs = (rs, sw_state sw') \<and>
     sw_tick sw' = sw_tick sw + length cs \<and>
     (\<forall>i < length cs. fst (cs ! i) = clock (sw_tick sw + i)) \<and>
     (\<forall>(ts, k, win) \<in> set cs. win \<in> wins)"

definition advances ::
  "('s, 't) increment_fun \<Rightarrow> (nat \<Rightarrow> 't) \<Rightarrow> Duration set \<Rightarrow>
    ('s, 'p, 'b, 'x) shared_world \<Rightarrow> ('s, 'p, 'b, 'x) shared_world \<Rightarrow> bool" where
  "advances inc clock wins w w' \<longleftrightarrow>
     sh_served w' = sh_served w \<and> (\<exists>cs rs. performed inc clock wins (sh_store w) cs rs (sh_store w'))"

lemma performed_length: "performed inc clock wins sw cs rs sw' \<Longrightarrow> length rs = length cs"
  using length_run_charges by (fastforce simp: performed_def)

lemma performed_none:
  "sw_state sw' = sw_state sw \<Longrightarrow> sw_tick sw' = sw_tick sw \<Longrightarrow> performed inc clock wins sw [] [] sw'"
  by (simp add: performed_def)

lemma performed_trans:
  assumes "performed inc clock wins sw cs rs sw1" "performed inc clock wins sw1 cs' rs' sw2"
  shows "performed inc clock wins sw (cs @ cs') (rs @ rs') sw2"
  using assms by (auto simp: performed_def nth_append intro: run_charges_append)

lemma performed_charge:
  assumes "charge inc clock key win sw = (r, sw')" "win \<in> wins"
  shows "performed inc clock wins sw [(clock (sw_tick sw), key, win)] [r] sw'"
  using assms by (auto simp: performed_def charge_def split: prod.splits)

lemma performed_tick:
  assumes "performed inc clock wins sw cs rs sw'" "(ts, k, win) \<in> set cs"
  shows "\<exists>m. sw_tick sw \<le> m \<and> m < sw_tick sw' \<and> ts = clock m \<and> win \<in> wins"
proof -
  obtain i where "i < length cs" "cs ! i = (ts, k, win)" using assms(2) by (auto simp: in_set_conv_nth)
  then show ?thesis using assms by (intro exI [of _ "sw_tick sw + i"]) (force simp: performed_def)
qed

lemma advances_refl [simp]: "advances inc clock wins w w"
  using performed_none [of "sh_store w" "sh_store w"] unfolding advances_def by blast

lemma advances_rest [simp]: "advances inc clock wins w (w\<lparr>sh_rest := r\<rparr>)"
  using performed_none [of "sh_store w" "sh_store w"] unfolding advances_def by fastforce

lemma advances_calls: "advances inc clock wins w (w\<lparr>sh_store := (sh_store w)\<lparr>sw_calls := n\<rparr>\<rparr>)"
  unfolding advances_def by (intro conjI exI [of _ "[]"]) (simp_all add: performed_none)

lemma advances_trans:
  "advances inc clock wins w w1 \<Longrightarrow> advances inc clock wins w1 w2 \<Longrightarrow> advances inc clock wins w w2"
  unfolding advances_def using performed_trans by fastforce

section \<open>Futures of the application\<close>

text \<open>
  Every poll of \<open>fut\<close>, in whatever world it happens, changes the world within \<open>A\<close>, and the result
  satisfies \<open>P\<close>.
\<close>

coinductive calm :: "('w \<Rightarrow> 'w \<Rightarrow> bool) \<Rightarrow> ('a \<Rightarrow> bool) \<Rightarrow> ('w, 'a) future \<Rightarrow> bool" for A P where
  calm: "(\<And>w p w'. poll_future fut w = (p, w') \<Longrightarrow>
     A w w' \<and> (\<forall>r. p = Ready r \<longrightarrow> P r) \<and> (\<forall>fut'. p = Pending fut' \<longrightarrow> calm A P fut')) \<Longrightarrow> calm A P fut"

lemma calm_poll:
  assumes "calm A P fut" "poll_future fut w = (p, w')"
  shows "A w w'" and "p = Ready r \<Longrightarrow> P r" and "p = Pending fut' \<Longrightarrow> calm A P fut'"
  using assms by (auto elim: calm.cases)

lemma calm_mono: "calm A P fut \<Longrightarrow> (\<And>w w'. A w w' \<Longrightarrow> B w w') \<Longrightarrow> (\<And>r. P r \<Longrightarrow> Q r) \<Longrightarrow> calm B Q fut"
  by (coinduction arbitrary: fut) (blast dest: calm_poll)

abbreviation yields :: "('a \<Rightarrow> bool) \<Rightarrow> ('w, 'a) future \<Rightarrow> bool" where
  "yields \<equiv> calm (\<lambda>_ _. True)"

lemma yields_any [simp]: "yields (\<lambda>_. True) fut"
  by (coinduction arbitrary: fut) blast

lemma yields_ready [simp]: "yields P (ready a) \<longleftrightarrow> P a"
proof
  assume "yields P (ready a)"
  from calm_poll(2) [OF this poll_ready refl] show "P a" .
next
  assume "P a"
  then show "yields P (ready a)" by (intro calm) auto
qed

text \<open>A future that acts on the application's own part of the world is calm, whatever it does there.\<close>

lemma calm_on_rest:
  fixes fut :: "('x, 'a) future"
    and A :: "('s, 'p, 'b, 'x) shared_world \<Rightarrow> ('s, 'p, 'b, 'x) shared_world \<Rightarrow> bool"
  assumes "yields P fut" "\<And>w v. A w (w\<lparr>sh_rest := v\<rparr>)"
  shows "calm A P (on_rest fut)"
  using assms(1)
proof (coinduction arbitrary: fut)
  case calm
  show ?case
  proof (intro exI conjI allI impI refl)
    fix w w' :: "('s, 'p, 'b, 'x) shared_world" and p fut2
    assume poll: "poll_future (on_rest fut) w = (p, w')"
    obtain q v where q: "poll_future fut (sh_rest w) = (q, v)" by fastforce
    then have pw: "p = map_poll id on_rest q" "w' = w\<lparr>sh_rest := v\<rparr>" using poll by (simp_all add: poll_through)
    show "A w w'" by (simp add: pw assms(2))
    show "P r" if "p = Ready r" for r using calm_poll(2) [OF calm q] that pw(1) by (cases q) auto
    show "(\<exists>fut. fut2 = on_rest fut \<and> yields P fut) \<or> calm A P fut2" if "p = Pending fut2"
      using calm_poll(3) [OF calm q] that pw(1) by (cases q) auto
  qed (rule refl)
qed

section \<open>Any application\<close>

text \<open>
  Components that live in the application's own part of the world, placed beside the shared
  store.  The calls of the inner service and the rate-limited answers are recorded.
\<close>

definition hosted_service ::
  "('x, 'i, 'p, 'b, 'h, 'r, 'e) inner_service \<Rightarrow>
    (('s, 'p, 'b, 'x) shared_world, 'i, 'p, 'b, 'h, 'r, 'e) inner_service" where
  "hosted_service svc =
     \<lparr>svc_poll_ready = (\<lambda>i w. case svc_poll_ready svc i (sh_rest w) of
        (r, i', x) \<Rightarrow> (r, i', w\<lparr>sh_rest := x\<rparr>)),
      svc_call = (\<lambda>i q w. case svc_call svc i q (sh_rest w) of
        (fut, i', x) \<Rightarrow> (on_rest fut, i', w\<lparr>sh_rest := x\<rparr>)),
      svc_clone = (\<lambda>i w. case svc_clone svc i (sh_rest w) of (i', x) \<Rightarrow> (i', w\<lparr>sh_rest := x\<rparr>))\<rparr>"

definition tallied ::
  "(('s, 'p, 'b, 'x) shared_world, 'i, 'p, 'b, 'h, 'r, 'e) inner_service \<Rightarrow>
    (('s, 'p, 'b, 'x) shared_world, 'i, 'p, 'b, 'h, 'r, 'e) inner_service" where
  "tallied svc =
     svc\<lparr>svc_call := (\<lambda>i q w. svc_call svc i q (w\<lparr>sh_served := sh_served w @ [q]\<rparr>))\<rparr>"

definition recorded_service ::
  "('x, 'i, 'p, 'b, 'h, 'r, 'e) inner_service \<Rightarrow>
    (('s, 'p, 'b, 'x) shared_world, 'i, 'p, 'b, 'h, 'r, 'e) inner_service" where
  "recorded_service svc = tallied (hosted_service svc)"

lemmas recorded_service_defs = recorded_service_def tallied_def hosted_service_def

definition hosted_emit ::
  "(trace_event \<Rightarrow> 'x \<Rightarrow> 'x) \<Rightarrow> trace_event \<Rightarrow> ('s, 'p, 'b, 'x) shared_world \<Rightarrow> ('s, 'p, 'b, 'x) shared_world" where
  "hosted_emit emit event w = w\<lparr>sh_rest := emit event (sh_rest w)\<rparr>"

definition note_rejected ::
  "('p, 'b) http_request \<Rightarrow> ResponseReason \<Rightarrow> ('s, 'p, 'b, 'x) shared_world \<Rightarrow> ('s, 'p, 'b, 'x) shared_world" where
  "note_rejected q reason w =
     (case reason of
        Reason_RateLimited p \<Rightarrow> w\<lparr>sh_rejected := sh_rejected w @ [q]\<rparr>
      | Reason_Error e \<Rightarrow> w)"

definition hosted_limiter ::
  "('i, ('x, 'p, 'key) key_extractor, 's store_world store, ('x, 'p) limit_provider,
     ('x, 'p, 'b, 'h, 'r) factory, 'p) RateLimit \<Rightarrow>
    (('s, 'p, 'b, 'x) shared_world, 'p, 'b, 'h, 'r, 'i, 'key) rate_limit" where
  "hosted_limiter rl =
     \<lparr>r_inner = r_inner rl,
      r_key_extractor =
        \<lparr>ke_extract = (\<lambda>h w. case ke_extract (r_key_extractor rl) h (sh_rest w) of
           (r, x) \<Rightarrow> (r, w\<lparr>sh_rest := x\<rparr>)),
         ke_to_string = ke_to_string (r_key_extractor rl)\<rparr>,
      r_store = shared_store (r_store rl),
      r_limit_provider = (\<lambda>h w. case r_limit_provider rl h (sh_rest w) of
        (fut, x) \<Rightarrow> (on_rest fut, w\<lparr>sh_rest := x\<rparr>)),
      r_response_factory = (\<lambda>q reason w. case r_response_factory rl q reason (sh_rest w) of
        (response, x) \<Rightarrow> (response, note_rejected q reason (w\<lparr>sh_rest := x\<rparr>))),
      r_config = r_config rl\<rparr>"

text \<open>
  What is left to ask of the components: keys and bypasses are functions of the request head the
  layers do not touch, and a limit the provider resolves to is one that may be granted to the
  request.
\<close>

definition application_ok ::
  "('i, ('x, 'p, 'key) key_extractor, 's store_world store, ('x, 'p) limit_provider,
     ('x, 'p, 'b, 'h, 'r) factory, 'p) RateLimit \<Rightarrow> ('p \<Rightarrow> string) \<Rightarrow> ('p \<Rightarrow> u64 \<Rightarrow> bool) \<Rightarrow>
    ('p \<Rightarrow> bool) \<Rightarrow> bool" where
  "application_ok rl key granted bypass \<longleftrightarrow>
     (\<forall>q :: ('p, 'b) http_request. skips (r_config rl) q \<longleftrightarrow> bypass (parts q)) \<and>
     (\<forall>h x k x'. ke_extract (r_key_extractor rl) h x = (Inr k, x') \<longrightarrow>
        ke_to_string (r_key_extractor rl) k = key (parts h)) \<and>
     (\<forall>h x fut x'. r_limit_provider rl h x = (fut, x') \<longrightarrow>
        yields (\<lambda>r. \<forall>lim. r = Inr lim \<longrightarrow> granted (parts h) lim) fut)"

lemma hosted_extract:
  assumes "application_ok rl key granted bypass" "\<And>w v. A w (w\<lparr>sh_rest := v\<rparr>)"
    and "ke_extract (r_key_extractor (hosted_limiter rl)) h w = (r, w')"
  shows "A w w' \<and> (\<forall>x. r = Inr x \<longrightarrow> ke_to_string (r_key_extractor (hosted_limiter rl)) x = key (parts h))"
  using assms by (auto simp: hosted_limiter_def application_ok_def split: prod.splits, blast)

lemma hosted_provide:
  assumes "application_ok rl key granted bypass" "\<And>w v. A w (w\<lparr>sh_rest := v\<rparr>)"
    and "r_limit_provider (hosted_limiter rl) h w = (fut, w')"
  shows "A w w' \<and> calm A (\<lambda>r. \<forall>lim. r = Inr lim \<longrightarrow> granted (parts h) lim) fut"
  using assms by (auto simp: hosted_limiter_def application_ok_def intro!: calm_on_rest split: prod.splits, blast)

lemma advances_rejected [simp]: "advances inc clock wins w (note_rejected q reason (w\<lparr>sh_rest := x\<rparr>))"
  unfolding advances_def
  by (intro conjI exI [of _ "[]"]) (simp_all add: note_rejected_def performed_none split: ResponseReason.split)

lemma advances_served_rest:
  "advances inc clock wins (w\<lparr>sh_served := s\<rparr>) (w\<lparr>sh_served := s, sh_rest := x\<rparr>)"
  using advances_rest [of inc clock wins "w\<lparr>sh_served := s\<rparr>" x] by simp

end
