(* ===== verification/RL_Ledger.thy ===== *)
theory RL_Ledger
  imports RL_World
begin

text \<open>
  Keeping books on an execution.  A request that arrives brings a ticket for one increment of its
  key; the store turns the ticket into a result; the request leaves with the result, to the inner
  service or with a rate-limited answer, or is forgotten.  The locale \<open>ledger_application\<close> asks
  that books can be kept through each of these events, and its lemmas carry them through every
  poll of the middleware's futures and every step of the executor.  Two sets of books are kept:
  those of \<open>RL_Admission\<close>, on what reaches the inner service, and those of \<open>RL_Fairness\<close>, on
  what is turned away.
\<close>

section \<open>Tokens\<close>

datatype token = Ticket string | Result string "(RateLimitError, Usage) result"

fun ticket_of :: "token \<Rightarrow> string multiset" where
  "ticket_of (Ticket k) = {#k#}"
| "ticket_of (Result k r) = {#}"

fun result_of :: "token \<Rightarrow> (string \<times> (RateLimitError, Usage) result) multiset" where
  "result_of (Ticket k) = {#}"
| "result_of (Result k r) = {#(k, r)#}"

abbreviation tickets :: "token multiset \<Rightarrow> string multiset" where
  "tickets toks \<equiv> \<Sum>\<^sub># (image_mset ticket_of toks)"

abbreviation results :: "token multiset \<Rightarrow> (string \<times> (RateLimitError, Usage) result) multiset" where
  "results toks \<equiv> \<Sum>\<^sub># (image_mset result_of toks)"

lemma tokens_mono:
  assumes "toks' \<subseteq># toks"
  shows "tickets toks' \<subseteq># tickets toks" and "results toks' \<subseteq># results toks"
  using assms by (auto simp: subset_mset.le_iff_add)

text \<open>The requests an executor has been given: in flight, answered or dropped.\<close>

definition arrivals :: "('w, 's, 'req, 'out) executor \<Rightarrow> 'req multiset" where
  "arrivals x = mset (map fst (ex_running x)) + mset (map fst (ex_done x)) + mset (ex_dropped x)"

section \<open>Applications on which books are kept\<close>

text \<open>
  What is asked of the components around the middleware.  The store performs atomic increments.
  Everything else changes the world within \<open>A\<close>; a call of the inner service is recorded.  The
  client key and the bypass are functions of the request head that the layers do not touch, and a
  limit the provider resolves to is one that may be granted to the request.  The laws are asked of
  the instances of the inner service that can occur (\<open>inst\<close>).
\<close>

locale ledger_application =
  fixes inc :: "('s, 't) increment_fun"
    and clock :: "nat \<Rightarrow> 't"
    and plan :: "nat \<Rightarrow> nat \<Rightarrow> charge_plan"
    and key :: "'p \<Rightarrow> string"
    and bypass :: "'p \<Rightarrow> bool"
    and inst :: "'i \<Rightarrow> bool"
    and emit :: "trace_event \<Rightarrow> ('s, 'p, 'b, 'x) shared_world \<Rightarrow> ('s, 'p, 'b, 'x) shared_world"
    and svc :: "(('s, 'p, 'b, 'x) shared_world, 'i, 'p, 'b, 'h, 'r, 'e) inner_service"
    and rl :: "(('s, 'p, 'b, 'x) shared_world, 'p, 'b, 'h, 'r, 'i, 'key) rate_limit"
    and A :: "('s, 'p, 'b, 'x) shared_world \<Rightarrow> ('s, 'p, 'b, 'x) shared_world \<Rightarrow> bool"
    and granted :: "'p \<Rightarrow> u64 \<Rightarrow> bool"
    and books :: "('p, 'b) http_request multiset \<Rightarrow> ('s, 'p, 'b, 'x) shared_world \<Rightarrow> token multiset \<Rightarrow> bool"
  assumes bypasses: "skips (r_config rl) (q :: ('p, 'b) http_request) \<longleftrightarrow> bypass (parts q)"
    and store_atomic: "r_store rl k (cfg_window (r_config rl)) =
          shared_store (atomic_store inc clock plan) k (cfg_window (r_config rl))"
    and within_refl: "A w w"
    and emit_within: "A w (emit event w)"
    and inner_inst: "inst (r_inner rl)"
    and ready_within: "inst i \<Longrightarrow> svc_poll_ready svc i w = (ok, i', w') \<Longrightarrow> inst i' \<and> A w w'"
    and clone_within: "inst i \<Longrightarrow> svc_clone svc i w = (i', w') \<Longrightarrow> inst i' \<and> A w w'"
    and call_recorded: "inst i \<Longrightarrow> svc_call svc i q w = (fut, i', w') \<Longrightarrow>
          inst i' \<and> A (w\<lparr>sh_served := sh_served w @ [q]\<rparr>) w' \<and> calm A (\<lambda>_. True) fut"
    and extract_key: "ke_extract (r_key_extractor rl) h w = (extracted, w') \<Longrightarrow>
          A w w' \<and> (\<forall>x. extracted = Inr x \<longrightarrow> ke_to_string (r_key_extractor rl) x = key (parts h))"
    and provide_granted: "r_limit_provider rl h w = (limit_future, w') \<Longrightarrow>
          A w w' \<and> calm A (\<lambda>r. \<forall>lim. r = Inr lim \<longrightarrow> granted (parts h) lim) limit_future"
    and respond_error: "r_response_factory rl q (Reason_Error e) w = (response, w') \<Longrightarrow> A w w'"
    and books_within: "books arr w toks \<Longrightarrow> A w w' \<Longrightarrow> books arr w' toks"
    and books_calls: "books arr w toks \<Longrightarrow> books arr (w\<lparr>sh_store := (sh_store w)\<lparr>sw_calls := n\<rparr>\<rparr>) toks"
    and books_forget: "books arr w toks \<Longrightarrow> toks' \<subseteq># toks \<Longrightarrow> books arr w toks'"
    and books_arrive: "books arr w toks \<Longrightarrow> \<not> bypass (parts q) \<Longrightarrow>
          books (add_mset q arr) w (add_mset (Ticket (scoped_key (r_config rl) (key (parts q)))) toks)"
    and books_arrive_bypassed: "books arr w toks \<Longrightarrow> bypass (parts q) \<Longrightarrow> books (add_mset q arr) w toks"
    and books_charge: "books arr w (add_mset (Ticket k) toks) \<Longrightarrow>
          charge inc clock k (cfg_window (r_config rl)) (sh_store w) = (r, sw) \<Longrightarrow>
          books arr (w\<lparr>sh_store := sw\<rparr>) (add_mset (Result k r) toks)"
    and books_served: "books arr w (add_mset (Result (scoped_key (r_config rl) (key (parts q))) r) toks) \<Longrightarrow>
          \<not> bypass (parts q) \<Longrightarrow> granted (parts q) lim \<Longrightarrow>
          decide (r_config rl) lim r \<in> range Admit \<union> range Fail_Open \<Longrightarrow> parts q' = parts q \<Longrightarrow>
          books arr (w\<lparr>sh_served := sh_served w @ [q']\<rparr>) toks"
    and books_bypassed: "books arr w toks \<Longrightarrow> bypass (parts q) \<Longrightarrow>
          books arr (w\<lparr>sh_served := sh_served w @ [q]\<rparr>) toks"
    and books_rejected: "books arr w (add_mset (Result (scoped_key (r_config rl) (key (parts q))) r) toks) \<Longrightarrow>
          \<not> bypass (parts q) \<Longrightarrow> granted (parts q) lim \<Longrightarrow> decide (r_config rl) lim r = Limited p \<Longrightarrow>
          r_response_factory rl q (Reason_RateLimited p) w = (response, w') \<Longrightarrow> books arr w' toks"
begin

abbreviation config :: "'p RateLimitConfig" where
  "config \<equiv> r_config rl"

abbreviation client_key :: "('p, 'b) http_request \<Rightarrow> string" where
  "client_key q \<equiv> scoped_key config (key (parts q))"

text \<open>Where a request may stand, with the token it holds.\<close>

inductive job :: "(('s, 'p, 'b, 'x) shared_world, 'p, 'b, 'h, 'r, 'e) State \<Rightarrow> token multiset \<Rightarrow> bool" where
  job_limit: "\<not> bypass (parts q) \<Longrightarrow>
     calm A (\<lambda>r. \<forall>lim. r = Inr lim \<longrightarrow> granted (parts q) lim) fut \<Longrightarrow>
     job (State_Limit fut q (key (parts q))) {#Ticket (client_key q)#}"
| job_waiting: "\<not> bypass (parts q) \<Longrightarrow> granted (parts q) lim \<Longrightarrow>
     job (State_Store (on_store (charging (charge inc clock (client_key q) (cfg_window config)) n m)) q lim)
       {#Ticket (client_key q)#}"
| job_charged: "\<not> bypass (parts q) \<Longrightarrow> granted (parts q) lim \<Longrightarrow>
     job (State_Store (on_store (delayed m r)) q lim) {#Result (client_key q) r#}"
| job_inner: "calm A (\<lambda>_. True) fut \<Longrightarrow> job (State_Inner fut metadata) {#}"
| job_rejected: "\<not> bypass (parts q) \<Longrightarrow> granted (parts q) lim \<Longrightarrow> decide config lim r = Limited p \<Longrightarrow>
     job (State_Ready (Middleware_RateLimited q (metadata_of config p))) {#Result (client_key q) r#}"
| job_failed: "job (State_Ready (Middleware_Error q e)) {#}"
| job_done: "job State_Done {#}"

definition running ::
  "(('s, 'p, 'b, 'x) shared_world, 'p, 'b, 'h, 'r, 'e, 'i) ResponseFuture \<Rightarrow> token multiset \<Rightarrow> bool" where
  "running this pending \<longleftrightarrow>
     f_store this = r_store rl \<and> f_config this = config \<and> f_factory this = r_response_factory rl \<and>
     inst (f_inner this) \<and> job (f_state this) pending"

text \<open>What a round of the poll loop leaves behind, beside the tokens \<open>rest\<close> of other requests.\<close>

fun kept ::
  "('p, 'b) http_request multiset \<Rightarrow> token multiset \<Rightarrow>
    (('e, ('h, 'r) response) result, (('s, 'p, 'b, 'x) shared_world, 'p, 'b, 'h, 'r, 'e, 'i) ResponseFuture,
     ('s, 'p, 'b, 'x) shared_world) loop \<Rightarrow> bool" where
  "kept arr rest (Return (Ready out) this w) \<longleftrightarrow> books arr w rest"
| "kept arr rest (Return (Pending u) this w) \<longleftrightarrow> (\<exists>pending. running this pending \<and> books arr w (pending + rest))"
| "kept arr rest (Return (Panic msg) this w) \<longleftrightarrow> True"
| "kept arr rest (Continue this w) \<longleftrightarrow> (\<exists>pending. running this pending \<and> books arr w (pending + rest))"

lemma emits: "A w (report emit config e w)"
  using emit_within by (simp add: trace_store_failure_def Let_def split: Level.split)

text \<open>Acting on a result: the request goes to the inner service or is answered.\<close>

lemma after_store_kept:
  assumes "running this pending" "\<not> bypass (parts q)" "granted (parts q) lim"
    and "books arr w ({#Result (client_key q) r#} + rest)"
  shows "kept arr rest (let (this', w') = after_store emit svc this q lim r w in Continue this' w')"
proof -
  have fields: "f_config this = config" "inst (f_inner this)" using assms(1) by (simp_all add: running_def)
  have runs: "running (this\<lparr>f_inner := i\<rparr>\<lparr>f_state := st\<rparr>) toks" if "inst i" "job st toks" for i st toks
    using assms(1) that by (simp add: running_def)
  have served: "kept arr rest (Continue (this\<lparr>f_inner := i\<rparr>\<lparr>f_state := State_Inner fut md\<rparr>) w')"
    if "svc_call svc (f_inner this) q' v = (fut, i, w')" "parts q' = parts q" "A w v"
      "decide config lim r \<in> range Admit \<union> range Fail_Open" for q' v fut i w' md
  proof -
    note call = call_recorded [OF fields(2) that(1)]
    have "books arr v (add_mset (Result (client_key q) r) rest)"
      using books_within [OF assms(4) that(3)] by simp
    then have "books arr (v\<lparr>sh_served := sh_served v @ [q']\<rparr>) rest"
      by (rule books_served [OF _ assms(2,3) that(4,2)])
    then have "books arr w' rest" using books_within call by blast
    with runs [OF _ job_inner] call show ?thesis by (auto intro!: exI [of _ "{#}"])
  qed
  have rejected: "kept arr rest (Continue (this\<lparr>f_state := State_Ready (Middleware_RateLimited q (metadata_of config p))\<rparr>) w)"
    if "decide config lim r = Limited p" for p
    using runs [OF fields(2) job_rejected [OF assms(2,3) that]] assms(4) by fastforce
  have failed: "kept arr rest (Continue (this\<lparr>f_state := State_Ready (Middleware_Error q e)\<rparr>) v)" if "A w v" for e v
    using runs [OF fields(2) job_failed] books_forget [OF books_within [OF assms(4) that], of rest]
    by (auto intro!: exI [of _ "{#}"])
  show ?thesis
    using served rejected failed emits within_refl
    by (cases "decide config lim r")
      (auto simp: after_store_decide fields(1) append_context_frame simp del: kept.simps split: prod.splits)
qed

end

context ledger_application
begin

lemma ready_bang_kept:
  assumes "poll_future fut w = (p, w')"
    and "\<And>fut'. p = Pending fut' \<Longrightarrow> \<exists>pending. running (mk fut') pending \<and> books arr w' (pending + rest)"
    and "\<And>r. p = Ready r \<Longrightarrow> kept arr rest (k r w')"
  shows "kept arr rest (ready_bang fut mk k w)"
  using assms by (cases p) (simp_all add: ready_bang_def)

lemma waiting_runs:
  assumes "running this pending" "\<not> bypass (parts q)" "granted (parts q) lim"
  shows "running (this\<lparr>f_state := State_Store
      (on_store (charging (charge inc clock (client_key q) (cfg_window config)) n m)) q lim\<rparr>) {#Ticket (client_key q)#}"
    and "running (this\<lparr>f_state := State_Store (on_store (delayed m r)) q lim\<rparr>) {#Result (client_key q) r#}"
  using assms by (auto simp: running_def intro: job.intros)

text \<open>The \<open>Limit\<close> arm: the limit resolves, and the store is called.\<close>

lemma after_limit_kept:
  assumes "running this pending" "\<not> bypass (parts q)"
    and "\<And>lim. r = Inr lim \<Longrightarrow> granted (parts q) lim"
    and "books arr w ({#Ticket (client_key q)#} + rest)"
  shows "kept arr rest (let (this', w') = after_limit this q (key (parts q)) r w in Continue this' w')"
proof (cases r)
  case (Inl e)
  have "running (this\<lparr>f_state := State_Ready (Middleware_Error q e)\<rparr>) {#}"
    using assms(1) by (auto simp: running_def intro: job.intros)
  moreover have "books arr w rest" by (rule books_forget [OF assms(4)]) simp
  ultimately show ?thesis using Inl by (auto simp: after_limit_def intro!: exI [of _ "{#}"])
next
  case (Inr lim)
  let ?win = "cfg_window config"
  have fields: "f_store this = r_store rl" "f_config this = config" using assms(1) by (simp_all add: running_def)
  note runs = waiting_runs [OF assms(1,2) assms(3) [OF Inr]]
  show ?thesis
  proof (cases "plan (sw_calls (sh_store w)) (sw_tick (sh_store w))")
    case (At_Call m)
    obtain x sw where c: "charge inc clock (client_key q) ?win (sh_store w) = (x, sw)" by fastforce
    have "books arr (w\<lparr>sh_store := sw\<rparr>) ({#Result (client_key q) x#} + rest)"
      using books_charge [OF _ c] assms(4) by simp
    with runs(2) [of m x] show ?thesis
      by (auto simp: after_limit_def Inr fields store_atomic shared_store_def atomic_store_def At_Call c)
  next
    case (On_Poll n m)
    from books_calls [OF assms(4)] runs(1) [of n m] show ?thesis
      by (auto simp: after_limit_def Inr fields store_atomic
          shared_store_def atomic_store_def On_Poll intro!: exI [of _ "{#Ticket (client_key q)#}"])
  qed
qed

text \<open>The \<open>Store\<close> arm, before the increment and after it.\<close>

lemma charged_kept:
  assumes "running this pending" "\<not> bypass (parts q)" "granted (parts q) lim"
    and "books arr w ({#Result (client_key q) r#} + rest)"
  shows "kept arr rest (ready_bang (on_store (delayed m r)) (\<lambda>fut. this\<lparr>f_state := State_Store fut q lim\<rparr>)
    (\<lambda>r w. let (this', w') = after_store emit svc this q lim r w in Continue this' w') w)"
proof (cases m)
  case 0
  have "kept arr rest (let (this', w') = after_store emit svc this q lim r w in Continue this' w')"
    by (rule after_store_kept [OF assms])
  then show ?thesis by (simp add: 0 ready_bang_def poll_through)
next
  case (Suc m')
  have "poll_future (on_store (delayed (Suc m') r)) w = (Pending (on_store (delayed m' r)), w)"
    by (simp add: poll_through)
  then show ?thesis
    unfolding Suc using waiting_runs(2) [OF assms(1-3), of m' r] assms(4)
    by (intro ready_bang_kept) (auto intro!: exI [of _ "{#Result (client_key q) r#}"] simp del: delayed.simps)
qed

lemma waiting_kept:
  assumes "running this pending" "\<not> bypass (parts q)" "granted (parts q) lim"
    and "books arr w ({#Ticket (client_key q)#} + rest)"
  shows "kept arr rest (ready_bang (on_store (charging (charge inc clock (client_key q) (cfg_window config)) n m))
    (\<lambda>fut. this\<lparr>f_state := State_Store fut q lim\<rparr>)
    (\<lambda>r w. let (this', w') = after_store emit svc this q lim r w in Continue this' w') w)"
proof (cases n)
  case 0
  obtain x sw where c: "charge inc clock (client_key q) (cfg_window config) (sh_store w) = (x, sw)" by fastforce
  have "books arr (w\<lparr>sh_store := sw\<rparr>) ({#Result (client_key q) x#} + rest)"
    using books_charge [OF _ c] assms(4) by simp
  note later = charged_kept [OF assms(1-3) this, of m]
  have "poll_future (on_store (charging (charge inc clock (client_key q) (cfg_window config)) 0 m)) w =
      poll_future (on_store (delayed m x)) (w\<lparr>sh_store := sw\<rparr>)"
    by (simp add: poll_through poll_charging poll_delayed c del: charging.simps delayed.simps split: nat.split)
  then show ?thesis
    using later by (simp add: 0 ready_bang_def)
      (simp add: poll_through poll_delayed del: delayed.simps split: nat.splits)
next
  case (Suc n')
  have "poll_future (on_store (charging (charge inc clock (client_key q) (cfg_window config)) (Suc n') m)) w =
      (Pending (on_store (charging (charge inc clock (client_key q) (cfg_window config)) n' m)), w)"
    by (simp add: poll_through poll_charging del: charging.simps)
  then show ?thesis
    unfolding Suc using waiting_runs(1) [OF assms(1-3)] assms(4)
    by (intro ready_bang_kept) (auto intro!: exI [of _ "{#Ticket (client_key q)#}"])
qed

end

context ledger_application
begin

text \<open>One round of the loop keeps the books.\<close>

lemma round_kept:
  assumes "running this pending" "books arr w (pending + rest)"
  shows "kept arr rest (poll_step hdr emit svc this w)"
proof -
  have "job (f_state this) pending" using assms(1) by (simp add: running_def)
  then show ?thesis
  proof cases
    case (job_limit q fut)
    obtain p w' where poll: "poll_future fut w = (p, w')" by fastforce
    have b: "books arr w' ({#Ticket (client_key q)#} + rest)"
      using books_within [OF assms(2) calm_poll(1) [OF job_limit(4) poll]] job_limit(2) by simp
    show ?thesis
      unfolding poll_step_def job_limit(1) State.case
    proof (rule ready_bang_kept [OF poll])
      fix fut' assume "p = Pending fut'"
      from calm_poll(3) [OF job_limit(4) poll this] job_limit(3) assms(1)
      have "running (this\<lparr>f_state := State_Limit fut' q (key (parts q))\<rparr>) {#Ticket (client_key q)#}"
        by (auto simp: running_def intro: job.intros)
      with b show "\<exists>pending. running (this\<lparr>f_state := State_Limit fut' q (key (parts q))\<rparr>) pending \<and>
          books arr w' (pending + rest)" by blast
    next
      fix r assume "p = Ready r"
      from calm_poll(2) [OF job_limit(4) poll this]
      show "kept arr rest (let (this', w'') = after_limit this q (key (parts q)) r w' in Continue this' w'')"
        by (intro after_limit_kept [OF assms(1) job_limit(3) _ b]) simp
    qed
  next
    case (job_waiting q lim n m)
    then show ?thesis
      using waiting_kept [OF assms(1) job_waiting(3,4), of arr w rest n m] assms(2) by (simp add: poll_step_def)
  next
    case (job_charged q lim m r)
    then show ?thesis
      using charged_kept [OF assms(1) job_charged(3,4), of arr w r rest m] assms(2) by (simp add: poll_step_def)
  next
    case (job_inner fut metadata)
    obtain p w' where poll: "poll_future fut w = (p, w')" by fastforce
    have b: "books arr w' rest"
      using books_within [OF assms(2) calm_poll(1) [OF job_inner(3) poll]] job_inner(2) by simp
    show ?thesis
      unfolding poll_step_def job_inner(1) State.case
    proof (rule ready_bang_kept [OF poll])
      fix fut' assume "p = Pending fut'"
      from calm_poll(3) [OF job_inner(3) poll this] assms(1)
      have "running (this\<lparr>f_state := State_Inner fut' metadata\<rparr>) {#}"
        by (auto simp: running_def intro: job.intros)
      with b show "\<exists>pending. running (this\<lparr>f_state := State_Inner fut' metadata\<rparr>) pending \<and>
          books arr w' (pending + rest)" by (intro exI [of _ "{#}"]) simp
    qed (simp add: b)
  next
    case (job_rejected q lim r p)
    obtain response w' where f: "r_response_factory rl q (Reason_RateLimited p) w = (response, w')" by fastforce
    have "books arr w (add_mset (Result (client_key q) r) rest)" using assms(2) job_rejected(2) by simp
    then have "books arr w' rest" by (rule books_rejected [OF _ job_rejected(3-5) f])
    moreover have "f_factory this = r_response_factory rl" using assms(1) by (simp add: running_def)
    ultimately show ?thesis by (simp add: poll_step_def job_rejected(1) f)
  next
    case (job_failed q e)
    obtain response w' where f: "r_response_factory rl q (Reason_Error e) w = (response, w')" by fastforce
    have "books arr w' rest" using books_within [OF assms(2) respond_error [OF f]] job_failed(2) by simp
    moreover have "f_factory this = r_response_factory rl" using assms(1) by (simp add: running_def)
    ultimately show ?thesis by (simp add: poll_step_def job_failed(1) f)
  next
    case job_done
    then show ?thesis by (simp add: poll_step_def)
  qed
qed

end

context ledger_application
begin

text \<open>And so does a poll.\<close>

fun poll_kept ::
  "('h, 'v) header_api \<Rightarrow> ('p, 'b) http_request multiset \<Rightarrow> token multiset \<Rightarrow>
    (('e, ('h, 'r) response) result, (('s, 'p, 'b, 'x) shared_world, ('e, ('h, 'r) response) result) future) poll \<Rightarrow>
    ('s, 'p, 'b, 'x) shared_world \<Rightarrow> bool" where
  "poll_kept hdr arr rest (Ready out) w \<longleftrightarrow> books arr w rest"
| "poll_kept hdr arr rest (Pending fut) w \<longleftrightarrow>
     (\<exists>this pending. fut = as_future hdr emit svc this \<and> running this pending \<and> books arr w (pending + rest))"
| "poll_kept hdr arr rest (Panic msg) w \<longleftrightarrow> True"

lemma polls_kept:
  assumes "running this pending" "books arr w (pending + rest)"
    and "poll_future (as_future hdr emit svc this) w = (p, w')"
  shows "poll_kept hdr arr rest p w'"
  using assms
proof (induction "state_rank (f_state this)" arbitrary: this w pending rule: less_induct)
  case less
  note round = round_kept [OF less.prems(1,2), of hdr]
  show ?case
  proof (cases "poll_step hdr emit svc this w")
    case (Return r this' v)
    then show ?thesis
      using round less.prems(3) by (cases r) (auto simp: poll_future_as_future [of _ _ _ this], blast)
  next
    case (Continue this' v)
    then obtain pending' where "running this' pending'" "books arr v (pending' + rest)" using round by auto
    from less.hyps [OF poll_step_rank [OF Continue] this] show ?thesis
      using less.prems(3) Continue by (simp add: poll_future_as_future [of _ _ _ this])
  qed
qed

text \<open>A call of the service starts a request.\<close>

lemma call_kept:
  assumes "svc_call (rate_limit_service hdr emit svc) (rl\<lparr>r_inner := i\<rparr>) q w = (fut, rl', w')"
    and "books arr w rest" "inst i"
  shows "\<exists>this toks i'. fut = as_future hdr emit svc this \<and> running this toks \<and>
    books (add_mset q arr) w' (toks + rest) \<and> rl' = rl\<lparr>r_inner := i'\<rparr> \<and> inst i'"
proof -
  obtain c w1 where c: "svc_clone svc i w = (c, w1)" by fastforce
  note clone = clone_within [OF assms(3) c]
  have b: "books arr w1 rest" using books_within [OF assms(2)] clone by blast
  show ?thesis
  proof (cases "bypass (parts q)")
    case True
    obtain f i' w2 where f: "svc_call svc i q w1 = (f, i', w2)" using prod_cases3 by blast
    note call = call_recorded [OF assms(3) f]
    have "books (add_mset q arr) w2 ({#} + rest)"
      using books_within [OF books_bypassed [OF books_arrive_bypassed [OF b True] True]] call by simp
    moreover have "running \<lparr>f_state = State_Inner f None, f_inner = i', f_store = r_store rl,
        f_config = config, f_factory = r_response_factory rl\<rparr> {#}"
      using call by (auto simp: running_def intro: job.intros)
    ultimately show ?thesis
      using assms(1) True bypasses [of q] clone
      by (auto simp: rate_limit_service_def call_def c check_skip response_future_skipped_def f intro!: exI [of _ "{#}"])
  next
    case False
    obtain r w2 where e: "ke_extract (r_key_extractor rl) (request_head q) w1 = (r, w2)" by fastforce
    have b2: "books (add_mset q arr) w2 ({#Ticket (client_key q)#} + rest)"
      using books_within [OF books_arrive [OF b False]] extract_key [OF e] by simp
    have head: "parts (request_head q) = parts q" by (simp add: request_head_def into_parts_def from_parts_def)
    show ?thesis
    proof (cases r)
      case (Inl err)
      have "running (response_future_error q err i (r_store rl) config (r_response_factory rl)) {#}"
        using assms(3) by (auto simp: running_def response_future_error_def intro: job.intros)
      moreover have "books (add_mset q arr) w2 ({#} + rest)" by (rule books_forget [OF b2]) simp
      ultimately show ?thesis
        using assms(1) False bypasses [of q] Inl clone
        by (auto simp: rate_limit_service_def call_def c check_skip e intro!: exI [of _ "{#}"])
    next
      case (Inr x)
      obtain lf w3 where l: "r_limit_provider rl (request_head q) w2 = (lf, w3)" by fastforce
      note provided = provide_granted [OF l, unfolded head]
      have "books (add_mset q arr) w3 ({#Ticket (client_key q)#} + rest)" using books_within [OF b2] provided by blast
      moreover have "ke_to_string (r_key_extractor rl) x = key (parts q)"
        using extract_key [OF e] Inr head by simp
      then have "running (response_future_new q i (r_store rl) (ke_to_string (r_key_extractor rl) x) lf config
          (r_response_factory rl)) {#Ticket (client_key q)#}"
        using provided False assms(3) by (auto simp: running_def response_future_new_def intro: job.intros)
      ultimately show ?thesis
        using assms(1) False bypasses [of q] Inr clone
        by (auto simp: rate_limit_service_def call_def c check_skip e l intro!: exI [of _ "{#Ticket (client_key q)#}"])
    qed
  qed
qed

end

context ledger_application
begin

text \<open>
  The state of an execution: the service is the limiter with some inner instance, every future
  in flight is a response future of its, and the books are kept.
\<close>

abbreviation flying ::
  "('h, 'v) header_api \<Rightarrow>
    (('p, 'b) http_request \<times> (('s, 'p, 'b, 'x) shared_world, ('e, ('h, 'r) response) result) future) list \<Rightarrow>
    ((('s, 'p, 'b, 'x) shared_world, 'p, 'b, 'h, 'r, 'e, 'i) ResponseFuture \<times>
      token multiset) list \<Rightarrow> bool" where
  "flying hdr \<equiv> list_all2 (\<lambda>f j. snd f = as_future hdr emit svc (fst j) \<and> running (fst j) (snd j))"

definition in_books ::
  "('h, 'v) header_api \<Rightarrow>
    (('s, 'p, 'b, 'x) shared_world, (('s, 'p, 'b, 'x) shared_world, 'p, 'b, 'h, 'r, 'i, 'key) rate_limit,
      ('p, 'b) http_request, ('e, ('h, 'r) response) result) executor \<Rightarrow> bool" where
  "in_books hdr x \<longleftrightarrow>
     (\<exists>i jobs. ex_service x = rl\<lparr>r_inner := i\<rparr> \<and> inst i \<and>
        flying hdr (ex_running x) jobs \<and>
        books (arrivals x) (ex_world x) (sum_list (map snd jobs)))"

lemma in_booksI:
  assumes "ex_service x = rl\<lparr>r_inner := i\<rparr> \<and> inst i"
    and "flying hdr (ex_running x) jobs"
    and "books (arrivals x) (ex_world x) (sum_list (map snd jobs))"
  shows "in_books hdr x"
  using assms unfolding in_books_def by blast

text \<open>The books with one of the requests in flight set apart.\<close>

lemma in_books_split:
  assumes "in_books hdr x" "ex_running x = before @ (q, fut) # after"
  obtains i jobs1 this pending jobs2
  where "ex_service x = rl\<lparr>r_inner := i\<rparr> \<and> inst i" "fut = as_future hdr emit svc this" "running this pending"
    "flying hdr before jobs1"
    "flying hdr after jobs2"
    "books (arrivals x) (ex_world x) (pending + (sum_list (map snd jobs1) + sum_list (map snd jobs2)))"
proof -
  obtain i jobs where j: "ex_service x = rl\<lparr>r_inner := i\<rparr> \<and> inst i"
    "flying hdr (before @ (q, fut) # after) jobs"
    "books (arrivals x) (ex_world x) (sum_list (map snd jobs))"
    using assms unfolding in_books_def by auto
  from j(2) obtain jobs1 this pending jobs2 where jobs: "jobs = jobs1 @ (this, pending) # jobs2"
    "flying hdr before jobs1"
    "fut = as_future hdr emit svc this" "running this pending"
    "flying hdr after jobs2"
    by (fastforce simp: list_all2_append1 list_all2_Cons1)
  have "sum_list (map snd jobs) = pending + (sum_list (map snd jobs1) + sum_list (map snd jobs2))"
    by (simp add: jobs(1) ac_simps)
  then show ?thesis
    using j(1,3) jobs(2-5) by (intro that [of i this pending jobs1 jobs2]) simp_all
qed

lemma step_in_books:
  assumes "executor_step (rate_limit_service hdr emit svc) x y" "in_books hdr x"
  shows "in_books hdr y"
  using assms(1)
proof cases
  case (arrives s1 w1 q fut s2 w2)
  obtain i jobs where j: "ex_service x = rl\<lparr>r_inner := i\<rparr> \<and> inst i"
    "flying hdr (ex_running x) jobs"
    "books (arrivals x) (ex_world x) (sum_list (map snd jobs))"
    using assms(2) unfolding in_books_def by blast
  obtain ok i1 v where ready: "svc_poll_ready svc i (ex_world x) = (ok, i1, v)" using prod_cases3 by blast
  have s1: "s1 = rl\<lparr>r_inner := i1\<rparr>" "w1 = v"
    using arrives(2) by (simp_all add: j(1) rate_limit_service_def poll_ready_def ready)
  have "books (arrivals x) w1 (sum_list (map snd jobs))"
    using books_within [OF j(3)] ready_within [OF _ ready] j(1) s1(2) by blast
  from call_kept [OF arrives(3) [unfolded s1(1)] this] ready_within [OF _ ready] j(1) obtain this toks i' where
    c: "fut = as_future hdr emit svc this" "running this toks"
      "books (add_mset q (arrivals x)) w2 (toks + sum_list (map snd jobs))"
      "s2 = rl\<lparr>r_inner := i'\<rparr>" "inst i'" by blast
  show ?thesis
    using c j(2) by (intro in_booksI [of _ i' _ "jobs @ [(this, toks)]"])
      (simp_all add: arrives(1) arrivals_def list_all2_appendI ac_simps)
next
  case (polled_pending before q fut after fut' w')
  from in_books_split [OF assms(2) polled_pending(2)] obtain i jobs1 this pending jobs2
  where j: "ex_service x = rl\<lparr>r_inner := i\<rparr> \<and> inst i" "fut = as_future hdr emit svc this" "running this pending"
    "flying hdr before jobs1"
    "flying hdr after jobs2"
    "books (arrivals x) (ex_world x) (pending + (sum_list (map snd jobs1) + sum_list (map snd jobs2)))" .
  from polls_kept [OF j(3,6) polled_pending(3) [unfolded j(2)]] obtain this' pending' where
    p: "fut' = as_future hdr emit svc this'" "running this' pending'"
      "books (arrivals x) w' (pending' + (sum_list (map snd jobs1) + sum_list (map snd jobs2)))" by auto
  show ?thesis
    using j(1,4,5) p by (intro in_booksI [of _ i _ "jobs1 @ (this', pending') # jobs2"])
      (simp_all add: polled_pending(1,2) arrivals_def list_all2_appendI ac_simps)
next
  case (polled_ready before q fut after out w')
  from in_books_split [OF assms(2) polled_ready(2)] obtain i jobs1 this pending jobs2
  where j: "ex_service x = rl\<lparr>r_inner := i\<rparr> \<and> inst i" "fut = as_future hdr emit svc this" "running this pending"
    "flying hdr before jobs1"
    "flying hdr after jobs2"
    "books (arrivals x) (ex_world x) (pending + (sum_list (map snd jobs1) + sum_list (map snd jobs2)))" .
  from polls_kept [OF j(3,6) polled_ready(3) [unfolded j(2)]]
  show ?thesis
    using j(1,4,5) by (intro in_booksI [of _ i _ "jobs1 @ jobs2"])
      (simp_all add: polled_ready(1,2) arrivals_def list_all2_appendI)
next
  case (dropped before q fut after)
  from in_books_split [OF assms(2) dropped(2)] obtain i jobs1 this pending jobs2
  where j: "ex_service x = rl\<lparr>r_inner := i\<rparr> \<and> inst i" "fut = as_future hdr emit svc this" "running this pending"
    "flying hdr before jobs1"
    "flying hdr after jobs2"
    "books (arrivals x) (ex_world x) (pending + (sum_list (map snd jobs1) + sum_list (map snd jobs2)))" .
  from books_forget [OF j(6)] show ?thesis
    using j(1,4,5) by (intro in_booksI [of _ i _ "jobs1 @ jobs2"])
      (simp_all add: dropped(1,2) arrivals_def list_all2_appendI)
qed

lemma executes_in_books:
  assumes "executes (rate_limit_service hdr emit svc) rl w x" "books {#} w {#}"
  shows "\<exists>toks. books (arrivals x) (ex_world x) toks"
proof -
  have "in_books hdr x"
    using assms(1)
  proof induction
    case executes_start
    show ?case
      using assms(2) inner_inst
      by (intro in_booksI [of _ "r_inner rl" _ "[]"]) (simp_all add: executor_start_def arrivals_def)
  qed (blast intro: step_in_books)
  then show ?thesis unfolding in_books_def by blast
qed

end

end
