(* ===== verification/RL_Admission.thy ===== *)
theory RL_Admission
  imports RL_Ledger
begin

text \<open>
  How often the inner service is called, for any application: handlers, quota providers,
  extractors, response factories and trace subscribers are arbitrary, take any number of polls,
  and may themselves charge the store.  The locale \<open>limited_application\<close> states what is asked of
  the components; the books it keeps are those of \<open>accounted\<close>.
\<close>

section \<open>Accounting\<close>

text \<open>A result that lets a request through under some limit of at most \<open>n\<close>.\<close>

definition passes :: "'p RateLimitConfig \<Rightarrow> nat \<Rightarrow> (RateLimitError, Usage) result \<Rightarrow> bool" where
  "passes config n r \<longleftrightarrow>
     (\<exists>lim. unat lim \<le> n \<and>
        (case decide config lim r of Admit p \<Rightarrow> True | Fail_Open e \<Rightarrow> True | Limited p \<Rightarrow> False | Refuse e \<Rightarrow> False))"

text \<open>The keys of increments with their results.\<close>

definition charged_keys ::
  "'t charge list \<Rightarrow> (RateLimitError, Usage) result list \<Rightarrow> (string \<times> (RateLimitError, Usage) result) multiset" where
  "charged_keys cs rs = mset (zip (map (\<lambda>(ts, k, win). k) cs) rs)"

lemma charged_keys_append:
  "length cs = length rs \<Longrightarrow> charged_keys (cs @ cs') (rs @ rs') = charged_keys cs rs + charged_keys cs' rs'"
  by (simp add: charged_keys_def)

lemma charged_keys_single [simp]: "charged_keys [(ts, k, win)] [r] = {#(k, r)#}"
  by (simp add: charged_keys_def)

text \<open>
  The books of an execution that began in \<open>w0\<close>: each request that reached the inner service
  without a bypass did so on the result of an increment of its own key, no two of them on the
  same increment, and the results in \<open>held\<close> belong to yet other increments.
\<close>

definition accounted ::
  "('s, 't) increment_fun \<Rightarrow> (nat \<Rightarrow> 't) \<Rightarrow> Duration set \<Rightarrow> 'p RateLimitConfig \<Rightarrow> ('p \<Rightarrow> string) \<Rightarrow>
    ('p \<Rightarrow> nat) \<Rightarrow> ('p \<Rightarrow> bool) \<Rightarrow> 's store_world \<Rightarrow> ('s, 'p, 'b, 'x) shared_world \<Rightarrow>
    (string \<times> (RateLimitError, Usage) result) multiset \<Rightarrow> bool" where
  "accounted inc clock wins config key quota bypass sw0 w pending \<longleftrightarrow>
     (\<exists>cs rs adm. performed inc clock wins sw0 cs rs (sh_store w) \<and>
        map fst adm = map parts (filter (\<lambda>q. \<not> bypass (parts q)) (sh_served w)) \<and>
        (\<forall>(p, r) \<in> set adm. passes config (quota p) r) \<and>
        image_mset (\<lambda>(p, r). (scoped_key config (key p), r)) (mset adm) + pending \<subseteq># charged_keys cs rs)"

lemma accounted_start:
  "sh_store w = sw0 \<Longrightarrow> sh_served w = [] \<Longrightarrow>
   accounted inc clock wins config key quota bypass sw0 w {#}"
  unfolding accounted_def
  by (intro exI [of _ "[]"]) (auto simp: performed_none charged_keys_def)

lemma accounted_advances:
  assumes "accounted inc clock wins config key quota bypass sw0 w pending" "advances inc clock wins w w'"
  shows "accounted inc clock wins config key quota bypass sw0 w' pending"
proof -
  obtain cs rs adm where a: "performed inc clock wins sw0 cs rs (sh_store w)"
    "map fst adm = map parts (filter (\<lambda>q. \<not> bypass (parts q)) (sh_served w))"
    "\<forall>(p, r) \<in> set adm. passes config (quota p) r"
    "image_mset (\<lambda>(p, r). (scoped_key config (key p), r)) (mset adm) + pending \<subseteq># charged_keys cs rs"
    using assms(1) unfolding accounted_def by blast
  obtain cs' rs' where p: "performed inc clock wins (sh_store w) cs' rs' (sh_store w')" "sh_served w' = sh_served w"
    using assms(2) unfolding advances_def by blast
  have "charged_keys (cs @ cs') (rs @ rs') = charged_keys cs rs + charged_keys cs' rs'"
    using performed_length [OF a(1)] by (simp add: charged_keys_append)
  then have "image_mset (\<lambda>(p, r). (scoped_key config (key p), r)) (mset adm) + pending
      \<subseteq># charged_keys (cs @ cs') (rs @ rs')"
    using subset_mset.add_increasing2 [OF _ a(4)] by simp
  with performed_trans [OF a(1) p(1)] a(2,3) p(2) show ?thesis
    unfolding accounted_def by (intro exI conjI) simp_all
qed

lemma accounted_charge:
  assumes "accounted inc clock wins config key quota bypass sw0 w pending" "win \<in> wins"
    and "charge inc clock k win (sh_store w) = (r, sw')"
  shows "accounted inc clock wins config key quota bypass sw0 (w\<lparr>sh_store := sw'\<rparr>) (add_mset (k, r) pending)"
proof -
  obtain cs rs adm where a: "performed inc clock wins sw0 cs rs (sh_store w)"
    "map fst adm = map parts (filter (\<lambda>q. \<not> bypass (parts q)) (sh_served w))"
    "\<forall>(p, r) \<in> set adm. passes config (quota p) r"
    "image_mset (\<lambda>(p, r). (scoped_key config (key p), r)) (mset adm) + pending \<subseteq># charged_keys cs rs"
    using assms(1) unfolding accounted_def by blast
  let ?c = "(clock (sw_tick (sh_store w)), k, win)"
  have "charged_keys (cs @ [?c]) (rs @ [r]) = charged_keys cs rs + {#(k, r)#}"
    using performed_length [OF a(1)] by (simp add: charged_keys_append)
  then have "image_mset (\<lambda>(p, r). (scoped_key config (key p), r)) (mset adm) + add_mset (k, r) pending
      \<subseteq># charged_keys (cs @ [?c]) (rs @ [r])"
    using a(4) by simp
  with performed_trans [OF a(1) performed_charge [OF assms(3,2)]] a(2,3) show ?thesis
    unfolding accounted_def by (intro exI conjI) simp_all
qed

text \<open>A request reaches the inner service on a pending result, or by a bypass.\<close>

lemma accounted_served:
  assumes "accounted inc clock wins config key quota bypass sw0 w (add_mset (scoped_key config (key (parts q)), r) pending)"
    and "passes config (quota (parts q)) r" "\<not> bypass (parts q)" "parts q' = parts q"
  shows "accounted inc clock wins config key quota bypass sw0 (w\<lparr>sh_served := sh_served w @ [q']\<rparr>) pending"
proof -
  obtain cs rs adm where a: "performed inc clock wins sw0 cs rs (sh_store w)"
    "map fst adm = map parts (filter (\<lambda>q. \<not> bypass (parts q)) (sh_served w))"
    "\<forall>(p, r) \<in> set adm. passes config (quota p) r"
    "image_mset (\<lambda>(p, r). (scoped_key config (key p), r)) (mset adm) +
      add_mset (scoped_key config (key (parts q)), r) pending \<subseteq># charged_keys cs rs"
    using assms(1) unfolding accounted_def by blast
  then show ?thesis
    unfolding accounted_def using assms(2-4)
    by (intro exI [of _ cs] exI [of _ rs] exI [of _ "adm @ [(parts q, r)]"]) simp
qed

lemma accounted_bypassed:
  assumes "accounted inc clock wins config key quota bypass sw0 w pending" "bypass (parts q)"
  shows "accounted inc clock wins config key quota bypass sw0 (w\<lparr>sh_served := sh_served w @ [q]\<rparr>) pending"
  using assms by (simp add: accounted_def)

lemma accounted_forget:
  assumes "accounted inc clock wins config key quota bypass sw0 w pending" "pending' \<subseteq># pending"
  shows "accounted inc clock wins config key quota bypass sw0 w pending'"
proof -
  have "A + pending' \<subseteq># B" if "A + pending \<subseteq># B" for A B
    using that assms(2) by (meson subset_mset.add_left_mono subset_mset.order_trans)
  then show ?thesis using assms(1) unfolding accounted_def by blast
qed

section \<open>At most the limit\<close>

lemma length_filter_results:
  "length (filter (\<lambda>(k', r). k' = k \<and> Q r) (zip (map (\<lambda>(ts, k, win). k) cs) rs)) =
   length (filter Q (results_of k cs rs))"
  by (induction k cs rs rule: results_of.induct) auto

lemma length_filter_upto: "length (filter (\<lambda>c. c \<le> n) [1..<Suc m]) \<le> n"
proof -
  have "set (filter (\<lambda>c. c \<le> n) [1..<Suc m]) \<subseteq> {1..n}" by auto
  from card_mono [OF _ this] show ?thesis by (simp add: distinct_card [symmetric])
qed

lemma length_filter_mono:
  "(\<And>x. x \<in> set xs \<Longrightarrow> P x \<Longrightarrow> Q x) \<Longrightarrow> length (filter P xs) \<le> length (filter Q xs)"
  by (induction xs) (auto intro: le_SucI)

lemma passes_mono: "passes config m r \<Longrightarrow> m \<le> n \<Longrightarrow> passes config n r"
  unfolding passes_def by (meson order.trans)

lemma passes_usage: "0 < unat (used u) \<Longrightarrow> passes config n (Inr u) \<Longrightarrow> unat (used u) \<le> n"
  by (auto simp: passes_def decide_def Let_def unat_gt_0 split: if_splits)

lemma counted_passes:
  assumes "counts_of k cs rs = [1..<Suc (charges_on k cs)]"
  shows "length (filter (passes config n) (results_of k cs rs)) \<le> n"
proof -
  let ?us = "usages_of k cs rs"
  have "length ?us = charges_on k cs" using arg_cong [OF assms, of length] by (simp add: counts_of_def)
  then have "results_of k cs rs = map Inr ?us"
    using length_results_le [of k cs rs] by (intro results_of_usages) simp
  then have "length (filter (passes config n) (results_of k cs rs)) = length (filter (\<lambda>u. passes config n (Inr u)) ?us)"
    by (simp add: filter_map comp_def)
  also have "\<dots> \<le> length (filter (\<lambda>u. unat (used u) \<le> n) ?us)"
  proof -
    have counted: "(\<lambda>u. unat (used u)) ` set ?us = set [1..<Suc (charges_on k cs)]"
      using arg_cong [OF assms, of set] by (simp add: counts_of_def)
    have "0 < unat (used u)" if "u \<in> set ?us" for u
      using imageI [OF that, of "\<lambda>u. unat (used u)"] counted by (auto simp del: upt_Suc)
    then show ?thesis by (intro length_filter_mono) (rule passes_usage)
  qed
  also have "\<dots> = length (filter (\<lambda>c. c \<le> n) (counts_of k cs rs))"
    by (simp add: counts_of_def filter_map comp_def)
  also have "\<dots> \<le> n" unfolding assms by (rule length_filter_upto)
  finally show ?thesis .
qed

lemma accounted_served_count:
  assumes "performed inc clock wins sw0 cs rs (sh_store w)"
    and "map fst adm = map parts (filter (\<lambda>q. \<not> bypass (parts q)) (sh_served w))"
    and "\<forall>(p, r) \<in> set adm. passes config (quota p) r"
    and "image_mset (\<lambda>(p, r). (scoped_key config (key p), r)) (mset adm) + pending \<subseteq># charged_keys cs rs"
    and "\<And>p. scoped_key config (key p) = k \<Longrightarrow> quota p \<le> n"
  shows "length (filter (\<lambda>q. \<not> bypass (parts q) \<and> scoped_key config (key (parts q)) = k) (sh_served w)) \<le>
    length (filter (passes config n) (results_of k cs rs))"
proof -
  let ?K = "\<lambda>p. scoped_key config (key p)" and ?pass = "\<lambda>(k', r). k' = k \<and> passes config n r"
  have "length (filter (\<lambda>q. \<not> bypass (parts q) \<and> ?K (parts q) = k) (sh_served w)) =
      length (filter (\<lambda>p. ?K p = k) (map parts (filter (\<lambda>q. \<not> bypass (parts q)) (sh_served w))))"
    by (simp add: filter_map comp_def conj_commute)
  also have "\<dots> = length (filter (\<lambda>(p, r). ?K p = k) adm)"
    by (simp add: assms(2) [symmetric] filter_map comp_def case_prod_unfold)
  also have "filter (\<lambda>(p, r). ?K p = k) adm = filter (?pass \<circ> (\<lambda>(p, r). (?K p, r))) adm"
    using assms(3,5) by (intro filter_cong) (auto intro: passes_mono)
  also have "length (filter (?pass \<circ> (\<lambda>(p, r). (?K p, r))) adm) =
      size (filter_mset ?pass (image_mset (\<lambda>(p, r). (?K p, r)) (mset adm)))"
    by (simp add: filter_mset_image_mset comp_def flip: mset_filter)
  also have "\<dots> \<le> size (filter_mset ?pass (charged_keys cs rs))"
    by (intro size_mset_mono multiset_filter_mono subset_mset.order_trans [OF mset_subset_eq_add_left assms(4)])
  also have "\<dots> = length (filter (passes config n) (results_of k cs rs))"
    by (simp add: charged_keys_def length_filter_results flip: mset_filter)
  finally show ?thesis .
qed

context fixed_window_store
begin

lemma in_order_ticks:
  assumes "clock_runs valid start fin win clock"
  shows "t \<le> start (clock n) \<Longrightarrow> \<forall>i < length cs. fst (cs ! i) = clock (n + i) \<Longrightarrow> in_order start fin t cs"
proof (induction cs arbitrary: t n)
  case (Cons c cs)
  obtain ts k w where c: "c = (ts, k, w)" by (cases c)
  have ts: "ts = clock n" using Cons.prems(2) c by auto
  have "\<forall>i < length cs. fst (cs ! i) = clock (Suc n + i)" using Cons.prems(2) by auto
  then have "in_order start fin (fin ts) cs"
    using assms by (intro Cons.IH [of _ "Suc n"]) (simp_all add: ts clock_runs_def)
  then show ?case using Cons.prems(1) clock_le [OF assms] by (simp add: c ts)
qed simp

lemma counts_performed:
  assumes "performed increment clock wins sw cs rs sw'" "invar (sw_state sw)"
    and "live (sw_state sw) (start (clock (sw_tick sw))) k = None"
    and "\<forall>win \<in> wins. clock_runs valid start fin win clock \<and>
      one_window (\<lambda>ts. opens (start ts) win) fin clock (sw_tick sw) (sw_tick sw')"
    and "sw_tick sw' - sw_tick sw \<le> cap"
  shows "counts_of k cs rs = [1..<Suc (charges_on k cs)]"
proof (cases cs)
  case Nil
  then show ?thesis by simp
next
  case (Cons c cs1)
  have run: "run_charges increment (sw_state sw) cs = (rs, sw_state sw')"
    and n: "sw_tick sw' = sw_tick sw + length cs"
    and ticks: "\<forall>i < length cs. fst (cs ! i) = clock (sw_tick sw + i)"
    and ws: "\<forall>(ts, k, win) \<in> set cs. win \<in> wins"
    using assms(1) by (simp_all add: performed_def)
  obtain win0 where "win0 \<in> wins" using ws Cons by fastforce
  with assms(4) have runs: "clock_runs valid start fin win0 clock" by blast
  have tick: "\<exists>m. sw_tick sw \<le> m \<and> m < sw_tick sw' \<and> ts = clock m" if "(ts, z) \<in> set cs" for ts z
    using performed_tick [OF assms(1)] that by (cases z) blast
  have before: "fin ts' \<le> fin (clock (sw_tick sw' - 1))" if "(ts', z) \<in> set cs" for ts' z
    using tick [OF that] fin_le [OF runs] by auto
  have valid: "\<forall>(ts, k', win) \<in> set cs. valid ts win"
    using tick ws assms(4) by (fastforce simp: clock_runs_def)
  have ends: "\<forall>(ts, k', win) \<in> set cs. \<exists>e. opens (start ts) win = Some e \<and> (\<forall>(ts', _) \<in> set cs. fin ts' < e)"
  proof clarify
    fix ts k' win assume z: "(ts, k', win) \<in> set cs"
    then obtain m where m: "sw_tick sw \<le> m" "m < sw_tick sw'" "ts = clock m" using tick by blast
    have "win \<in> wins" using ws z by auto
    then obtain e where e: "opens (start ts) win = Some e" "fin (clock (sw_tick sw' - 1)) < e"
      using assms(4) m unfolding one_window_def by blast
    then have "\<forall>(ts', _) \<in> set cs. fin ts' < e" using before by fastforce
    with e(1) show "\<exists>e. opens (start ts) win = Some e \<and> (\<forall>(ts', _) \<in> set cs. fin ts' < e)" by blast
  qed
  have "charges_on k cs \<le> length cs" by (simp add: charges_on_def)
  then have "charges_on k cs \<le> cap" using assms(5) n by simp
  from counts_within_window [OF assms(2,3) in_order_ticks [OF runs order.refl ticks] valid ends this run]
  show ?thesis .
qed

lemma accounted_within_limit:
  assumes "accounted increment clock wins config key quota bypass sw w pending" "invar (sw_state sw)"
    and "live (sw_state sw) (start (clock (sw_tick sw))) k = None"
    and "\<forall>win \<in> wins. clock_runs valid start fin win clock \<and>
      one_window (\<lambda>ts. opens (start ts) win) fin clock (sw_tick sw) (sw_tick (sh_store w))"
    and "sw_tick (sh_store w) - sw_tick sw \<le> cap"
    and "\<And>p. scoped_key config (key p) = k \<Longrightarrow> quota p \<le> n"
  shows "length (filter (\<lambda>q. \<not> bypass (parts q) \<and> scoped_key config (key (parts q)) = k) (sh_served w)) \<le> n"
proof -
  obtain cs rs adm where a: "performed increment clock wins sw cs rs (sh_store w)"
    "map fst adm = map parts (filter (\<lambda>q. \<not> bypass (parts q)) (sh_served w))"
    "\<forall>(p, r) \<in> set adm. passes config (quota p) r"
    "image_mset (\<lambda>(p, r). (scoped_key config (key p), r)) (mset adm) + pending \<subseteq># charged_keys cs rs"
    using assms(1) unfolding accounted_def by blast
  from accounted_served_count [OF a assms(6)] counted_passes [OF counts_performed [OF a(1) assms(2-5)]]
  show ?thesis by (rule order.trans)
qed

end

section \<open>Applications\<close>

text \<open>
  What is asked of the components around the middleware.  The store performs atomic increments.
  Everything else may do what it likes in its own part of the world, and may perform further
  increments with windows from \<open>wins\<close>; a call of the inner service is recorded.  The client key
  and the bypass are functions of the request head that the layers do not touch, and a limit the
  provider resolves to is at most the quota.  The laws are asked of the instances of the inner
  service that can occur (\<open>inst\<close>).
\<close>

locale limited_application =
  fixes inc :: "('s, 't) increment_fun"
    and clock :: "nat \<Rightarrow> 't"
    and plan :: "nat \<Rightarrow> nat \<Rightarrow> charge_plan"
    and wins :: "Duration set"
    and key :: "'p \<Rightarrow> string"
    and quota :: "'p \<Rightarrow> nat"
    and bypass :: "'p \<Rightarrow> bool"
    and inst :: "'i \<Rightarrow> bool"
    and emit :: "trace_event \<Rightarrow> ('s, 'p, 'b, 'x) shared_world \<Rightarrow> ('s, 'p, 'b, 'x) shared_world"
    and svc :: "(('s, 'p, 'b, 'x) shared_world, 'i, 'p, 'b, 'h, 'r, 'e) inner_service"
    and rl :: "(('s, 'p, 'b, 'x) shared_world, 'p, 'b, 'h, 'r, 'i, 'key) rate_limit"
  assumes window_in_use: "cfg_window (r_config rl) \<in> wins"
    and bypasses: "skips (r_config rl) (q :: ('p, 'b) http_request) \<longleftrightarrow> bypass (parts q)"
    and store_atomic: "r_store rl k (cfg_window (r_config rl)) =
          shared_store (atomic_store inc clock plan) k (cfg_window (r_config rl))"
    and emit_advances: "advances inc clock wins w (emit event w)"
    and inner_inst: "inst (r_inner rl)"
    and ready_advances: "inst i \<Longrightarrow> svc_poll_ready svc i w = (ok, i', w') \<Longrightarrow> inst i' \<and> advances inc clock wins w w'"
    and clone_advances: "inst i \<Longrightarrow> svc_clone svc i w = (i', w') \<Longrightarrow> inst i' \<and> advances inc clock wins w w'"
    and call_served: "inst i \<Longrightarrow> svc_call svc i q w = (fut, i', w') \<Longrightarrow>
          inst i' \<and> advances inc clock wins (w\<lparr>sh_served := sh_served w @ [q]\<rparr>) w' \<and>
          calm (advances inc clock wins) (\<lambda>_. True) fut"
    and extract_key: "ke_extract (r_key_extractor rl) h w = (r, w') \<Longrightarrow>
          advances inc clock wins w w' \<and>
          (\<forall>x. r = Inr x \<longrightarrow> ke_to_string (r_key_extractor rl) x = key (parts h))"
    and provide_quota: "r_limit_provider rl h w = (limit_future, w') \<Longrightarrow>
          advances inc clock wins w w' \<and>
          calm (advances inc clock wins) (\<lambda>r. \<forall>lim. r = Inr lim \<longrightarrow> unat lim \<le> quota (parts h)) limit_future"
    and respond_advances: "r_response_factory rl q reason w = (response, w') \<Longrightarrow> advances inc clock wins w w'"
begin

text \<open>The books on what reaches the inner service follow such an application.\<close>

lemma admission_ledger:
  "ledger_application inc clock plan key bypass inst emit svc rl (advances inc clock wins)
     (\<lambda>p lim. unat lim \<le> quota p)
     (\<lambda>arr w toks. accounted inc clock wins (r_config rl) key quota bypass sw0 w (results toks))"
proof
  fix toks r lim and q q' :: "('p, 'b) http_request" and w :: "('s, 'p, 'b, 'x) shared_world"
  let ?K = "scoped_key (r_config rl) (key (parts q))"
  assume "accounted inc clock wins (r_config rl) key quota bypass sw0 w (results (add_mset (Result ?K r) toks))"
    "\<not> bypass (parts q)" "unat lim \<le> quota (parts q)" "decide (r_config rl) lim r \<in> range Admit \<union> range Fail_Open"
    "parts q' = parts q"
  then show "accounted inc clock wins (r_config rl) key quota bypass sw0
      (w\<lparr>sh_served := sh_served w @ [q']\<rparr>) (results toks)"
    by (intro accounted_served [where q = q and r = r]) (auto simp: passes_def)
next
  fix k toks r sw and w :: "('s, 'p, 'b, 'x) shared_world"
  assume "accounted inc clock wins (r_config rl) key quota bypass sw0 w (results (add_mset (Ticket k) toks))"
    "charge inc clock k (cfg_window (r_config rl)) (sh_store w) = (r, sw)"
  then show "accounted inc clock wins (r_config rl) key quota bypass sw0 (w\<lparr>sh_store := sw\<rparr>)
      (results (add_mset (Result k r) toks))"
    using accounted_charge [OF _ window_in_use] by simp
next
  fix toks toks' and w :: "('s, 'p, 'b, 'x) shared_world"
  assume "accounted inc clock wins (r_config rl) key quota bypass sw0 w (results toks)" "toks' \<subseteq># toks"
  then show "accounted inc clock wins (r_config rl) key quota bypass sw0 w (results toks')"
    using accounted_forget tokens_mono(2) by blast
next
  fix toks r lim p response and q :: "('p, 'b) http_request" and w w' :: "('s, 'p, 'b, 'x) shared_world"
  let ?K = "scoped_key (r_config rl) (key (parts q))"
  assume "accounted inc clock wins (r_config rl) key quota bypass sw0 w (results (add_mset (Result ?K r) toks))"
    "r_response_factory rl q (Reason_RateLimited p) w = (response, w')"
  then show "accounted inc clock wins (r_config rl) key quota bypass sw0 w' (results toks)"
    using accounted_advances [OF accounted_forget] respond_advances by fastforce
qed (rule bypasses store_atomic emit_advances inner_inst advances_refl |
    erule (1) ready_advances clone_advances call_served accounted_advances accounted_bypassed |
    erule extract_key provide_quota respond_advances accounted_advances [OF _ advances_calls] | simp)+

lemma executes_accounted:
  assumes "executes (rate_limit_service hdr emit svc) rl w x" "sh_served w = []"
  shows "\<exists>pending. accounted inc clock wins (r_config rl) key quota bypass (sh_store w) (ex_world x) pending"
proof -
  have "accounted inc clock wins (r_config rl) key quota bypass (sh_store w) w (results {#})"
    using accounted_start [OF refl assms(2)] by simp
  from ledger_application.executes_in_books [OF admission_ledger assms(1) this] show ?thesis by blast
qed

end

text \<open>The bound that the books give, for any store that keeps the contract.\<close>

lemma application_within_limit:
  assumes "limited_application inc clock plan wins key quota bypass inst emit svc rl"
    and "fixed_window_store inc valid start fin live opens left cap invar"
    and "executes (rate_limit_service hdr emit svc) rl w x" "sh_served w = []"
    and "invar (sw_state (sh_store w))"
    and "live (sw_state (sh_store w)) (start (clock (sw_tick (sh_store w)))) k = None"
    and "\<forall>win \<in> wins. clock_runs valid start fin win clock \<and>
      one_window (\<lambda>ts. opens (start ts) win) fin clock (sw_tick (sh_store w)) (sw_tick (sh_store (ex_world x)))"
    and "sw_tick (sh_store (ex_world x)) - sw_tick (sh_store w) \<le> cap"
    and "\<And>p. scoped_key (r_config rl) (key p) = k \<Longrightarrow> quota p \<le> n"
  shows "length (filter (\<lambda>q. \<not> bypass (parts q) \<and> scoped_key (r_config rl) (key (parts q)) = k)
    (sh_served (ex_world x))) \<le> n"
proof -
  obtain pending where "accounted inc clock wins (r_config rl) key quota bypass (sh_store w) (ex_world x) pending"
    using limited_application.executes_accounted [OF assms(1,3,4)] by blast
  from fixed_window_store.accounted_within_limit [OF assms(2) this assms(5-9)] show ?thesis .
qed

lemma hosted_application_over:
  assumes "application_ok rl key (\<lambda>p lim. unat lim \<le> quota p) bypass" "cfg_window (r_config rl) \<in> wins"
    and "\<And>k. r_store rl k (cfg_window (r_config rl)) = atomic_store inc clock plan k (cfg_window (r_config rl))"
    and "inst (r_inner rl)"
    and "\<And>i w ok i' w'. inst i \<Longrightarrow> svc_poll_ready svc i w = (ok, i', w') \<Longrightarrow> inst i' \<and> advances inc clock wins w w'"
    and "\<And>i w i' w'. inst i \<Longrightarrow> svc_clone svc i w = (i', w') \<Longrightarrow> inst i' \<and> advances inc clock wins w w'"
    and "\<And>i q w fut i' w'. inst i \<Longrightarrow> svc_call svc i q w = (fut, i', w') \<Longrightarrow>
      inst i' \<and> advances inc clock wins w w' \<and> calm (advances inc clock wins) (\<lambda>_. True) fut"
  shows "limited_application inc clock plan wins key quota bypass inst (hosted_emit emit) (tallied svc) (hosted_limiter rl)"
proof
  fix i q w fut i' w'
  assume "inst i" "svc_call (tallied svc) i q w = (fut, i', w')"
  then show "inst i' \<and> advances inc clock wins (w\<lparr>sh_served := sh_served w @ [q]\<rparr>) w' \<and>
    calm (advances inc clock wins) (\<lambda>_. True) fut"
    using assms(7) by (simp add: tallied_def)
next
  fix i w ok i' w'
  assume "inst i" "svc_poll_ready (tallied svc) i w = (ok, i', w')"
  then show "inst i' \<and> advances inc clock wins w w'" using assms(5) by (simp add: tallied_def)
next
  fix i w i' w'
  assume "inst i" "svc_clone (tallied svc) i w = (i', w')"
  then show "inst i' \<and> advances inc clock wins w w'" using assms(6) by (simp add: tallied_def)
next
  fix h w r w'
  assume "ke_extract (r_key_extractor (hosted_limiter rl)) h w = (r, w')"
  from hosted_extract [where A = "advances inc clock wins", OF assms(1) advances_rest this]
  show "advances inc clock wins w w' \<and>
    (\<forall>x. r = Inr x \<longrightarrow> ke_to_string (r_key_extractor (hosted_limiter rl)) x = key (parts h))" .
next
  fix h w fut w'
  assume "r_limit_provider (hosted_limiter rl) h w = (fut, w')"
  from hosted_provide [where A = "advances inc clock wins", OF assms(1) advances_rest this]
  show "advances inc clock wins w w' \<and>
    calm (advances inc clock wins) (\<lambda>r. \<forall>lim. r = Inr lim \<longrightarrow> unat lim \<le> quota (parts h)) fut" .
qed (use assms(1-4) in \<open>auto simp: hosted_limiter_def hosted_emit_def application_ok_def
      shared_store_def fun_eq_iff split: prod.splits\<close>)

lemma hosted_application:
  assumes "application_ok rl key (\<lambda>p lim. unat lim \<le> quota p) bypass"
    and "\<And>k. r_store rl k (cfg_window (r_config rl)) = atomic_store inc clock plan k (cfg_window (r_config rl))"
  shows "limited_application inc clock plan {cfg_window (r_config rl)} key quota bypass (\<lambda>_. True) (hosted_emit emit)
    (recorded_service svc) (hosted_limiter rl)"
  unfolding recorded_service_def
  by (rule hosted_application_over [OF assms(1) _ assms(2)])
    (auto simp: hosted_service_def intro!: calm_on_rest split: prod.splits)

section \<open>Properties\<close>

text \<open>
  C2.  No more requests than the limit reach the application, whatever the application is.  The
  handler, quota provider, key extractor, response factory and trace subscriber are arbitrary
  programs with a state of their own, take any number of polls, may fail or never finish; the
  executor polls the requests in flight in any order and drops any of them; the configuration is
  arbitrary.  If a client has no open window when the execution begins and all
  increments happen within one window length, the inner service is called at most \<open>n\<close> times for
  requests of that client that are not bypassed, where \<open>n\<close> bounds the limits the provider
  resolves to for that client.
\<close>

theorem memory_application_limit:
  fixes cache :: "'c cache_api" and x0 :: 'x
    and svc :: "('x, 'i, 'p, 'b, 'h, 'r, 'e) inner_service"
  assumes "application_ok rl key (\<lambda>p lim. unat lim \<le> quota p) bypass" "r_store rl = memory_store cache clock"
    and "cache_api_ok cache" "memory_invar cache (sw_state sw)"
    and "clock_runs (\<lambda>ts win. valid_times ts) memory_start memory_fin (cfg_window (r_config rl)) clock"
    and "memory_live cache (sw_state sw) (memory_start (clock (sw_tick sw))) k = None"
    and "executes (rate_limit_service hdr (hosted_emit emit) (recorded_service svc)) (hosted_limiter rl)
      \<lparr>sh_store = sw, sh_served = [], sh_rejected = [], sh_rest = x0\<rparr> x"
    and "one_window (\<lambda>ts. memory_opens (memory_start ts) (cfg_window (r_config rl))) memory_fin clock
      (sw_tick sw) (sw_tick (sh_store (ex_world x)))"
    and "sw_tick (sh_store (ex_world x)) - sw_tick sw \<le> 2 ^ 64 - 1"
    and "\<And>p. scoped_key (r_config rl) (key p) = k \<Longrightarrow> quota p \<le> n"
  shows "length (filter (\<lambda>q. \<not> bypass (parts q) \<and> scoped_key (r_config rl) (key (parts q)) = k)
    (sh_served (ex_world x))) \<le> n"
proof -
  have config: "r_config (hosted_limiter rl) = r_config rl" by (simp add: hosted_limiter_def)
  have app: "limited_application (memory_increment cache) clock (\<lambda>c t. At_Call 0) {cfg_window (r_config rl)}
      key quota bypass (\<lambda>_. True) (hosted_emit emit) (recorded_service svc) (hosted_limiter rl)"
    by (rule hosted_application [OF assms(1)]) (simp add: assms(2) memory_store_atomic)
  from application_within_limit [OF app memory_fixed_window [OF assms(3)] assms(7), of k n]
  show ?thesis using assms(4-6,8-10) by (simp add: config)
qed

text \<open>
  C9.  The same over the Redis store, with a network that delays increments and replies at will.
\<close>

theorem redis_application_limit:
  fixes api :: "'d redis_api" and x0 :: 'x
    and svc :: "('x, 'i, 'p, 'b, 'h, 'r, 'e) inner_service"
  assumes "application_ok rl key (\<lambda>p lim. unat lim \<le> quota p) bypass" "r_store rl = redis_store_future lua api this clock network"
    and "redis_api_ok api" "redis_invar lua api this (sw_state sw)"
    and "clock_runs (redis_valid lua) t_first t_first (cfg_window (r_config rl)) clock"
    and "redis_live api this (sw_state sw) (t_first (clock (sw_tick sw))) k = None"
    and "executes (rate_limit_service hdr (hosted_emit emit) (recorded_service svc)) (hosted_limiter rl)
      \<lparr>sh_store = sw, sh_served = [], sh_rejected = [], sh_rest = x0\<rparr> x"
    and "one_window (\<lambda>ts. redis_opens (t_first ts) (cfg_window (r_config rl))) t_first clock
      (sw_tick sw) (sw_tick (sh_store (ex_world x)))"
    and "sw_tick (sh_store (ex_world x)) - sw_tick sw \<le> nat (horizon lua)"
    and "\<And>p. scoped_key (r_config rl) (key p) = k \<Longrightarrow> quota p \<le> n"
  shows "length (filter (\<lambda>q. \<not> bypass (parts q) \<and> scoped_key (r_config rl) (key (parts q)) = k)
    (sh_served (ex_world x))) \<le> n"
proof -
  have "redis_valid lua (clock 0) (cfg_window (r_config rl))" using assms(5) by (simp add: clock_runs_def)
  then obtain ms where ms: "checked_window_millis (cfg_window (r_config rl)) = Inr ms"
    by (auto simp: redis_valid_def redis_opens_def split: option.splits sum.splits)
  have config: "r_config (hosted_limiter rl) = r_config rl" by (simp add: hosted_limiter_def)
  have app: "limited_application (redis_increment lua api this) clock
      (\<lambda>c t. case network c of (n, m) \<Rightarrow> On_Poll n m) {cfg_window (r_config rl)}
      key quota bypass (\<lambda>_. True) (hosted_emit emit) (recorded_service svc) (hosted_limiter rl)"
    by (rule hosted_application [OF assms(1)]) (simp add: assms(2) redis_store_atomic [OF ms])
  from application_within_limit [OF app redis_fixed_window [OF assms(3)] assms(7), of k n]
  show ?thesis using assms(4-6,8-10) by (simp add: config)
qed

section \<open>Witnesses\<close>

text \<open>
  An application whose quota provider needs a poll and whose handler needs three: two requests
  arrive, and the first is polled until it is with the handler.
\<close>

definition sample_application ::
  "'s store_world store \<Rightarrow> u64 \<Rightarrow>
    (nat, (unit, unit, string) key_extractor, 's store_world store, (unit, unit) limit_provider,
     (unit, unit, unit, (string \<times> string) list, unit) factory, unit) RateLimit" where
  "sample_application st n =
     \<lparr>r_inner = 0, r_key_extractor = sample_extractor, r_store = st,
      r_limit_provider = (\<lambda>h x. (delayed 1 (Inr n), x)),
      r_response_factory = default_build list_header_api (), r_config = sample_config\<rparr>"

lemma sample_application_ok:
  "application_ok (sample_application st n) (\<lambda>_. ''caller'') (\<lambda>_ lim. unat lim \<le> unat n) (\<lambda>_. False)"
proof -
  have "yields (\<lambda>r. \<forall>lim. r = Inr lim \<longrightarrow> unat lim \<le> unat n) (delayed 1 (Inr n) :: (unit, (RateLimitError, u64) result) future)"
    by (intro calm) auto
  then show ?thesis
    by (auto simp: application_ok_def sample_application_def sample_extractor_def pure_extractor_def
        skips_def sample_config_def)
qed

abbreviation sample_hosted_service ::
  "(('s, unit, unit, unit) shared_world,
    (('s, unit, unit, unit) shared_world, unit, unit, (string \<times> string) list, unit, nat, string) rate_limit,
    unit, unit, (string \<times> string) list, unit, string) inner_service" where
  "sample_hosted_service \<equiv> rate_limit_service list_header_api (hosted_emit (\<lambda>_ w. w)) (recorded_service slow_service)"

lemma sample_arrives:
  "svc_poll_ready sample_hosted_service (hosted_limiter (sample_application st n)\<lparr>r_inner := i\<rparr>) w =
      (Ready (Inr ()), hosted_limiter (sample_application st n)\<lparr>r_inner := i\<rparr>, w)"
  "svc_call sample_hosted_service (hosted_limiter (sample_application st n)\<lparr>r_inner := i\<rparr>) q w =
      (as_future list_header_api (hosted_emit (\<lambda>_ w. w)) (recorded_service slow_service)
        \<lparr>f_state = State_Limit (on_rest (delayed 1 (Inr n))) q ''caller'', f_inner = i,
         f_store = shared_store st, f_config = sample_config,
         f_factory = r_response_factory (hosted_limiter (sample_application st n))\<rparr>,
       hosted_limiter (sample_application st n)\<lparr>r_inner := Suc i\<rparr>, w)"
  by (simp_all add: rate_limit_service_def poll_ready_def call_def check_skip skips_def hosted_limiter_def
      sample_application_def sample_config_def recorded_service_defs slow_service_def sample_extractor_def
      pure_extractor_def response_future_new_def)

lemma sample_polls:
  assumes "this = \<lparr>f_state = State_Limit (on_rest (delayed 1 (Inr n))) q ''caller'', f_inner = i,
      f_store = shared_store st, f_config = sample_config, f_factory = fa\<rparr>"
    and "\<And>k. st k (cfg_window sample_config) = atomic_store inc clock plan k (cfg_window sample_config)"
    and "plan (sw_calls (sh_store w)) (sw_tick (sh_store w)) \<in> {At_Call 0, On_Poll 0 0}"
    and "inc (sw_state (sh_store w)) (clock (sw_tick (sh_store w))) (make_key ''api'' ''caller'')
      (cfg_window sample_config) = (Inr u, s')"
    and "unat (used u) = 1" "0 < unat n"
    and "\<And>q v. \<exists>fut i' v1 fut' v2. svc_call svc i q v = (fut, i', v1) \<and> poll_future fut v1 = (Pending fut', v2) \<and>
      sh_store v2 = sh_store v \<and> sh_served v2 = sh_served v @ [q]"
  shows "\<exists>fut1 fut2 w2.
    poll_future (as_future hdr emit svc this) w = (Pending fut1, w) \<and>
    poll_future fut1 w = (Pending fut2, w2) \<and> sw_tick (sh_store w2) = Suc (sw_tick (sh_store w)) \<and>
    map parts (sh_served w2) = map parts (sh_served w) @ [parts q]"
proof -
  let ?next = "this\<lparr>f_state := State_Limit (on_rest (ready (Inr n))) q ''caller''\<rparr>"
  have first: "poll_future (as_future hdr emit svc this) w = (Pending (as_future hdr emit svc ?next), w)"
    by (subst poll_future_as_future) (simp add: poll_step_def ready_bang_def assms(1) poll_through)
  have key: "scoped_key sample_config ''caller'' = make_key ''api'' ''caller''"
    by (simp add: scoped_key_def sample_config_def)
  have "used u \<noteq> 0" using assms(5) by auto
  then have "\<exists>p. decide sample_config n (Inr u) = Admit p" using assms(5,6) by (simp add: decide_def Let_def)
  then obtain p where admit: "decide sample_config n (Inr u) = Admit p" by blast
  let ?q = "append_context q (metadata_of sample_config p)"
  let ?called = "if plan (sw_calls (sh_store w)) (sw_tick (sh_store w)) = At_Call 0 then sh_store w
    else (sh_store w)\<lparr>sw_calls := Suc (sw_calls (sh_store w))\<rparr>"
  define sw where "sw = ?called\<lparr>sw_state := s', sw_tick := Suc (sw_tick (sh_store w))\<rparr>"
  obtain fut i' v1 fut' v2 where call: "svc_call svc i ?q (w\<lparr>sh_store := sw\<rparr>) = (fut, i', v1)"
    "poll_future fut v1 = (Pending fut', v2)" "sh_store v2 = sw" "sh_served v2 = sh_served w @ [?q]"
    using assms(7) [of ?q "w\<lparr>sh_store := sw\<rparr>"] by auto
  have "poll_future (as_future hdr emit svc ?next) w =
      (Pending (as_future hdr emit svc (?next\<lparr>f_inner := i', f_state := State_Inner fut' (Some (metadata_of sample_config p))\<rparr>)), v2)"
    using assms(3) call(1,2)
    by (subst poll_future_as_future)
      (auto simp: poll_step_def ready_bang_def assms(1,2,4) poll_through after_limit_def key shared_store_def
        atomic_store_def charge_def poll_future_as_future after_store_decide admit sw_def)
  moreover have "sw_tick (sh_store v2) = Suc (sw_tick (sh_store w))" by (simp add: call(3) sw_def)
  moreover have "map parts (sh_served v2) = map parts (sh_served w) @ [parts q]"
    by (simp add: call(4) append_context_frame)
  ultimately show ?thesis using first by blast
qed

lemma sample_executes:
  fixes st :: "'s store_world store"
  assumes "\<And>k. st k (cfg_window sample_config) = atomic_store inc clock plan k (cfg_window sample_config)"
    and "plan (sw_calls sw) (sw_tick sw) \<in> {At_Call 0, On_Poll 0 0}"
    and "inc (sw_state sw) (clock (sw_tick sw)) (make_key ''api'' ''caller'') (cfg_window sample_config) = (Inr u, s')"
    and "unat (used u) = 1" "0 < unat n"
  shows "\<exists>x. executes sample_hosted_service (hosted_limiter (sample_application st n))
      \<lparr>sh_store = sw, sh_served = [], sh_rejected = [], sh_rest = ()\<rparr> x \<and>
    sw_tick (sh_store (ex_world x)) = Suc (sw_tick sw) \<and> length (sh_served (ex_world x)) = 1 \<and>
    length (ex_running x) = 2"
proof -
  let ?w = "\<lparr>sh_store = sw, sh_served = [], sh_rejected = [], sh_rest = ()\<rparr> :: ('s, unit, unit, unit) shared_world"
  let ?rl = "\<lambda>i. hosted_limiter (sample_application st n)\<lparr>r_inner := i\<rparr>"
  let ?fut = "\<lambda>i. as_future list_header_api (hosted_emit (\<lambda>_ w. w)) (recorded_service slow_service)
        \<lparr>f_state = State_Limit (on_rest (delayed 1 (Inr n))) sample_request ''caller'', f_inner = i,
         f_store = shared_store st, f_config = sample_config,
         f_factory = r_response_factory (hosted_limiter (sample_application st n))\<rparr>"
  have slow: "\<exists>fut i' v1 fut' v2. svc_call (recorded_service slow_service) 0 q v = (fut, i', v1) \<and>
      poll_future fut v1 = (Pending fut', v2) \<and> sh_store v2 = sh_store v \<and> sh_served v2 = sh_served v @ [q]"
    for q and v :: "('s, unit, unit, unit) shared_world"
    by (simp add: recorded_service_defs slow_service_def poll_through numeral_2_eq_2)
  obtain fut1 fut2 w2 where p: "poll_future (?fut 0) ?w = (Pending fut1, ?w)" "poll_future fut1 ?w = (Pending fut2, w2)"
    "sw_tick (sh_store w2) = Suc (sw_tick sw)" "map parts (sh_served w2) = map parts (sh_served ?w) @ [parts sample_request]"
    using sample_polls [where w = ?w and q = sample_request and i = 0 and hdr = list_header_api and
        emit = "hosted_emit (\<lambda>_ w. w)" and fa = "r_response_factory (hosted_limiter (sample_application st n))"
        and st = st and inc = inc and clock = clock and plan = plan and n = n and u = u and s' = s'
        and svc = "recorded_service slow_service",
        OF refl assms(1) _ _ assms(4,5) slow] assms(2,3) by auto
  have start: "hosted_limiter (sample_application st n) = ?rl 0"
    by (simp add: hosted_limiter_def sample_application_def)
  let ?x = "\<lambda>i w fs. \<lparr>ex_service = ?rl i, ex_world = w, ex_running = map (Pair sample_request) fs, ex_done = [], ex_dropped = []\<rparr>"
  have arrived: "executes sample_hosted_service (?rl 0) ?w (?x (Suc i) ?w (fs @ [?fut i]))"
    if "executes sample_hosted_service (?rl 0) ?w (?x i ?w fs)" for i fs
    using executes_step [OF that arrives [OF _ sample_arrives(2)]] sample_arrives(1) [where st = st and n = n and i = i and w = ?w] by simp
  have polled: "executes sample_hosted_service (?rl 0) ?w (?x 2 v' [f', g])"
    if "executes sample_hosted_service (?rl 0) ?w (?x 2 v [f, g])" "poll_future f v = (Pending f', v')" for f f' g v v'
    using executes_step [OF that(1) polled_pending [where before = "[]" and q = sample_request and fut = f]] that(2) by simp
  have "executes sample_hosted_service (?rl 0) ?w (?x 0 ?w [])"
    using executes_start [of sample_hosted_service "?rl 0" ?w] by (simp add: executor_start_def)
  from arrived [OF arrived [OF this]] have "executes sample_hosted_service (?rl 0) ?w (?x 2 ?w [?fut 0, ?fut 1])"
    by (simp add: numeral_2_eq_2)
  from polled [OF polled [OF this p(1)] p(2)] have "executes sample_hosted_service (?rl 0) ?w (?x 2 w2 [fut2, ?fut 1])" .
  moreover have "length (sh_served w2) = 1" using arg_cong [OF p(4), of length] by simp
  ultimately show ?thesis
    using p(3) by (subst start) (intro exI [of _ "?x 2 w2 [fut2, ?fut 1]"], simp)
qed

theorem memory_application_limit_witness:
  "\<exists>x. executes sample_hosted_service (hosted_limiter (sample_application (memory_store map_cache_api sample_clock) 1))
       \<lparr>sh_store = \<lparr>sw_state = memory_store_new map_cache_api, sw_tick = 0, sw_calls = 0\<rparr>, sh_served = [], sh_rejected = [], sh_rest = ()\<rparr> x \<and>
     length (ex_running x) = 2 \<and> length (sh_served (ex_world x)) = 1 \<and> length (sh_served (ex_world x)) \<le> 1"
proof -
  let ?sw = "\<lparr>sw_state = memory_store_new map_cache_api, sw_tick = 0, sw_calls = 0\<rparr> :: map_cache store_world"
  let ?K = "make_key ''api'' ''caller''" and ?rl = "sample_application (memory_store map_cache_api sample_clock) 1"
  have config: "r_config ?rl = sample_config" by (simp add: sample_application_def)
  have key: "scoped_key (r_config ?rl) ''caller'' = ?K" by (simp add: config scoped_key_def sample_config_def)
  have inv: "memory_invar map_cache_api (sw_state ?sw)" using mc.invar_new by simp
  have absent: "memory_live map_cache_api (sw_state ?sw) (memory_start (sample_clock (sw_tick ?sw))) ?K = None"
    by (simp add: memory_live_def mc.get_new memory_store_new_def)
  have runs: "clock_runs (\<lambda>ts win. valid_times ts) memory_start memory_fin (cfg_window (r_config ?rl)) sample_clock"
    unfolding config by (rule sample_clock_runs)
  have opens: "memory_opens (memory_start (sample_clock 0)) (cfg_window sample_config) = Some 60000000000"
    and first: "memory_start (sample_clock 0) < 60000000000"
    by (simp_all add: sample_clock_def times_at_def memory_opens_def memory_start_def checked_add_def
        sample_config_def instant_max_def Let_def dur_nanos_def)
  have "valid_times (sample_clock 0)" using runs by (simp add: clock_runs_def)
  from fixed_window_store.increment_absent [OF memory_fixed_window [OF map_cache_api_ok], where k = ?K,
      OF inv this _ opens first]
  obtain u s' where i: "memory_increment map_cache_api (sw_state ?sw) (sample_clock (sw_tick ?sw)) ?K
      (cfg_window sample_config) = (Inr u, s')" "unat (used u) = 1"
    using absent by auto
  obtain x where x: "executes sample_hosted_service (hosted_limiter ?rl)
      \<lparr>sh_store = ?sw, sh_served = [], sh_rejected = [], sh_rest = ()\<rparr> x"
    "sw_tick (sh_store (ex_world x)) = Suc (sw_tick ?sw)" "length (sh_served (ex_world x)) = 1" "length (ex_running x) = 2"
    using sample_executes [where st = "memory_store map_cache_api sample_clock" and sw = ?sw and n = 1
        and plan = "\<lambda>c t. At_Call 0" and inc = "memory_increment map_cache_api" and clock = sample_clock, OF _ _ i] by (auto simp: memory_store_atomic)
  have window: "one_window (\<lambda>ts. memory_opens (memory_start ts) (cfg_window (r_config ?rl))) memory_fin sample_clock
      (sw_tick ?sw) (sw_tick (sh_store (ex_world x)))"
    by (auto simp: one_window_def x(2) sample_clock_def times_at_def memory_opens_def memory_start_def
        memory_fin_def checked_add_def sample_application_def sample_config_def instant_max_def Let_def dur_nanos_def)
  have "length (filter (\<lambda>q. \<not> False \<and> scoped_key (r_config ?rl) ''caller'' = ?K) (sh_served (ex_world x))) \<le> 1"
    by (rule memory_application_limit [OF sample_application_ok _ map_cache_api_ok inv runs absent x(1) window])
      (simp_all add: x(2) sample_application_def)
  then show ?thesis using x by (intro exI [of _ x]) (simp add: key)
qed

lemma sample_redis_first:
  "\<exists>u s'. redis_increment True map_redis_api this (\<lambda>_. None) (sample_redis_clock 0)
     k (cfg_window sample_config) = (Inr u, s') \<and> unat (used u) = 1"
proof -
  have ms: "checked_window_millis (cfg_window sample_config) = Inr 60000"
    by (simp add: sample_window checked_millis_secs)
  have inv: "redis_invar True map_redis_api this (\<lambda>_. None)" by (rule empty_redis)
  have valid: "redis_valid True (sample_redis_clock 0) (cfg_window sample_config)"
    using sample_redis_clock_runs by (simp add: clock_runs_def)
  have absent: "redis_live map_redis_api this (\<lambda>_. None) (t_first (sample_redis_clock 0)) k = None"
    by (simp add: redis_live_def map_redis_api_def map_redis_view_def)
  have opens: "redis_opens (t_first (sample_redis_clock 0)) (cfg_window sample_config) = Some 60000"
    and first: "t_first (sample_redis_clock 0) < 60000"
    by (simp_all add: redis_opens_def ms sample_redis_clock_def redis_at_def)
  from fixed_window_store.increment_absent [OF redis_fixed_window [OF map_redis_api_ok],
      OF inv valid absent opens first] show ?thesis by (auto simp: horizon_def)
qed

theorem redis_application_limit_witness:
  "\<exists>x. executes sample_hosted_service (hosted_limiter (sample_application
         (redis_store_future True map_redis_api redis_store_new sample_redis_clock (\<lambda>_. (0, 0))) 1))
       \<lparr>sh_store = \<lparr>sw_state = (\<lambda>_. None), sw_tick = 0, sw_calls = 0\<rparr>, sh_served = [], sh_rejected = [], sh_rest = ()\<rparr> x \<and>
     length (ex_running x) = 2 \<and> length (sh_served (ex_world x)) = 1 \<and> length (sh_served (ex_world x)) \<le> 1"
proof -
  let ?sw = "\<lparr>sw_state = (\<lambda>_. None), sw_tick = 0, sw_calls = 0\<rparr> :: map_redis store_world"
  let ?st = "redis_store_future True map_redis_api redis_store_new sample_redis_clock (\<lambda>_. (0, 0))"
  let ?K = "make_key ''api'' ''caller''" and ?rl = "sample_application ?st 1"
  have config: "r_config ?rl = sample_config" by (simp add: sample_application_def)
  have key: "scoped_key (r_config ?rl) ''caller'' = ?K" by (simp add: config scoped_key_def sample_config_def)
  have ms: "checked_window_millis (cfg_window sample_config) = Inr 60000"
    by (simp add: sample_window checked_millis_secs)
  have inv: "redis_invar True map_redis_api redis_store_new (sw_state ?sw)" using empty_redis by simp
  have absent: "redis_live map_redis_api redis_store_new (sw_state ?sw)
      (t_first (sample_redis_clock (sw_tick ?sw))) ?K = None"
    by (simp add: redis_live_def map_redis_api_def map_redis_view_def)
  have runs: "clock_runs (redis_valid True) t_first t_first (cfg_window (r_config ?rl)) sample_redis_clock"
    unfolding config by (rule sample_redis_clock_runs)
  obtain u s' where i: "redis_increment True map_redis_api redis_store_new (sw_state ?sw)
      (sample_redis_clock (sw_tick ?sw)) ?K (cfg_window sample_config) = (Inr u, s')" "unat (used u) = 1"
    using sample_redis_first [of redis_store_new ?K] by auto
  obtain x where x: "executes sample_hosted_service (hosted_limiter ?rl)
      \<lparr>sh_store = ?sw, sh_served = [], sh_rejected = [], sh_rest = ()\<rparr> x"
    "sw_tick (sh_store (ex_world x)) = Suc (sw_tick ?sw)" "length (sh_served (ex_world x)) = 1" "length (ex_running x) = 2"
    using sample_executes [where st = ?st and sw = ?sw and n = 1
        and plan = "\<lambda>c t. On_Poll 0 0" and inc = "redis_increment True map_redis_api redis_store_new"
        and clock = sample_redis_clock, OF _ _ i] by (auto simp: redis_store_atomic [OF ms])
  have window: "one_window (\<lambda>ts. redis_opens (t_first ts) (cfg_window (r_config ?rl))) t_first sample_redis_clock
      (sw_tick ?sw) (sw_tick (sh_store (ex_world x)))"
    unfolding config by (auto simp: one_window_def x(2) sample_redis_clock_def redis_at_def redis_opens_def ms)
  have "length (filter (\<lambda>q. \<not> False \<and> scoped_key (r_config ?rl) ''caller'' = ?K) (sh_served (ex_world x))) \<le> 1"
    by (rule redis_application_limit [OF sample_application_ok _ map_redis_api_ok inv runs absent x(1) window])
      (simp_all add: x(2) sample_application_def horizon_def)
  then show ?thesis using x by (intro exI [of _ x]) (simp add: key)
qed

end
