(* ===== verification/RL_Nesting.thy ===== *)
theory RL_Nesting
  imports RL_Admission
begin

text \<open>
  Limiters inside limiters, on one store.  The service of a limiter acts on the world as the
  locale \<open>limited_application\<close> asks of an inner service, so a limiter may guard another one
  that charges the same store, and the bound on what it lets through still holds.
\<close>

section \<open>Futures on the store\<close>

lemma calm_delayed_on_store: "calm (advances inc clock wins) (\<lambda>_. True) (on_store (delayed m r))"
  by (induction m) (rule calm, auto simp: poll_through)+

lemma advances_charge:
  assumes "charge inc clock k win (sh_store w) = (r, sw)" "win \<in> wins"
  shows "advances inc clock wins w (w\<lparr>sh_store := sw\<rparr>)"
  unfolding advances_def using performed_charge [OF assms] by auto

lemma calm_charging_on_store:
  assumes "win \<in> wins"
  shows "calm (advances inc clock wins) (\<lambda>_. True) (on_store (charging (charge inc clock k win) n m))"
proof (induction n)
  case 0
  show ?case
  proof (rule calm)
    fix w p w'
    assume poll: "poll_future (on_store (charging (charge inc clock k win) 0 m)) w = (p, w')"
    obtain r sw where c: "charge inc clock k win (sh_store w) = (r, sw)" by fastforce
    then show "advances inc clock wins w w' \<and> (\<forall>r. p = Ready r \<longrightarrow> True) \<and>
        (\<forall>fut'. p = Pending fut' \<longrightarrow> calm (advances inc clock wins) (\<lambda>_. True) fut')"
      using poll advances_charge [OF c assms] by (cases m) (auto simp: poll_through calm_delayed_on_store)
  qed
next
  case (Suc n)
  then show ?case by (intro calm) (auto simp: poll_through)
qed

lemma shared_store_calm:
  assumes "shared_store (atomic_store inc clock plan) k win w = (fut, w')" "win \<in> wins"
  shows "advances inc clock wins w w' \<and> calm (advances inc clock wins) (\<lambda>_. True) fut"
proof (cases "plan (sw_calls (sh_store w)) (sw_tick (sh_store w))")
  case (At_Call m)
  obtain r sw where c: "charge inc clock k win (sh_store w) = (r, sw)" by fastforce
  then show ?thesis
    using assms(1) At_Call advances_charge [OF c assms(2)]
    by (auto simp: shared_store_def atomic_store_def calm_delayed_on_store)
next
  case (On_Poll n m)
  then show ?thesis
    using assms by (auto simp: shared_store_def atomic_store_def advances_calls calm_charging_on_store)
qed

section \<open>A limiter as an inner service\<close>

text \<open>
  What is asked of the components of the inner limiter: less than of the outer one, since nothing
  is counted for it.
\<close>

locale calm_limiter =
  fixes inc :: "('s, 't) increment_fun"
    and clock :: "nat \<Rightarrow> 't"
    and plan :: "nat \<Rightarrow> nat \<Rightarrow> charge_plan"
    and wins :: "Duration set"
    and inst :: "'i \<Rightarrow> bool"
    and emit :: "trace_event \<Rightarrow> ('s, 'p, 'b, 'x) shared_world \<Rightarrow> ('s, 'p, 'b, 'x) shared_world"
    and svc :: "(('s, 'p, 'b, 'x) shared_world, 'i, 'p, 'b, 'h, 'r, 'e) inner_service"
    and rl :: "(('s, 'p, 'b, 'x) shared_world, 'p, 'b, 'h, 'r, 'i, 'key) rate_limit"
  assumes window_in_use: "cfg_window (r_config rl) \<in> wins"
    and store_atomic: "r_store rl k (cfg_window (r_config rl)) =
          shared_store (atomic_store inc clock plan) k (cfg_window (r_config rl))"
    and emit_advances: "advances inc clock wins w (emit event w)"
    and inner_inst: "inst (r_inner rl)"
    and ready_advances: "inst i \<Longrightarrow> svc_poll_ready svc i w = (ok, i', w') \<Longrightarrow> inst i' \<and> advances inc clock wins w w'"
    and clone_advances: "inst i \<Longrightarrow> svc_clone svc i w = (i', w') \<Longrightarrow> inst i' \<and> advances inc clock wins w w'"
    and call_calm: "inst i \<Longrightarrow> svc_call svc i q w = (fut, i', w') \<Longrightarrow>
          inst i' \<and> advances inc clock wins w w' \<and> calm (advances inc clock wins) (\<lambda>_. True) fut"
    and extract_advances: "ke_extract (r_key_extractor rl) h w = (r, w') \<Longrightarrow> advances inc clock wins w w'"
    and provide_calm: "r_limit_provider rl h w = (limit_future, w') \<Longrightarrow>
          advances inc clock wins w w' \<and> calm (advances inc clock wins) (\<lambda>_. True) limit_future"
    and respond_advances: "r_response_factory rl q reason w = (response, w') \<Longrightarrow> advances inc clock wins w w'"
begin

abbreviation adv :: "('s, 'p, 'b, 'x) shared_world \<Rightarrow> ('s, 'p, 'b, 'x) shared_world \<Rightarrow> bool" where
  "adv \<equiv> advances inc clock wins"

fun calm_state :: "(('s, 'p, 'b, 'x) shared_world, 'p, 'b, 'h, 'r, 'e) State \<Rightarrow> bool" where
  "calm_state (State_Limit fut q k) \<longleftrightarrow> calm adv (\<lambda>_. True) fut"
| "calm_state (State_Store fut q lim) \<longleftrightarrow> calm adv (\<lambda>_. True) fut"
| "calm_state (State_Inner fut metadata) \<longleftrightarrow> calm adv (\<lambda>_. True) fut"
| "calm_state (State_Ready response) \<longleftrightarrow> True"
| "calm_state State_Done \<longleftrightarrow> True"

definition owned :: "(('s, 'p, 'b, 'x) shared_world, 'p, 'b, 'h, 'r, 'e, 'i) ResponseFuture \<Rightarrow> bool" where
  "owned this \<longleftrightarrow> f_store this = r_store rl \<and> f_config this = r_config rl \<and>
     f_factory this = r_response_factory rl \<and> inst (f_inner this) \<and> calm_state (f_state this)"

fun kept ::
  "('s, 'p, 'b, 'x) shared_world \<Rightarrow>
    (('e, ('h, 'r) response) result, (('s, 'p, 'b, 'x) shared_world, 'p, 'b, 'h, 'r, 'e, 'i) ResponseFuture,
     ('s, 'p, 'b, 'x) shared_world) loop \<Rightarrow> bool" where
  "kept w (Return r this w') \<longleftrightarrow> adv w w' \<and> (\<forall>u. r = Pending u \<longrightarrow> owned this)"
| "kept w (Continue this w') \<longleftrightarrow> adv w w' \<and> owned this"

lemma emits: "adv w (report emit (r_config rl) e w)"
  using emit_advances by (simp add: trace_store_failure_def Let_def split: Level.split)

lemma ready_bang_kept:
  assumes "calm adv (\<lambda>_. True) fut" "\<And>fut'. calm adv (\<lambda>_. True) fut' \<Longrightarrow> owned (mk fut')"
    and "\<And>r w'. adv w w' \<Longrightarrow> kept w (k r w')"
  shows "kept w (ready_bang fut mk k w)"
proof -
  obtain p w' where poll: "poll_future fut w = (p, w')" by fastforce
  then show ?thesis
    using calm_poll(1,3) [OF assms(1) poll] assms(2,3) by (cases p) (auto simp: ready_bang_def)
qed

lemma round_kept:
  assumes "owned this"
  shows "kept w (poll_step hdr emit svc this w)"
proof (cases "f_state this")
  case (State_Limit fut q key)
  show ?thesis
    unfolding poll_step_def State_Limit State.case
  proof (rule ready_bang_kept)
    fix r w' assume a: "adv w w'"
    show "kept w (let (this', w'') = after_limit this q key r w' in Continue this' w'')"
    proof (cases r)
      case (Inr lim)
      have config: "f_store this = r_store rl" "f_config this = r_config rl" using assms by (simp_all add: owned_def)
      obtain sf w2 where s: "f_store this (scoped_key (f_config this) key) (cfg_window (f_config this)) w' = (sf, w2)"
        by fastforce
      then have "adv w' w2 \<and> calm adv (\<lambda>_. True) sf"
        using assms shared_store_calm window_in_use by (simp add: owned_def store_atomic)
      then show ?thesis
        using assms advances_trans [OF a] by (simp add: Inr after_limit_def s [unfolded config] config owned_def)
    qed (use a assms in \<open>simp add: after_limit_def owned_def\<close>)
  qed (use assms State_Limit in \<open>simp_all add: owned_def\<close>)
next
  case (State_Store fut q lim)
  show ?thesis
    unfolding poll_step_def State_Store State.case
  proof (rule ready_bang_kept)
    fix r w' assume a: "adv w w'"
    have config: "f_config this = r_config rl" and i: "inst (f_inner this)" using assms by (simp_all add: owned_def)
    have called: "kept w (Continue (this\<lparr>f_inner := i\<rparr>\<lparr>f_state := State_Inner f md\<rparr>) w2)"
      if "svc_call svc (f_inner this) q' v = (f, i, w2)" "adv w' v" for q' v f i w2 md
      using call_calm [OF i that(1)] advances_trans [OF a] advances_trans [OF that(2)] assms by (simp add: owned_def)
    have answered: "kept w (Continue (this\<lparr>f_state := State_Ready response\<rparr>) v)" if "adv w' v" for response v
      using advances_trans [OF a that] assms by (simp add: owned_def)
    show "kept w (let (this', w'') = after_store emit svc this q lim r w' in Continue this' w'')"
      using called answered emits
      by (cases "decide (r_config rl) lim r")
        (auto simp: after_store_decide config simp del: kept.simps split: prod.splits)
  qed (use assms State_Store in \<open>simp_all add: owned_def\<close>)
next
  case (State_Inner fut metadata)
  show ?thesis
    unfolding poll_step_def State_Inner State.case
    by (rule ready_bang_kept) (use assms State_Inner in \<open>simp_all add: owned_def\<close>)
next
  case (State_Ready response)
  obtain out w' where f: "finalize hdr response (f_factory this) w = (out, w')" by fastforce
  have "f_factory this = r_response_factory rl" using assms by (simp add: owned_def)
  then have "adv w w'" using f respond_advances by (cases response) (auto split: prod.splits)
  then show ?thesis by (simp add: poll_step_def State_Ready f)
next
  case State_Done
  then show ?thesis by (simp add: poll_step_def)
qed

lemma poll_kept:
  assumes "owned this" "poll_future (as_future hdr emit svc this) w = (p, w')"
  shows "adv w w' \<and> (\<forall>fut. p = Pending fut \<longrightarrow> (\<exists>this'. fut = as_future hdr emit svc this' \<and> owned this'))"
  using assms
proof (induction "state_rank (f_state this)" arbitrary: this w rule: less_induct)
  case less
  note round = round_kept [OF less.prems(1), of w hdr]
  show ?case
  proof (cases "poll_step hdr emit svc this w")
    case (Return r this' v)
    then show ?thesis
      using round less.prems(2) by (cases r) (auto simp: poll_future_as_future [of _ _ _ this])
  next
    case (Continue this' v)
    then have c: "adv w v" "owned this'" using round by simp_all
    have "poll_future (as_future hdr emit svc this') v = (p, w')"
      using less.prems(2) Continue by (simp add: poll_future_as_future [of _ _ _ this])
    from less.hyps [OF poll_step_rank [OF Continue] c(2) this] advances_trans [OF c(1)] show ?thesis by blast
  qed
qed

lemma calm_as_future: "owned this \<Longrightarrow> calm adv (\<lambda>_. True) (as_future hdr emit svc this)"
  by (coinduction arbitrary: this) (blast dest: poll_kept)

end

context calm_limiter
begin

text \<open>The instances of the limiter's service: the limiter around some instance of its inner service.\<close>

definition nested :: "(('s, 'p, 'b, 'x) shared_world, 'p, 'b, 'h, 'r, 'i, 'key) rate_limit \<Rightarrow> bool" where
  "nested l \<longleftrightarrow> (\<exists>i. inst i \<and> l = rl\<lparr>r_inner := i\<rparr>)"

lemma nested_self: "nested rl"
  unfolding nested_def using inner_inst by (intro exI [of _ "r_inner rl"]) simp

lemma service_ready:
  assumes "nested l" "svc_poll_ready (rate_limit_service hdr emit svc) l w = (ok, l', w')"
  shows "nested l' \<and> adv w w'"
proof -
  obtain i where i: "inst i" "l = rl\<lparr>r_inner := i\<rparr>" using assms(1) unfolding nested_def by blast
  obtain r i' v where p: "svc_poll_ready svc i w = (r, i', v)" using prod_cases3 by blast
  show ?thesis
    using assms(2) ready_advances [OF i(1) p]
    by (auto simp: rate_limit_service_def poll_ready_def i(2) p nested_def)
qed

lemma service_clone:
  assumes "nested l" "svc_clone (rate_limit_service hdr emit svc) l w = (l', w')"
  shows "nested l' \<and> adv w w'"
proof -
  obtain i where i: "inst i" "l = rl\<lparr>r_inner := i\<rparr>" using assms(1) unfolding nested_def by blast
  obtain i' v where p: "svc_clone svc i w = (i', v)" by fastforce
  show ?thesis
    using assms(2) clone_advances [OF i(1) p] by (auto simp: rate_limit_service_def i(2) p nested_def)
qed

lemma call_owned:
  assumes "nested l" "call svc l q w = (this, l', w')"
  shows "nested l' \<and> adv w w' \<and> owned this"
proof -
  obtain i where i: "inst i" "l = rl\<lparr>r_inner := i\<rparr>" using assms(1) unfolding nested_def by blast
  obtain c w1 where c: "svc_clone svc i w = (c, w1)" by fastforce
  note clone = clone_advances [OF i(1) c]
  show ?thesis
  proof (cases "skips (r_config rl) q")
    case True
    obtain f i' w2 where f: "svc_call svc i q w1 = (f, i', w2)" using prod_cases3 by blast
    show ?thesis
      using assms(2) True clone call_calm [OF i(1) f] advances_trans
      by (auto simp: call_def i(2) c check_skip response_future_skipped_def f nested_def owned_def)
  next
    case False
    obtain r w2 where e: "ke_extract (r_key_extractor rl) (request_head q) w1 = (r, w2)" by fastforce
    have w2: "adv w w2" using clone extract_advances [OF e] advances_trans by blast
    show ?thesis
    proof (cases r)
      case (Inl err)
      then show ?thesis
        using assms(2) False clone i(1) w2
        by (auto simp: call_def i(2) c check_skip e response_future_error_def nested_def owned_def)
    next
      case (Inr x)
      obtain lf w3 where l: "r_limit_provider rl (request_head q) w2 = (lf, w3)" by fastforce
      have "adv w w3" using provide_calm [OF l] advances_trans [OF w2] by blast
      then show ?thesis
        using assms(2) False clone i(1) Inr provide_calm [OF l]
        by (auto simp: call_def i(2) c check_skip e l response_future_new_def nested_def owned_def)
    qed
  qed
qed

lemma service_call:
  assumes "nested l" "svc_call (rate_limit_service hdr emit svc) l q w = (fut, l', w')"
  shows "nested l' \<and> adv w w' \<and> calm adv (\<lambda>_. True) fut"
proof -
  obtain this l1 w1 where c: "call svc l q w = (this, l1, w1)" using prod_cases3 by blast
  show ?thesis
    using assms(2) call_owned [OF assms(1) c] calm_as_future by (auto simp: rate_limit_service_def c)
qed

end

section \<open>Two limiters on one store\<close>

lemma hosted_calm_limiter:
  assumes "cfg_window (r_config rl) \<in> wins"
    and "\<And>k. r_store rl k (cfg_window (r_config rl)) = atomic_store inc clock plan k (cfg_window (r_config rl))"
  shows "calm_limiter inc clock plan wins (\<lambda>_. True) (hosted_emit emit) (hosted_service svc) (hosted_limiter rl)"
  by unfold_locales
    (use assms in \<open>auto simp: hosted_limiter_def hosted_service_def hosted_emit_def shared_store_def fun_eq_iff
      intro!: calm_on_rest split: prod.splits\<close>)

lemma nested_application:
  assumes "application_ok outer key (\<lambda>p lim. unat lim \<le> quota p) bypass" "r_inner outer = hosted_limiter inner"
    and "\<And>k win. win \<in> {cfg_window (r_config outer), cfg_window (r_config inner)} \<Longrightarrow>
      r_store outer k win = atomic_store inc clock plan k win \<and> r_store inner k win = atomic_store inc clock plan k win"
  shows "limited_application inc clock plan {cfg_window (r_config outer), cfg_window (r_config inner)}
    key quota bypass (calm_limiter.nested (\<lambda>_. True) (hosted_limiter inner)) (hosted_emit emit)
    (tallied (rate_limit_service hdr (hosted_emit emit) (hosted_service svc))) (hosted_limiter outer)"
proof -
  let ?wins = "{cfg_window (r_config outer), cfg_window (r_config inner)}"
  have calm: "calm_limiter inc clock plan ?wins (\<lambda>_. True) (hosted_emit emit) (hosted_service svc) (hosted_limiter inner)"
    using assms(3) by (intro hosted_calm_limiter) simp_all
  show ?thesis
  proof (rule hosted_application_over [OF assms(1)])
    show "calm_limiter.nested (\<lambda>_. True) (hosted_limiter inner) (r_inner outer)"
      unfolding assms(2) by (rule calm_limiter.nested_self [OF calm])
    show "cfg_window (r_config outer) \<in> ?wins" by simp
    show "r_store outer k (cfg_window (r_config outer)) = atomic_store inc clock plan k (cfg_window (r_config outer))" for k
      using assms(3) by simp
  qed (erule (1) calm_limiter.service_ready [OF calm] calm_limiter.service_clone [OF calm]
      calm_limiter.service_call [OF calm])+
qed

section \<open>Properties\<close>


section \<open>Witness\<close>

text \<open>
  Two limiters on one Redis server: a request arrives and is polled until the outer limiter has
  passed it on to the inner one.
\<close>

abbreviation nested_store :: "map_redis store_world store" where
  "nested_store \<equiv> redis_store_future True map_redis_api redis_store_new sample_redis_clock (\<lambda>_. (0, 0))"

definition sample_inner ::
  "(nat, (unit, unit, string) key_extractor, map_redis store_world store, (unit, unit) limit_provider,
    (unit, unit, unit, (string \<times> string) list, unit) factory, unit) RateLimit" where
  "sample_inner = (sample_application nested_store 1)\<lparr>r_config := sample_config\<lparr>cfg_policy_name := ''user''\<rparr>\<rparr>"

definition sample_nested ::
  "((((map_redis, unit, unit, unit) shared_world, unit, unit, (string \<times> string) list, unit, nat, string) rate_limit),
    (unit, unit, string) key_extractor, map_redis store_world store, (unit, unit) limit_provider,
    (unit, unit, unit, (string \<times> string) list, unit) factory, unit) RateLimit" where
  "sample_nested =
     \<lparr>r_inner = hosted_limiter sample_inner, r_key_extractor = sample_extractor, r_store = nested_store,
      r_limit_provider = (\<lambda>h x. (delayed 1 (Inr 1), x)),
      r_response_factory = default_build list_header_api (), r_config = sample_config\<rparr>"

lemma sample_nested_ok: "application_ok sample_nested (\<lambda>_. ''caller'') (\<lambda>_ lim. unat lim \<le> 1) (\<lambda>_. False)"
  using sample_application_ok [of nested_store 1]
  by (simp add: application_ok_def sample_nested_def sample_application_def)

abbreviation nested_inner_service ::
  "((map_redis, unit, unit, unit) shared_world,
    ((map_redis, unit, unit, unit) shared_world, unit, unit, (string \<times> string) list, unit, nat, string) rate_limit,
    unit, unit, (string \<times> string) list, unit, string) inner_service" where
  "nested_inner_service \<equiv> tallied (rate_limit_service list_header_api (hosted_emit (\<lambda>_ w. w)) (hosted_service slow_service))"

lemma nested_arrives:
  "svc_poll_ready (rate_limit_service list_header_api (hosted_emit (\<lambda>_ w. w)) nested_inner_service)
     (hosted_limiter sample_nested) w = (Ready (Inr ()), hosted_limiter sample_nested, w)"
  "\<exists>s. svc_call (rate_limit_service list_header_api (hosted_emit (\<lambda>_ w. w)) nested_inner_service)
     (hosted_limiter sample_nested) q w =
     (as_future list_header_api (hosted_emit (\<lambda>_ w. w)) nested_inner_service
       \<lparr>f_state = State_Limit (on_rest (delayed 1 (Inr 1))) q ''caller'', f_inner = hosted_limiter sample_inner,
        f_store = shared_store nested_store, f_config = sample_config,
        f_factory = r_response_factory (hosted_limiter sample_nested)\<rparr>, s, w)"
  by (simp_all add: rate_limit_service_def poll_ready_def call_def check_skip skips_def hosted_limiter_def
      sample_nested_def sample_inner_def sample_application_def sample_config_def tallied_def hosted_service_def
      slow_service_def sample_extractor_def pure_extractor_def response_future_new_def)

lemma nested_inner_call:
  "\<exists>fut i' v1 fut' v2. svc_call nested_inner_service (hosted_limiter sample_inner) q v = (fut, i', v1) \<and>
     poll_future fut v1 = (Pending fut', v2) \<and> sh_store v2 = sh_store v \<and> sh_served v2 = sh_served v @ [q]"
  by (simp add: tallied_def rate_limit_service_def call_def check_skip skips_def hosted_limiter_def sample_inner_def
      sample_application_def sample_config_def hosted_service_def slow_service_def sample_extractor_def
      pure_extractor_def response_future_new_def poll_future_as_future poll_step_def ready_bang_def poll_through)


end
