(* ===== verification/RL_Examples.thy ===== *)
theory RL_Examples
  imports RL_Nesting
begin

text \<open>
  The example programs of \<open>src/examples\<close>: their key extractors, quota provider and response
  factory, the limiters they configure, and the whole run of \<open>tower_dynamic\<close>.

  Request heads belong to the \<open>http\<close> crate and connection information to Axum, so both are
  parameters: a \<open>request_api\<close> gives the functions the examples call.  Printing and serving are
  left out.
\<close>

section \<open>Request heads\<close>

record ('p, 'v) request_api =
  rq_build :: "(string \<times> string) list \<Rightarrow> 'p option"
  rq_get :: "'p \<Rightarrow> string \<Rightarrow> 'v option"
  hv_to_str :: "'v \<Rightarrow> string option"
  connect_ip :: "'p \<Rightarrow> IpAddr option"

text \<open>
  Documented behaviour: \<open>Request::builder\<close> accepts names of lower-case letters and dashes with
  visible ASCII values, and \<open>get\<close> then finds the first value of a name, which \<open>to_str\<close> gives
  back; \<open>to_str\<close> succeeds on visible ASCII only (and tabs).
\<close>

definition header_name :: "string \<Rightarrow> bool" where
  "header_name n \<longleftrightarrow> n \<noteq> [] \<and> (\<forall>c \<in> set n. c = CHR ''-'' \<or> 97 \<le> (of_char c :: nat) \<and> (of_char c :: nat) \<le> 122)"

definition request_api_ok :: "('p, 'v) request_api \<Rightarrow> bool" where
  "request_api_ok api \<longleftrightarrow>
     (\<forall>hs. (\<forall>(n, v) \<in> set hs. header_name n \<and> list_all visible_ascii v) \<longrightarrow>
        (\<exists>p. rq_build api hs = Some p \<and>
           (\<forall>n. map_option (hv_to_str api) (rq_get api p n) = map_option Some (map_of hs n)))) \<and>
     (\<forall>v s. hv_to_str api v = Some s \<longrightarrow> list_all (\<lambda>c. visible_ascii c \<or> c = CHR 0x09) s)"

lemma request_api_build:
  assumes "request_api_ok api" "\<forall>(n, v) \<in> set hs. header_name n \<and> list_all visible_ascii v"
  shows "\<exists>p. rq_build api hs = Some p \<and>
    (\<forall>n. map_option (hv_to_str api) (rq_get api p n) = map_option Some (map_of hs n))"
  using conjunct1 [OF assms(1) [unfolded request_api_ok_def]] assms(2) by blast

text \<open>A request head that is its list of headers.\<close>

definition list_request_api :: "((string \<times> string) list, string) request_api" where
  "list_request_api =
     \<lparr>rq_build = Some, rq_get = map_of,
      hv_to_str = (\<lambda>v. if list_all visible_ascii v then Some v else None),
      connect_ip = (\<lambda>p. Option.bind (map_of p ''connect-info'') read_ip)\<rparr>"

lemma list_request_api_ok: "request_api_ok list_request_api"
proof -
  have "map_option (hv_to_str list_request_api) (map_of hs n) = map_option Some (map_of hs n)"
    if "\<forall>(n, v) \<in> set hs. header_name n \<and> list_all visible_ascii v" for hs n
    using that by (cases "map_of hs n") (auto simp: list_request_api_def dest!: map_of_SomeD)
  then show ?thesis
    by (auto simp: request_api_ok_def list_request_api_def list_all_iff split: if_splits)
qed

section \<open>axum_memory\<close>

definition is_allowlisted ::
  "('p, 'v) request_api \<Rightarrow> ('p, unit) http_request \<Rightarrow> IpAddr set \<Rightarrow> bool" where
  "is_allowlisted api request allowlist =
     (case connect_ip api (parts request) of Some ip \<Rightarrow> ip \<in> allowlist | None \<Rightarrow> False)"

text \<open>The address \<open>main\<close> puts on the list, and the list.\<close>

definition localhost :: IpAddr where "localhost = V4 (Ipv4Addr 127 0 0 1)"

definition axum_memory_allowlist :: "IpAddr set" where "axum_memory_allowlist = {localhost}"

definition axum_memory_global ::
  "('h, 'v) header_api \<Rightarrow> 'r \<Rightarrow> 'p client_ip_api \<Rightarrow> 'w store \<Rightarrow>
    (ConfigError, (('w, 'p, IpAddr) key_extractor, 'w store, ('w, 'p) limit_provider,
      ('w, 'p, 'b, 'h, 'r) factory, 'p) RateLimitLayer) result" where
  "axum_memory_global hdr b ipapi st =
     build (with_store st (builder_window (from_secs 60) (builder_limit 10
       (builder_policy_name ''global-limit'' (layer_builder hdr b (IpKeyExtractor ipapi))))))"

definition axum_memory_auth ::
  "('h, 'v) header_api \<Rightarrow> 'r \<Rightarrow> 'p client_ip_api \<Rightarrow>
    ('p, 'z) request_api \<Rightarrow> IpAddr set \<Rightarrow> 'w store \<Rightarrow>
    (ConfigError, (('w, 'p, IpAddr) key_extractor, 'w store, ('w, 'p) limit_provider,
      ('w, 'p, 'b, 'h, 'r) factory, 'p) RateLimitLayer) result" where
  "axum_memory_auth hdr b ipapi api allowlist st =
     build (with_store st (builder_window (from_secs 60) (builder_limit 3
       (skip (\<lambda>request. is_allowlisted api request allowlist)
         (builder_policy_name ''auth-limit'' (layer_builder hdr b (IpKeyExtractor ipapi)))))))"

text \<open>The login handler as the router wraps it: the authentication limiter inside the global one.\<close>

definition axum_memory_login ::
  "('k1, 's1, 'l1, 'f1, 'p) RateLimitLayer \<Rightarrow> ('k2, 's2, 'l2, 'f2, 'p) RateLimitLayer \<Rightarrow> 'i \<Rightarrow>
    (('i, 'k2, 's2, 'l2, 'f2, 'p) RateLimit, 'k1, 's1, 'l1, 'f1, 'p) RateLimit" where
  "axum_memory_login global_limiter auth_limiter login = layer global_limiter (layer auth_limiter login)"

section \<open>axum_redis\<close>

definition missing_user_id :: RateLimitError where
  "missing_user_id = Key ''missing_user_id'' ''x-user-id header is required''"

definition invalid_user_id :: RateLimitError where
  "invalid_user_id = Key ''invalid_user_id'' ''x-user-id must be valid UTF-8''"

definition user_id_extract ::
  "('p, 'v) request_api \<Rightarrow> ('p, unit) http_request \<Rightarrow> (RateLimitError, string) result" where
  "user_id_extract api request =
     (case rq_get api (parts request) ''x-user-id'' of
        None \<Rightarrow> Inl missing_user_id
      | Some header \<Rightarrow>
          (case hv_to_str api header of
             None \<Rightarrow> Inl invalid_user_id
           | Some value \<Rightarrow> if value = [] then Inl missing_user_id else Inr value))"

definition UNAUTHORIZED :: nat where "UNAUTHORIZED = 401"
definition BAD_REQUEST :: nat where "BAD_REQUEST = 400"

definition auth_build :: "('h, 'v) header_api \<Rightarrow> 'r \<Rightarrow> ('w, 'p, 'b, 'h, 'r) factory" where
  "auth_build hdr default_body request reason w =
     (let st = (case reason of
                  Reason_Error (Key c _) \<Rightarrow>
                    if c = ''missing_user_id'' then UNAUTHORIZED
                    else if c = ''invalid_user_id'' then BAD_REQUEST
                    else status_code reason
                | _ \<Rightarrow> status_code reason)
      in ((response_new hdr default_body)\<lparr>status := st\<rparr>, w))"

definition axum_redis_global ::
  "('h, 'v) header_api \<Rightarrow> 'r \<Rightarrow> 'p client_ip_api \<Rightarrow> 'w store \<Rightarrow>
    (ConfigError, (('w, 'p, IpAddr) key_extractor, 'w store, ('w, 'p) limit_provider,
      ('w, 'p, 'b, 'h, 'r) factory, 'p) RateLimitLayer) result" where
  "axum_redis_global hdr b ipapi st =
     build (with_store st (with_key_encoder (\<lambda>k. k) (builder_window (from_secs 60) (builder_limit 10
       (builder_policy_name ''global-limit'' (layer_builder hdr b (IpKeyExtractor ipapi)))))))"

definition axum_redis_user ::
  "('h, 'v) header_api \<Rightarrow> 'r \<Rightarrow> ('p, 'z) request_api \<Rightarrow> 'w store \<Rightarrow>
    (ConfigError, (('w, 'p, string) key_extractor, 'w store, ('w, 'p) limit_provider,
      ('w, 'p, 'b, 'h, 'r) factory, 'p) RateLimitLayer) result" where
  "axum_redis_user hdr b api st =
     build (with_store st (builder_response_factory (auth_build hdr b) (with_key_encoder (\<lambda>k. k)
       (builder_window (from_secs 60) (builder_limit 3 (builder_policy_name ''user-limit''
         (layer_builder hdr b (pure_extractor (user_id_extract api) (\<lambda>k. k))
           :: (('w, 'p, string) key_extractor, unit, ('w, 'p) limit_provider,
               ('w, 'p, 'b, 'h, 'r) factory, 'p) RateLimitBuilder)))))))"

text \<open>The \<open>/me\<close> handler as the router wraps it: the user limiter inside the global one.\<close>

definition axum_redis_me ::
  "('k1, 's1, 'l1, 'f1, 'p) RateLimitLayer \<Rightarrow> ('k2, 's2, 'l2, 'f2, 'p) RateLimitLayer \<Rightarrow> 'i \<Rightarrow>
    (('i, 'k2, 's2, 'l2, 'f2, 'p) RateLimit, 'k1, 's1, 'l1, 'f1, 'p) RateLimit" where
  "axum_redis_me global_limiter user_limiter me = layer global_limiter (layer user_limiter me)"

text \<open>The store the two share.\<close>

definition axum_redis_store :: RedisStore where
  "axum_redis_store = with_namespace redis_store_new ''axum-redis''"

section \<open>tower_dynamic\<close>

definition plan_user_extract ::
  "('p, 'v) request_api \<Rightarrow> ('p, unit) http_request \<Rightarrow> (RateLimitError, string) result" where
  "plan_user_extract api request =
     ok_or (Key ''invalid_user_id'' ''x-user-id is missing, empty, or invalid UTF-8'')
       (case Option.bind (rq_get api (parts request) ''x-user-id'') (hv_to_str api) of
          Some value \<Rightarrow> if value \<noteq> [] then Some value else None
        | None \<Rightarrow> None)"

definition plan_quota :: "('p, 'v) request_api \<Rightarrow> ('p, unit) http_request \<Rightarrow> u64" where
  "plan_quota api request =
     (if Option.bind (rq_get api (parts request) ''x-plan'') (hv_to_str api) = Some ''premium'' then 5 else 2)"

definition plan_limit :: "('p, 'v) request_api \<Rightarrow> ('w, 'p) limit_provider" where
  "plan_limit api request w = (ready (Inr (plan_quota api request)), w)"

text \<open>The request of one \<open>call\<close>; \<open>expect\<close> panics when the builder refuses the headers.\<close>

definition demo_request :: "('p, 'v) request_api \<Rightarrow> string \<Rightarrow> string \<Rightarrow> ('p, unit) http_request option" where
  "demo_request api user_id plan =
     map_option (\<lambda>p. \<lparr>parts = p, extension = None, body = ()\<rparr>)
       (rq_build api [(''x-user-id'', user_id), (''x-plan'', plan)])"

definition tower_dynamic_limiter ::
  "('h, 'v) header_api \<Rightarrow> 'r \<Rightarrow> ('p, 'z) request_api \<Rightarrow> 'w store \<Rightarrow>
    (ConfigError, (('w, 'p, string) key_extractor, 'w store, ('w, 'p) limit_provider,
      ('w, 'p, 'b, 'h, 'r) factory, 'p) RateLimitLayer) result" where
  "tower_dynamic_limiter hdr b api st =
     build (with_store st (builder_window (from_secs 60) (builder_limit_provider (plan_limit api)
       (builder_policy_name ''plan-limit''
         (layer_builder hdr b (pure_extractor (plan_user_extract api) (\<lambda>k. k)))))))"

text \<open>The inner service of \<open>tower_dynamic\<close> and \<open>tower_memory\<close> answers every request at once.\<close>

definition demo_handler :: "('h, 'v) header_api \<Rightarrow> 'r \<Rightarrow> ('p, 'b) http_request \<Rightarrow> ('h, 'r) response" where
  "demo_handler hdr b request = response_new hdr b"

text \<open>
  \<open>main\<close>: three requests of one user on the free plan, then six of another on the premium plan,
  each through \<open>ready().await?.call(request).await\<close> on the same service.
\<close>

definition tower_dynamic_main ::
  "('h, 'v) header_api \<Rightarrow> 'r \<Rightarrow> ('p, 'z) request_api \<Rightarrow> 'w store \<Rightarrow> 'w \<Rightarrow>
    ('e, ('h, 'r) response) result list \<Rightarrow> 'w \<Rightarrow> bool" where
  "tower_dynamic_main hdr b api st w outs w' \<longleftrightarrow>
     (\<exists>limiter free premium.
        tower_dynamic_limiter hdr b api st = Inr limiter \<and>
        demo_request api ''user-free'' ''free'' = Some free \<and>
        demo_request api ''user-premium'' ''premium'' = Some premium \<and>
        session (rate_limit_service hdr (\<lambda>_ w. w) (handler_service (demo_handler hdr b)))
          (layer limiter ()) w (replicate 3 free @ replicate 6 premium) outs w')"

section \<open>tower_memory and trusted_proxy_client_ip\<close>

definition static_client_extract :: "('p, unit) http_request \<Rightarrow> (RateLimitError, string) result" where
  "static_client_extract request = Inr ''example-client''"

definition tower_memory_limiter ::
  "('h, 'v) header_api \<Rightarrow> 'r \<Rightarrow> 'w store \<Rightarrow>
    (ConfigError, (('w, 'p, string) key_extractor, 'w store, ('w, 'p) limit_provider,
      ('w, 'p, 'b, 'h, 'r) factory, 'p) RateLimitLayer) result" where
  "tower_memory_limiter hdr b st =
     build (with_store st (builder_window (from_secs 60) (builder_limit 100
       (builder_policy_name ''tower-example''
         (layer_builder hdr b (pure_extractor static_client_extract (\<lambda>k. k)))))))"

text \<open>\<open>_service\<close>: the limiter around a handler that answers every request at once.\<close>

definition tower_memory_service ::
  "('h, 'v) header_api \<Rightarrow> 'r \<Rightarrow> 'w store \<Rightarrow> (ConfigError, ('w, 'p, 'b, 'h, 'r, unit, string) rate_limit) result" where
  "tower_memory_service hdr b st = map_sum id (\<lambda>limiter. layer limiter ()) (tower_memory_limiter hdr b st)"

definition trusted_proxy :: IpAddr where "trusted_proxy = V4 (Ipv4Addr 192 0 2 10)"

definition trusted_proxy_limiter ::
  "('h, 'v) header_api \<Rightarrow> 'r \<Rightarrow> 'p client_ip_api \<Rightarrow> 'w store \<Rightarrow>
    (ConfigError, (('w, 'p, IpAddr) key_extractor, 'w store, ('w, 'p) limit_provider,
      ('w, 'p, 'b, 'h, 'r) factory, 'p) RateLimitLayer) result" where
  "trusted_proxy_limiter hdr b ipapi st =
     build (with_store st (builder_window (from_secs 60) (builder_limit 100
       (builder_policy_name ''client-ip-limit''
         (layer_builder hdr b (TrustedProxyClientIpKeyExtractor ipapi (\<lambda>peer. peer = trusted_proxy)))))))"

section \<open>The configured limiters\<close>

definition example_config :: "string \<Rightarrow> 'p RateLimitConfig" where
  "example_config nm =
     \<lparr>cfg_policy_name = nm, cfg_window = from_secs 60, cfg_key_encoder = None, cfg_skip_predicate = None,
      cfg_store_failure_mode = Reject, cfg_store_failure_tracing_level = WARN,
      cfg_rate_limit_fields = Draft11\<rparr>"

lemma minute_accepted: "\<not> from_secs 60 < MINIMUM_WINDOW"
  by (simp add: less_Duration_def from_secs_def MINIMUM_WINDOW_def from_millis_def)

lemmas example_defs =
  axum_memory_global_def axum_memory_auth_def axum_redis_global_def axum_redis_user_def
  tower_dynamic_limiter_def tower_memory_limiter_def trusted_proxy_limiter_def
  build_def validate_def builder_defs minute_accepted example_config_def
  default_store_failure_mode_def default_rate_limit_fields_def

lemma tower_dynamic_limiter_layer:
  "tower_dynamic_limiter hdr b api st = Inr \<lparr>l_key_extractor = pure_extractor (plan_user_extract api) (\<lambda>k. k),
     l_store = st, l_limit_provider = plan_limit api, l_response_factory = default_build hdr b,
     l_config = example_config ''plan-limit''\<rparr>"
  by (simp add: example_defs)

lemma axum_redis_user_layer:
  "axum_redis_user hdr b api st = Inr \<lparr>l_key_extractor = pure_extractor (user_id_extract api) (\<lambda>k. k),
     l_store = st, l_limit_provider = fixed_limit 3, l_response_factory = auth_build hdr b,
     l_config = (example_config ''user-limit'')\<lparr>cfg_key_encoder := Some (\<lambda>k. k)\<rparr>\<rparr>"
  by (simp add: example_defs)

lemma axum_memory_auth_layer:
  "axum_memory_auth hdr b ipapi api allowlist st = Inr \<lparr>l_key_extractor = IpKeyExtractor ipapi,
     l_store = st, l_limit_provider = fixed_limit 3, l_response_factory = default_build hdr b,
     l_config = (example_config ''auth-limit'')
       \<lparr>cfg_skip_predicate := Some (\<lambda>request. is_allowlisted api request allowlist)\<rparr>\<rparr>"
  by (simp add: example_defs)

section \<open>The run of tower_dynamic\<close>

lemma default_build_answer: "default_build hdr b = (\<lambda>q reason w. (default_answer hdr b q reason, w))"
  by (simp add: fun_eq_iff default_build_def default_answer_def Let_def)

lemma plan_limit_pure: "plan_limit api = pure_provider (plan_quota api)"
  by (simp add: fun_eq_iff plan_limit_def pure_provider_def)

lemma example_config_skip [simp]:
  "(example_config nm)\<lparr>cfg_skip_predicate := None\<rparr> = example_config nm"
  by (simp add: example_config_def)

lemma scoped_example_key [simp]: "scoped_key (example_config nm) k = make_key nm k"
  by (simp add: scoped_key_def example_config_def)

lemma demo_requests:
  assumes "request_api_ok api" "list_all visible_ascii user" "list_all visible_ascii plan" "user \<noteq> []"
  shows "\<exists>q. demo_request api user plan = Some q \<and> plan_user_extract api (request_head q) = Inr user \<and>
    plan_quota api (request_head q) = (if plan = ''premium'' then 5 else 2)"
proof -
  let ?hs = "[(''x-user-id'', user), (''x-plan'', plan)]"
  have "\<forall>(n, v) \<in> set ?hs. header_name n \<and> list_all visible_ascii v"
    using assms(2,3) by (simp add: header_name_def)
  from request_api_build [OF assms(1) this] obtain p where p: "rq_build api ?hs = Some p"
    and get: "\<And>n. map_option (hv_to_str api) (rq_get api p n) = map_option Some (map_of ?hs n)"
    by blast
  have "Option.bind (rq_get api p ''x-user-id'') (hv_to_str api) = Some user"
    "Option.bind (rq_get api p ''x-plan'') (hv_to_str api) = Some plan"
    using get [of "''x-user-id''"] get [of "''x-plan''"] by auto
  then show ?thesis
    using p assms(4)
    by (auto simp: demo_request_def plan_user_extract_def plan_quota_def request_head_def into_parts_def
        from_parts_def ok_or_def)
qed

lemma results_of_replicate:
  assumes "length outs = n + m" "P a" "\<not> P c"
  shows "map snd (filter (\<lambda>(q, out). P q) (zip (replicate n a @ replicate m c) outs)) = take n outs"
    and "map snd (filter (\<lambda>(q, out). \<not> P q) (zip (replicate n a @ replicate m c) outs)) = drop n outs"
proof -
  have all: "filter (\<lambda>(q, out). Q q) (zip (replicate i x) ys) = (if Q x then zip (replicate i x) ys else [])"
    for Q :: "'q \<Rightarrow> bool" and i x and ys :: "'o list"
  proof (induction i arbitrary: ys)
    case (Suc i)
    then show ?case by (cases ys) auto
  qed simp
  show "map snd (filter (\<lambda>(q, out). P q) (zip (replicate n a @ replicate m c) outs)) = take n outs"
    and "map snd (filter (\<lambda>(q, out). \<not> P q) (zip (replicate n a @ replicate m c) outs)) = drop n outs"
    using assms by (simp_all add: zip_append1 all)
qed

lemma memory_new_absent: "cache_api_ok cache \<Longrightarrow> memory_live cache (memory_store_new cache) t k = None"
  by (simp add: memory_live_def memory_store_new_def expiring_cache.get_new [OF expiring_cache.intro])

text \<open>
  The limiter of \<open>tower_dynamic\<close> in a session whose requests all carry a user: as if keys were
  always present.
\<close>

definition plan_user :: "('p, 'v) request_api \<Rightarrow> ('p, unit) http_request \<Rightarrow> string" where
  "plan_user api h = (case plan_user_extract api h of Inr k \<Rightarrow> k | Inl e \<Rightarrow> [])"

lemma dynamic_session:
  fixes outs :: "('e, ('h, 'r) response) result list"
  assumes "tower_dynamic_limiter hdr b api st = Inr limiter"
    and "\<forall>q \<in> set qs. plan_user_extract api (request_head q) = Inr (plan_user api (request_head q))"
  shows "session (rate_limit_service hdr (\<lambda>_ w. w) (handler_service respond)) (layer limiter ()) w qs outs w' \<longleftrightarrow>
    session (rate_limit_service hdr (\<lambda>_ w. w) (handler_service respond))
      (keyed_limiter (example_config ''plan-limit'') (plan_user api) (\<lambda>k. k) (plan_quota api)
        (default_answer hdr b) st) w qs outs w'"
proof -
  let ?rl = "keyed_limiter (example_config ''plan-limit'') (plan_user api) (\<lambda>k. k) (plan_quota api)
    (default_answer hdr b) st"
  have l: "layer limiter () = ?rl\<lparr>r_key_extractor := pure_extractor (plan_user_extract api) (\<lambda>k. k)\<rparr>"
    using assms(1)
    by (auto simp: tower_dynamic_limiter_layer layer_def keyed_limiter_def plan_limit_pure default_build_answer)
  have k: "?rl = ?rl\<lparr>r_key_extractor := pure_extractor (\<lambda>h. Inr (plan_user api h)) (\<lambda>k. k)\<rparr>"
    by (simp add: keyed_limiter_def)
  show ?thesis unfolding l by (subst (2) k, rule session_extractor [OF assms(2)])
qed

text \<open>Two clients one after the other, each within the same window.\<close>

lemma two_clients_answers:
  fixes outs :: "('e, ('h, 'r) response) result list"
  assumes "session svc s w (replicate n a @ replicate m c) outs w'"
    and "cs = charges_of config key clock (sw_tick w) (replicate n a @ replicate m c)"
    and "scoped_key config (key (request_head a)) = k1" "scoped_key config (key (request_head c)) = k2" "k1 \<noteq> k2"
    and "map let_through (results_of k1 cs outs) =
      replicate (min l1 (charges_on k1 cs)) True @ replicate (charges_on k1 cs - l1) False"
    and "map let_through (results_of k2 cs outs) =
      replicate (min l2 (charges_on k2 cs)) True @ replicate (charges_on k2 cs - l2) False"
  shows "map let_through outs =
    (replicate (min l1 n) True @ replicate (n - l1) False) @ (replicate (min l2 m) True @ replicate (m - l2) False)"
proof -
  have len: "length outs = n + m" using session_length [OF assms(1)] by simp
  have "results_of k1 cs outs = take n outs" "results_of k2 cs outs = drop n outs"
    using results_of_replicate(1) [OF len, of "\<lambda>q. scoped_key config (key (request_head q)) = k1" a c]
      results_of_replicate(2) [OF len, of "\<lambda>q. scoped_key config (key (request_head q)) \<noteq> k2" a c] assms(3-5) len
    by (simp_all add: assms(2) results_of_zip)
  moreover have "charges_on k1 cs = n" "charges_on k2 cs = m"
    using assms(3-5) by (simp_all add: assms(2) charges_on_keys filter_replicate)
  ultimately have "map let_through (take n outs) = replicate (min l1 n) True @ replicate (n - l1) False"
    "map let_through (drop n outs) = replicate (min l2 m) True @ replicate (m - l2) False"
    using assms(6,7) by simp_all
  then have "map let_through (take n outs @ drop n outs) =
    (replicate (min l1 n) True @ replicate (n - l1) False) @ (replicate (min l2 m) True @ replicate (m - l2) False)"
    unfolding map_append by simp
  then show ?thesis by simp
qed

text \<open>The nine requests of \<open>main\<close> in a session over an empty in-process store.\<close>

lemma dynamic_answers:
  fixes outs :: "('e, ('h, 'r) response) result list" and api :: "('p, 'z) request_api"
  assumes "cache_api_ok cache"
    and "clock_runs (\<lambda>ts win. valid_times ts) memory_start memory_fin (from_secs 60) clock"
    and "one_window (\<lambda>ts. memory_opens (memory_start ts) (from_secs 60)) memory_fin clock 0 9"
    and "w = \<lparr>sw_state = memory_store_new cache, sw_tick = 0, sw_calls = 0\<rparr>"
    and "plan_user api (request_head free) = ''user-free''" "plan_quota api (request_head free) = 2"
    and "plan_user api (request_head premium) = ''user-premium''" "plan_quota api (request_head premium) = 5"
    and "session (rate_limit_service hdr (\<lambda>_ w. w) (handler_service (demo_handler hdr b)))
      (keyed_limiter (example_config ''plan-limit'') (plan_user api) (\<lambda>k. k) (plan_quota api)
        (default_answer hdr b) (memory_store cache clock)) w (replicate 3 free @ replicate 6 premium) outs w'"
  shows "map let_through outs = [True, True, False, True, True, True, True, True, False]"
proof -
  let ?c = "example_config ''plan-limit'' :: 'p RateLimitConfig" and ?qs = "replicate 3 free @ replicate 6 premium"
  define cs where "cs = charges_of ?c (plan_user api) clock (sw_tick w) ?qs"
  define k1 k2 where "k1 = make_key ''plan-limit'' ''user-free''" and "k2 = make_key ''plan-limit'' ''user-premium''"
  have ne: "k1 \<noteq> k2" by (simp add: k1_def k2_def make_key_inject)
  have lims: "same_limit ?c (plan_user api) (plan_quota api) k1 2 ?qs"
    "same_limit ?c (plan_user api) (plan_quota api) k2 5 ?qs"
    using ne by (auto simp: same_limit_def assms(5-8) k1_def k2_def)
  have passes: "\<And>q. status (demo_handler hdr b q) \<noteq> TOO_MANY_REQUESTS"
    by (simp add: demo_handler_def response_new_def status_defs)
  have win: "cfg_window ?c = from_secs 60" by (simp add: example_config_def)
  have inv: "memory_invar cache (sw_state w)"
    using expiring_cache.invar_new [OF expiring_cache.intro [OF assms(1)]] by (simp add: assms(4))
  have absent: "memory_live cache (sw_state w) (memory_start (clock (sw_tick w))) k = None" for k
    by (simp add: assms(4) memory_new_absent [OF assms(1)])
  have window: "one_window (\<lambda>ts. memory_opens (memory_start ts) (cfg_window ?c)) memory_fin clock
      (sw_tick w) (sw_tick w + length ?qs)"
    using assms(3) by (simp add: assms(4) win)
  have small: "length ?qs \<le> 2 ^ 64 - 1" by simp
  note within = fixed_window_store.session_within [where disp = "\<lambda>k. k" and key_of = "plan_user api",
      OF memory_fixed_window [OF assms(1)] memory_store_behaves inv assms(2) [folded win] passes _ absent
      window small assms(9) cs_def]
  have "map let_through outs = (replicate (min (unat (2 :: u64)) 3) True @ replicate (3 - unat (2 :: u64)) False) @
      (replicate (min (unat (5 :: u64)) 6) True @ replicate (6 - unat (5 :: u64)) False)"
    by (rule two_clients_answers [OF assms(9) cs_def _ _ ne within [OF lims(1)] within [OF lims(2)]])
      (simp_all add: assms(5,7) k1_def k2_def)
  moreover have "replicate 2 True = [True, True]" "replicate 5 True = [True, True, True, True, True]"
    by (simp_all add: eval_nat_numeral)
  ultimately show ?thesis by simp
qed

text \<open>
  C25.  The program \<open>tower_dynamic\<close> does what it announces: when its nine calls happen within the
  minute of the window, the run completes, two of the three requests on the free plan are let
  through and the third is answered 429, and five of the six on the premium plan are let through
  and the sixth is answered 429.
\<close>

theorem tower_dynamic_run:
  fixes hdr :: "('h, 'v) header_api" and b :: 'r and api :: "('p, 'z) request_api"
    and cache :: "'c cache_api"
  assumes "request_api_ok api" "cache_api_ok cache"
    and "clock_runs (\<lambda>ts win. valid_times ts) memory_start memory_fin (from_secs 60) clock"
    and "one_window (\<lambda>ts. memory_opens (memory_start ts) (from_secs 60)) memory_fin clock 0 9"
    and "w = \<lparr>sw_state = memory_store_new cache, sw_tick = 0, sw_calls = 0\<rparr>"
  shows "(\<exists>(outs :: ('e, ('h, 'r) response) result list) w'.
       tower_dynamic_main hdr b api (memory_store cache clock) w outs w') \<and>
    (\<forall>(outs :: ('e, ('h, 'r) response) result list) w'.
       tower_dynamic_main hdr b api (memory_store cache clock) w outs w' \<longrightarrow>
       map let_through outs = [True, True, False, True, True, True, True, True, False])"
proof -
  let ?st = "memory_store cache clock" and ?c = "example_config ''plan-limit'' :: 'p RateLimitConfig"
  let ?svc = "rate_limit_service hdr (\<lambda>_ w. w) (handler_service (demo_handler hdr b))
    :: (_, (_, _, unit, _, _, _, string) rate_limit, _, _, _, _, 'e) inner_service"
  let ?key = "\<lambda>h. plan_user api h"
  let ?rl = "keyed_limiter ?c ?key (\<lambda>k. k) (plan_quota api) (default_answer hdr b) ?st"
  obtain free where free: "demo_request api ''user-free'' ''free'' = Some free"
    "plan_user_extract api (request_head free) = Inr ''user-free''" "plan_quota api (request_head free) = 2"
    using demo_requests [OF assms(1), of "''user-free''" "''free''"] by (auto simp: visible_ascii_def)
  obtain premium where premium: "demo_request api ''user-premium'' ''premium'' = Some premium"
    "plan_user_extract api (request_head premium) = Inr ''user-premium''" "plan_quota api (request_head premium) = 5"
    using demo_requests [OF assms(1), of "''user-premium''" "''premium''"] by (auto simp: visible_ascii_def)
  have users: "plan_user api (request_head free) = ''user-free''"
    "plan_user api (request_head premium) = ''user-premium''"
    using free premium by (simp_all add: plan_user_def)
  define qs where "qs = replicate 3 free @ replicate 6 premium"
  obtain limiter :: "(_, _, _, ('c store_world, 'p, unit, 'h, 'r) factory, 'p) RateLimitLayer"
    where l: "tower_dynamic_limiter hdr b api ?st = Inr limiter"
    by (simp add: tower_dynamic_limiter_layer)
  have keyed: "\<forall>q \<in> set qs. plan_user_extract api (request_head q) = Inr (plan_user api (request_head q))"
    by (auto simp: qs_def free premium users)
  have main: "tower_dynamic_main hdr b api ?st w outs w' \<longleftrightarrow> session ?svc ?rl w qs outs w'" for outs w'
    using dynamic_session [OF l keyed] by (simp add: tower_dynamic_main_def l free premium qs_def [symmetric])
  have "map let_through outs = [True, True, False, True, True, True, True, True, False]"
    if "session ?svc ?rl w qs outs w'" for outs w'
    by (rule dynamic_answers [OF assms(2-5) users(1) free(3) users(2) premium(3) that [unfolded qs_def]])
  moreover have "\<exists>outs w'. session ?svc ?rl w qs outs w'"
  proof -
    obtain rs s' where "run_charges (memory_increment cache) (sw_state w)
      (charges_of ?c ?key clock (sw_tick w) qs) = (rs, s')" by (rule prod.exhaust)
    from session_run [where disp = "\<lambda>k. k" and key_of = "plan_user api", OF memory_store_behaves this]
    show ?thesis by blast
  qed
  ultimately show ?thesis unfolding main by blast
qed

theorem tower_dynamic_run_witness:
  "\<exists>(outs :: (unit, ((string \<times> string) list, unit) response) result list) w'.
     tower_dynamic_main list_header_api () list_request_api (memory_store map_cache_api sample_clock)
       \<lparr>sw_state = memory_store_new map_cache_api, sw_tick = 0, sw_calls = 0\<rparr> outs w' \<and>
     map let_through outs = [True, True, False, True, True, True, True, True, False]"
proof -
  let ?st = "memory_store map_cache_api sample_clock"
  let ?w = "\<lparr>sw_state = memory_store_new map_cache_api, sw_tick = 0, sw_calls = 0\<rparr>"
  let ?main = "tower_dynamic_main list_header_api () list_request_api ?st ?w
    :: (unit, ((string \<times> string) list, unit) response) result list \<Rightarrow> _"
  have window: "one_window (\<lambda>ts. memory_opens (memory_start ts) (from_secs 60)) memory_fin sample_clock 0 9"
    by (auto simp: one_window_def sample_clock_def times_at_def memory_opens_def memory_start_def
        memory_fin_def checked_add_def instant_max_def Let_def)
  have run: "(\<exists>outs w'. ?main outs w') \<and> (\<forall>outs w'. ?main outs w' \<longrightarrow>
      map let_through outs = [True, True, False, True, True, True, True, True, False])"
    by (rule tower_dynamic_run [OF list_request_api_ok map_cache_api_ok sample_clock_runs window refl])
  then obtain outs w' where "?main outs w'" by (elim conjE exE)
  moreover from this run have "map let_through outs = [True, True, False, True, True, True, True, True, False]"
    by (elim conjE allE impE)
  ultimately show ?thesis by (intro exI [of _ outs] exI [of _ w'] conjI)
qed

section \<open>Identity and allowlist\<close>

lemma auth_build_status:
  "auth_build hdr b request (Reason_Error missing_user_id) w = ((response_new hdr b)\<lparr>status := 401\<rparr>, w)"
  "auth_build hdr b request (Reason_Error invalid_user_id) w = ((response_new hdr b)\<lparr>status := 400\<rparr>, w)"
  "auth_build hdr b request (Reason_RateLimited p) w = ((response_new hdr b)\<lparr>status := 429\<rparr>, w)"
  by (simp_all add: auth_build_def missing_user_id_def invalid_user_id_def UNAUTHORIZED_def BAD_REQUEST_def
      status_defs)

text \<open>A limiter with a pure extractor, a fixed limit and no bypass.\<close>

lemma serves_fixed:
  assumes "rl = \<lparr>r_inner = inner, r_key_extractor = pure_extractor f disp, r_store = st,
      r_limit_provider = fixed_limit n, r_response_factory = factory, r_config = config\<rparr>"
    and "cfg_skip_predicate config = None"
  shows "serves R hdr emit svc rl request w out w' \<longleftrightarrow>
    (case f (request_head request) of
       Inl e \<Rightarrow> (\<exists>response. factory request (Reason_Error e) w = (response, w') \<and> out = Inr response)
     | Inr key \<Rightarrow> lifecycle R hdr emit svc config factory inner request st (disp key) (ready (Inr n)) w out w')"
proof (cases "f (request_head request)")
  case (Inl e)
  then show ?thesis by (subst serves.simps) (auto simp: assms skips_def pure_extractor_def)
next
  case (Inr key)
  then show ?thesis by (subst serves.simps) (simp add: assms skips_def pure_extractor_def fixed_limit_def)
qed

text \<open>
  C26.  The user limiter of \<open>axum_redis\<close>: a request without a user, or with an empty one, is
  answered 401, one whose header is not text is answered 400, in both cases without touching
  store or handler; every other request is charged under its user with a limit of three.  The
  users accepted are non-empty and consist of visible ASCII (and tabs) only, so a header in
  other UTF-8 text is among those answered 400.
\<close>

theorem user_limiter_identity:
  assumes "request_api_ok api" "axum_redis_user hdr b api st = Inr l"
  shows "(serves R hdr emit svc (layer l inner) request w out w' \<longleftrightarrow>
     (case rq_get api (parts request) ''x-user-id'' of
        None \<Rightarrow> out = Inr ((response_new hdr b)\<lparr>status := 401\<rparr>) \<and> w' = w
      | Some v \<Rightarrow>
          (case hv_to_str api v of
             None \<Rightarrow> out = Inr ((response_new hdr b)\<lparr>status := 400\<rparr>) \<and> w' = w
           | Some user \<Rightarrow>
               if user = [] then out = Inr ((response_new hdr b)\<lparr>status := 401\<rparr>) \<and> w' = w
               else lifecycle R hdr emit svc (l_config l) (auth_build hdr b) inner request st user
                 (ready (Inr 3)) w out w'))) \<and>
    (\<forall>h user. user_id_extract api h = Inr user \<longrightarrow>
       user \<noteq> [] \<and> list_all (\<lambda>c. visible_ascii c \<or> c = CHR 0x09) user)"
proof -
  have "user \<noteq> [] \<and> list_all (\<lambda>c. visible_ascii c \<or> c = CHR 0x09) user"
    if "user_id_extract api h = Inr user" for h user
    using that conjunct2 [OF assms(1) [unfolded request_api_ok_def]]
    by (auto simp: user_id_extract_def split: option.splits if_splits)
  moreover have head: "parts (request_head request) = parts request"
    by (simp add: request_head_def into_parts_def from_parts_def)
  have layer: "layer l inner = \<lparr>r_inner = inner, r_key_extractor = pure_extractor (user_id_extract api) (\<lambda>k. k),
      r_store = st, r_limit_provider = fixed_limit 3, r_response_factory = auth_build hdr b, r_config = l_config l\<rparr>"
    "cfg_skip_predicate (l_config l) = None"
    using assms(2) by (auto simp: axum_redis_user_layer layer_def example_config_def)
  have "serves R hdr emit svc (layer l inner) request w out w' \<longleftrightarrow>
    (case rq_get api (parts request) ''x-user-id'' of
        None \<Rightarrow> out = Inr ((response_new hdr b)\<lparr>status := 401\<rparr>) \<and> w' = w
      | Some v \<Rightarrow>
          (case hv_to_str api v of
             None \<Rightarrow> out = Inr ((response_new hdr b)\<lparr>status := 400\<rparr>) \<and> w' = w
           | Some user \<Rightarrow>
               if user = [] then out = Inr ((response_new hdr b)\<lparr>status := 401\<rparr>) \<and> w' = w
               else lifecycle R hdr emit svc (l_config l) (auth_build hdr b) inner request st user
                 (ready (Inr 3)) w out w'))"
    unfolding serves_fixed [OF layer]
    by (auto simp: user_id_extract_def head auth_build_status split: option.split)
  ultimately show ?thesis by blast
qed

theorem user_limiter_identity_witness:
  "\<exists>l :: (_, _, _, (unit, _, unit, _, _) factory, _) RateLimitLayer.
     axum_redis_user list_header_api () list_request_api slow_store = Inr l \<and>
     serves (=) list_header_api (\<lambda>_ w. w) slow_service (layer l 0)
       \<lparr>parts = [(''x-user-id'', [CHR 0xC3, CHR 0xA9])], extension = None, body = ()\<rparr> ()
       (Inr ((response_new list_header_api ())\<lparr>status := 400\<rparr>)) ()"
proof -
  obtain l :: "(_, _, _, (unit, _, unit, _, _) factory, _) RateLimitLayer"
    where l: "axum_redis_user list_header_api () list_request_api slow_store = Inr l"
    by (simp add: axum_redis_user_layer)
  show ?thesis
    using l user_limiter_identity [OF list_request_api_ok l, of "(=)" "\<lambda>_ w. w" slow_service 0
        "\<lparr>parts = [(''x-user-id'', [CHR 0xC3, CHR 0xA9])], extension = None, body = ()\<rparr>" "()"
        "Inr ((response_new list_header_api ())\<lparr>status := 400\<rparr>)" "()"]
    by (auto simp: list_request_api_def visible_ascii_def)
qed

text \<open>
  C27.  The limiters of \<open>axum_memory\<close> around its login handler: a request from an allowlisted
  address is still counted by the global policy but not by the inner one, whose limiter passes
  it on unchanged, and the response carries the fields of the global policy only.  The page of the
  documentation about this example describes the allowlist as a bypass of both layers; the program
  sets it on the inner one.
\<close>

theorem allowlisted_login:
  assumes "axum_memory_global hdr b ipapi st1 = Inr g" "axum_memory_auth hdr b ipapi api allowlist st2 = Inr a"
    and "connect_ip api (parts request) = Some ip" "ip \<in> allowlist"
    and "outer = axum_memory_login g a inner" "admission R outer request w p w1"
    and "svc_clone svc inner w1 = (replacement, w2)"
    and "svc_call svc inner (append_context request (metadata_of (l_config g) p)) w2 = (fut, i, w3)"
    and "awaits R fut w3 (Inr response) w'"
  shows "serves R hdr emit (rate_limit_service hdr emit svc) outer request w
      (Inr (append_rate_limit_fields hdr response (metadata_of (l_config g) p))) w' \<and>
    context_policies (append_context request (metadata_of (l_config g) p)) = context_policies request @ [p]"
proof -
  let ?m = "metadata_of (l_config g) p" and ?svc = "rate_limit_service hdr emit svc"
  obtain f rl' v where c: "svc_call ?svc (layer a inner) (append_context request ?m) w1 = (f, rl', v)"
    using prod_cases3 by blast
  have "skips (r_config (layer a inner)) (append_context request ?m)"
    using assms(2-4)
    by (auto simp: axum_memory_auth_layer layer_def skips_def is_allowlisted_def append_context_def
        request_head_def into_parts_def from_parts_def example_config_def Let_def)
  then have "serves R hdr emit svc (layer a inner) (append_context request ?m) w2 (Inr response) w'"
    using assms(8,9) by (intro serves.bypassed) (simp_all add: layer_def)
  then have "awaits R f v (Inr response) w'"
    using awaited_call_serves [OF _ c] assms(7) by (simp add: layer_def)
  from serves_admission [OF assms(6), of ?svc f rl' v, OF _ this, of hdr emit]
  show ?thesis using c by (simp add: assms(5) axum_memory_login_def layer_def)
qed

definition login_ip_api :: "(string \<times> string) list client_ip_api" where
  "login_ip_api =
     \<lparr>extract_socket_ip = (\<lambda>r. Option.bind (map_of (parts r) ''connect-info'') read_ip),
      extract_proxy_client_ip = (\<lambda>r. Inr (Option.bind (map_of (parts r) ''connect-info'') read_ip)),
      extract_client_ip = (\<lambda>p. Inr None)\<rparr>"

definition login_request :: "((string \<times> string) list, unit) http_request" where
  "login_request = \<lparr>parts = [(''connect-info'', ip_to_string localhost)], extension = None, body = ()\<rparr>"

theorem allowlisted_login_witness:
  "\<exists>(g :: (_, _, _, (unit, _, unit, _, _) factory, _) RateLimitLayer)
     (a :: (_, _, _, (unit, _, unit, _, _) factory, _) RateLimitLayer) response.
     axum_memory_global list_header_api () login_ip_api slow_store = Inr g \<and>
     axum_memory_auth list_header_api () login_ip_api list_request_api axum_memory_allowlist slow_store = Inr a \<and>
     serves (=) list_header_api (\<lambda>_ w. w) (rate_limit_service list_header_api (\<lambda>_ w. w) slow_service)
       (axum_memory_login g a 0) login_request () (Inr response) ()"
proof -
  obtain g :: "(_, _, _, (unit, _, unit, _, _) factory, _) RateLimitLayer"
    where g: "axum_memory_global list_header_api () login_ip_api slow_store = Inr g"
    by (simp add: example_defs)
  obtain a :: "(_, _, _, (unit, _, unit, _, _) factory, _) RateLimitLayer"
    where a: "axum_memory_auth list_header_api () login_ip_api list_request_api axum_memory_allowlist slow_store = Inr a"
    by (simp add: axum_memory_auth_layer)
  define outer where "outer = axum_memory_login g a (0 :: nat)"
  define p where "p = charged_policy (r_config outer) 10 \<lparr>used = 1, reset_after = cfg_window (r_config outer)\<rparr>"
  have ip: "connect_ip list_request_api (parts login_request) = Some localhost"
    by (simp add: list_request_api_def login_request_def read_ip_to_string)
  have adm: "admission (=) outer login_request () p ()"
    unfolding p_def using g
    by (intro admission_sample [where key = localhost])
      (auto simp: outer_def axum_memory_login_def example_defs layer_def IpKeyExtractor_def pure_extractor_def ip_extract_def ok_or_def
        login_ip_api_def login_request_def request_head_def into_parts_def from_parts_def read_ip_to_string)
  have clone: "svc_clone slow_service 0 () = (1, ())"
    and call: "svc_call slow_service 0 (append_context login_request (metadata_of (l_config g) p)) () =
      (delayed 2 (Inr (response_new list_header_api ())), 0, ())"
    by (simp_all add: slow_service_def)
  show ?thesis
    using allowlisted_login [OF g a ip _ outer_def adm clone call awaits_delayed] g a axum_memory_allowlist_def
    unfolding outer_def by blast
qed

text \<open>
  Every example configures a valid limiter: none of them fails in \<open>build()?\<close>, and the layers
  have the policies, limits, encoders and factories the programs name, with the defaults for the
  rest.
\<close>

theorem examples_configured:
  "axum_memory_global hdr b ipapi st = Inr \<lparr>l_key_extractor = IpKeyExtractor ipapi,
     l_store = st, l_limit_provider = fixed_limit 10, l_response_factory = default_build hdr b,
     l_config = example_config ''global-limit''\<rparr> \<and>
   axum_memory_auth hdr b ipapi api allowlist st = Inr \<lparr>l_key_extractor = IpKeyExtractor ipapi,
     l_store = st, l_limit_provider = fixed_limit 3, l_response_factory = default_build hdr b,
     l_config = (example_config ''auth-limit'')
       \<lparr>cfg_skip_predicate := Some (\<lambda>request. is_allowlisted api request allowlist)\<rparr>\<rparr> \<and>
   axum_redis_global hdr b ipapi st = Inr \<lparr>l_key_extractor = IpKeyExtractor ipapi,
     l_store = st, l_limit_provider = fixed_limit 10, l_response_factory = default_build hdr b,
     l_config = (example_config ''global-limit'')\<lparr>cfg_key_encoder := Some (\<lambda>k. k)\<rparr>\<rparr> \<and>
   axum_redis_user hdr b api st = Inr \<lparr>l_key_extractor = pure_extractor (user_id_extract api) (\<lambda>k. k),
     l_store = st, l_limit_provider = fixed_limit 3, l_response_factory = auth_build hdr b,
     l_config = (example_config ''user-limit'')\<lparr>cfg_key_encoder := Some (\<lambda>k. k)\<rparr>\<rparr> \<and>
   tower_dynamic_limiter hdr b api st = Inr \<lparr>l_key_extractor = pure_extractor (plan_user_extract api) (\<lambda>k. k),
     l_store = st, l_limit_provider = plan_limit api, l_response_factory = default_build hdr b,
     l_config = example_config ''plan-limit''\<rparr> \<and>
   tower_memory_limiter hdr b st = Inr \<lparr>l_key_extractor = pure_extractor static_client_extract (\<lambda>k. k),
     l_store = st, l_limit_provider = fixed_limit 100, l_response_factory = default_build hdr b,
     l_config = example_config ''tower-example''\<rparr> \<and>
   trusted_proxy_limiter hdr b ipapi st = Inr
     \<lparr>l_key_extractor = TrustedProxyClientIpKeyExtractor ipapi (\<lambda>peer. peer = trusted_proxy),
      l_store = st, l_limit_provider = fixed_limit 100, l_response_factory = default_build hdr b,
      l_config = example_config ''client-ip-limit''\<rparr>"
  by (intro conjI) (simp_all add: example_defs)

section \<open>The limiter of tower_dynamic before any application\<close>

text \<open>
  The handler may be any service and need not answer at once.  The client key is the user, the
  quota that of the plan the request names.
\<close>

definition dynamic_user :: "('p, 'v) request_api \<Rightarrow> 'p \<Rightarrow> string" where
  "dynamic_user api p =
     (case plan_user_extract api \<lparr>parts = p, extension = None, body = ()\<rparr> of Inl e \<Rightarrow> '''' | Inr user \<Rightarrow> user)"

definition dynamic_quota :: "('p, 'v) request_api \<Rightarrow> 'p \<Rightarrow> nat" where
  "dynamic_quota api p = unat (plan_quota api \<lparr>parts = p, extension = None, body = ()\<rparr>)"

definition dynamic_limiter ::
  "('h, 'v) header_api \<Rightarrow> 'r \<Rightarrow> ('p, 'z) request_api \<Rightarrow> 'w store \<Rightarrow> 'i \<Rightarrow> ('w, 'p, 'b, 'h, 'r, 'i, string) rate_limit" where
  "dynamic_limiter hdr b api st inner = layer (projr (tower_dynamic_limiter hdr b api st)) inner"

lemma dynamic_limiter_fields:
  "r_config (dynamic_limiter hdr b api st inner) = example_config ''plan-limit''"
  "r_store (dynamic_limiter hdr b api st inner) = st"
  "r_key_extractor (dynamic_limiter hdr b api st inner) = pure_extractor (plan_user_extract api) (\<lambda>k. k)"
  "r_limit_provider (dynamic_limiter hdr b api st inner) = plan_limit api"
  "r_response_factory (dynamic_limiter hdr b api st inner) = default_build hdr b"
  by (simp_all add: dynamic_limiter_def tower_dynamic_limiter_layer layer_def)

lemma calm_ready: "P a \<Longrightarrow> (\<And>w. A w w) \<Longrightarrow> calm A P (ready a)"
  by (intro calm) auto

lemma dynamic_quota_le: "dynamic_quota api p \<le> 5"
  by (simp add: dynamic_quota_def plan_quota_def)

interpretation dyn: limited_application "memory_increment cache" clock "\<lambda>c t. At_Call 0" "{from_secs 60}"
  "dynamic_user api" "dynamic_quota api" "\<lambda>_. False" "\<lambda>_. True" "hosted_emit emit" "recorded_service svc"
  "dynamic_limiter hdr b api (shared_store (memory_store cache clock)) inner"
  for cache :: "'c cache_api" and clock and api :: "('p, 'z) request_api" and hdr :: "('h, 'v) header_api" and b :: 'r
    and emit :: "trace_event \<Rightarrow> 'x \<Rightarrow> 'x" and svc :: "('x, 'i, 'p, 'b, 'h, 'r, 'e) inner_service" and inner
proof
  fix h :: "('p, unit) http_request" and w :: "('c, 'p, 'b, 'x) shared_world" and r w'
  assume "ke_extract (r_key_extractor (dynamic_limiter hdr b api (shared_store (memory_store cache clock)) inner)) h w = (r, w')"
  then show "advances (memory_increment cache) clock {from_secs 60} w w' \<and>
    (\<forall>x. r = Inr x \<longrightarrow> ke_to_string (r_key_extractor (dynamic_limiter hdr b api
      (shared_store (memory_store cache clock)) inner)) x = dynamic_user api (parts h))"
    by (auto simp: dynamic_limiter_fields pure_extractor_def dynamic_user_def plan_user_extract_def)
next
  fix h :: "('p, unit) http_request" and w :: "('c, 'p, 'b, 'x) shared_world" and fut w'
  assume "r_limit_provider (dynamic_limiter hdr b api (shared_store (memory_store cache clock)) inner) h w = (fut, w')"
  then show "advances (memory_increment cache) clock {from_secs 60} w w' \<and>
    calm (advances (memory_increment cache) clock {from_secs 60})
      (\<lambda>r. \<forall>lim. r = Inr lim \<longrightarrow> unat lim \<le> dynamic_quota api (parts h)) fut"
    by (auto simp: dynamic_limiter_fields plan_limit_def dynamic_quota_def plan_quota_def intro!: calm_ready)
qed (auto simp: dynamic_limiter_fields example_config_def skips_def memory_store_atomic recorded_service_defs
    hosted_emit_def default_build_def advances_served_rest intro!: calm_on_rest split: prod.splits)

interpretation dyn_books: ledger_application "memory_increment cache" clock "\<lambda>c t. At_Call 0"
  "dynamic_user api" "\<lambda>_. False" "\<lambda>_. True" "hosted_emit emit" "recorded_service svc"
  "dynamic_limiter hdr b api (shared_store (memory_store cache clock)) inner"
  "advances (memory_increment cache) clock {from_secs 60}" "\<lambda>p lim. unat lim \<le> dynamic_quota api p"
  "\<lambda>arr w toks. accounted (memory_increment cache) clock {from_secs 60}
     (example_config ''plan-limit'') (dynamic_user api) (dynamic_quota api) (\<lambda>_. False) sw0 w (results toks)"
  for cache :: "'c cache_api" and clock and api :: "('p, 'z) request_api" and hdr :: "('h, 'v) header_api" and b :: 'r
    and emit :: "trace_event \<Rightarrow> 'x \<Rightarrow> 'x" and svc :: "('x, 'i, 'p, 'b, 'h, 'r, 'e) inner_service" and inner sw0
  by (rule dyn.admission_ledger [unfolded dynamic_limiter_fields])

section \<open>The two limiters of axum_redis together\<close>

lemma user_limiter_serves_anonymous:
  assumes "axum_redis_user hdr b api st = Inr u" "rq_get api (parts request) ''x-user-id'' = None"
  shows "serves R hdr emit svc (layer u inner) request w (Inr ((response_new hdr b)\<lparr>status := 401\<rparr>)) w"
proof (rule serves.key_failed)
  show "\<not> skips (r_config (layer u inner)) request"
    using assms(1) by (auto simp: axum_redis_user_layer layer_def skips_def example_config_def)
  show "ke_extract (r_key_extractor (layer u inner)) (request_head request) w = (Inl missing_user_id, w)"
    using assms by (auto simp: axum_redis_user_layer layer_def pure_extractor_def user_id_extract_def
        request_head_def into_parts_def from_parts_def)
  show "r_response_factory (layer u inner) request (Reason_Error missing_user_id) w =
      ((response_new hdr b)\<lparr>status := 401\<rparr>, w)"
    using assms(1) by (auto simp: axum_redis_user_layer layer_def auth_build_def missing_user_id_def UNAUTHORIZED_def)
qed

text \<open>
  A request to \<open>/me\<close> of \<open>axum_redis\<close> without a user, let through by the global policy: it
  is counted for its address only.  The user limiter answers 401 without charging the store they
  share and without calling the handler, and the global limiter adds its fields to that answer.
\<close>

theorem anonymous_me_unauthorized:
  assumes "axum_redis_global hdr b ipapi st = Inr g" "axum_redis_user hdr b api st = Inr u"
    and "rq_get api (parts request) ''x-user-id'' = None"
    and "outer = axum_redis_me g u inner" "admission R outer request w p w1"
    and "svc_clone svc inner w1 = (replacement, w')"
  shows "serves R hdr emit (rate_limit_service hdr emit svc) outer request w
    (Inr (append_rate_limit_fields hdr ((response_new hdr b)\<lparr>status := 401\<rparr>) (metadata_of (l_config g) p))) w'"
proof -
  let ?m = "metadata_of (l_config g) p" and ?svc = "rate_limit_service hdr emit svc"
  obtain f rl' v where c: "svc_call ?svc (layer u inner) (append_context request ?m) w1 = (f, rl', v)"
    using prod_cases3 by blast
  have "serves R hdr emit svc (layer u inner) (append_context request ?m) w'
      (Inr ((response_new hdr b)\<lparr>status := 401\<rparr>)) w'"
    by (rule user_limiter_serves_anonymous [OF assms(2)]) (simp add: append_context_frame assms(3))
  then have "awaits R f v (Inr ((response_new hdr b)\<lparr>status := 401\<rparr>)) w'"
    using awaited_call_serves [OF _ c] assms(6) by (simp add: layer_def)
  from serves_admission [OF assms(5), of ?svc f rl' v, OF _ this, of hdr emit]
  show ?thesis using c by (simp add: assms(4) axum_redis_me_def layer_def)
qed

theorem anonymous_me_unauthorized_witness:
  "\<exists>(g :: (_, _, _, (unit, _, unit, _, _) factory, _) RateLimitLayer)
     (u :: (_, _, _, (unit, _, unit, _, _) factory, _) RateLimitLayer) response.
     axum_redis_global list_header_api () login_ip_api slow_store = Inr g \<and>
     axum_redis_user list_header_api () list_request_api slow_store = Inr u \<and>
     serves (=) list_header_api (\<lambda>_ w. w) (rate_limit_service list_header_api (\<lambda>_ w. w) slow_service)
       (axum_redis_me g u 0) login_request () (Inr response) () \<and> status response = 401"
proof -
  obtain g :: "(_, _, _, (unit, _, unit, _, _) factory, _) RateLimitLayer"
    where g: "axum_redis_global list_header_api () login_ip_api slow_store = Inr g"
    by (simp add: example_defs)
  obtain u :: "(_, _, _, (unit, _, unit, _, _) factory, _) RateLimitLayer"
    where u: "axum_redis_user list_header_api () list_request_api slow_store = Inr u"
    by (simp add: axum_redis_user_layer)
  define outer where "outer = axum_redis_me g u (0 :: nat)"
  define p where "p = charged_policy (r_config outer) 10 \<lparr>used = 1, reset_after = cfg_window (r_config outer)\<rparr>"
  have anonymous: "rq_get list_request_api (parts login_request) ''x-user-id'' = None"
    by (simp add: list_request_api_def login_request_def)
  have adm: "admission (=) outer login_request () p ()"
    unfolding p_def using g
    by (intro admission_sample [where key = localhost])
      (auto simp: outer_def axum_redis_me_def example_defs layer_def IpKeyExtractor_def pure_extractor_def ip_extract_def ok_or_def
        login_ip_api_def login_request_def request_head_def into_parts_def from_parts_def read_ip_to_string)
  have clone: "svc_clone slow_service 0 () = (1, ())" by (simp add: slow_service_def)
  let ?r = "append_rate_limit_fields list_header_api ((response_new list_header_api ())\<lparr>status := 401\<rparr>)
    (metadata_of (l_config g) p)"
  have "status ?r = 401" by (simp add: append_rate_limit_fields_def append_header_def Let_def split: prod.split option.split)
  then show ?thesis
    using anonymous_me_unauthorized [OF g u anonymous outer_def adm clone, of "\<lambda>_ w. w"] g u
    unfolding outer_def by blast
qed

section \<open>The user limiter of axum_redis as an inner service\<close>

definition user_limiter ::
  "('h, 'v) header_api \<Rightarrow> 'r \<Rightarrow> ('p, 'z) request_api \<Rightarrow> 'w store \<Rightarrow> 'i \<Rightarrow> ('w, 'p, 'b, 'h, 'r, 'i, string) rate_limit" where
  "user_limiter hdr b api st inner = layer (projr (axum_redis_user hdr b api st)) inner"

lemma user_limiter_fields:
  "r_config (user_limiter hdr b api st inner) = (example_config ''user-limit'')\<lparr>cfg_key_encoder := Some (\<lambda>k. k)\<rparr>"
  "r_store (user_limiter hdr b api st inner) = st"
  "r_key_extractor (user_limiter hdr b api st inner) = pure_extractor (user_id_extract api) (\<lambda>k. k)"
  "r_limit_provider (user_limiter hdr b api st inner) = fixed_limit 3"
  "r_response_factory (user_limiter hdr b api st inner) = auth_build hdr b"
  by (simp_all add: user_limiter_def axum_redis_user_layer layer_def)

lemma minute_store:
  "redis_store_future lua api this clock network k (from_secs 60) =
   atomic_store (redis_increment lua api this) clock (\<lambda>c t. case network c of (n, m) \<Rightarrow> On_Poll n m) k (from_secs 60)"
  by (rule redis_store_atomic [of _ 60000]) (simp add: checked_millis_secs)

interpretation usr: calm_limiter "redis_increment lua api this" clock
  "\<lambda>c t. case network c of (n, m) \<Rightarrow> On_Poll n m" "{from_secs 60}" "\<lambda>_. True" "hosted_emit emit" "hosted_service svc"
  "user_limiter hdr b rapi (shared_store (redis_store_future lua api this clock network)) inner"
  for lua and api :: "'d redis_api" and this clock network and rapi :: "('p, 'z) request_api"
    and hdr :: "('h, 'v) header_api" and b :: 'r and emit :: "trace_event \<Rightarrow> 'x \<Rightarrow> 'x"
    and svc :: "('x, 'i, 'p, 'b, 'h, 'r, 'e) inner_service" and inner
  by unfold_locales
    (auto simp: user_limiter_fields example_config_def shared_store_def minute_store fun_eq_iff hosted_service_def
      hosted_emit_def auth_build_def pure_extractor_def fixed_limit_def intro!: calm_on_rest calm_ready split: prod.splits)

lemma axum_redis_me_fields:
  assumes "axum_redis_global hdr b ipapi st = Inr g" "axum_redis_user hdr b rapi st = Inr u"
  shows "axum_redis_me g u me = \<lparr>r_inner = user_limiter hdr b rapi st me, r_key_extractor = IpKeyExtractor ipapi,
    r_store = st, r_limit_provider = fixed_limit 10, r_response_factory = default_build hdr b,
    r_config = (example_config ''global-limit'')\<lparr>cfg_key_encoder := Some (\<lambda>k. k)\<rparr>\<rparr>"
proof -
  have u: "layer u me = user_limiter hdr b rapi st me" by (simp add: user_limiter_def assms(2))
  show ?thesis unfolding axum_redis_me_def u using assms(1) by (auto simp: example_defs layer_def)
qed

text \<open>The global limiter around the user limiter, as an application whose inner service charges too.\<close>

lemma axum_redis_me_application:
  fixes rapi :: "('p, 'z) request_api" and svc :: "('x, 'i, 'p, 'b, 'h, 'r, 'e) inner_service"
  assumes "axum_redis_global hdr b ipapi (shared_store (redis_store_future lua api axum_redis_store clock network)) = Inr g"
    and "axum_redis_user hdr b rapi (shared_store (redis_store_future lua api axum_redis_store clock network)) = Inr u"
    and "\<And>h. extract_socket_ip ipapi h = address (parts h)"
  shows "limited_application (redis_increment lua api axum_redis_store) clock
    (\<lambda>c t. case network c of (n, m) \<Rightarrow> On_Poll n m) {from_secs 60}
    (\<lambda>p. case address p of Some a \<Rightarrow> ip_to_string a | None \<Rightarrow> '''') (\<lambda>_. 10) (\<lambda>_. False)
    (calm_limiter.nested (\<lambda>_. True) (user_limiter hdr b rapi
       (shared_store (redis_store_future lua api axum_redis_store clock network)) me))
    (hosted_emit emit) (tallied (rate_limit_service hdr (hosted_emit emit) (hosted_service svc)))
    (axum_redis_me g u me)"
    (is "limited_application _ _ _ _ _ _ _ (calm_limiter.nested _ ?inner) _ (tallied ?svc) _")
proof -
  note rl = axum_redis_me_fields [OF assms(1,2), of me]
  show ?thesis
  proof
    fix i w ok i' w'
    assume "calm_limiter.nested (\<lambda>_. True) ?inner i" "svc_poll_ready (tallied ?svc) i w = (ok, i', w')"
    then show "calm_limiter.nested (\<lambda>_. True) ?inner i' \<and>
        advances (redis_increment lua api axum_redis_store) clock {from_secs 60} w w'"
      by (intro usr.service_ready) (simp_all add: tallied_def)
  next
    fix i w i' w'
    assume "calm_limiter.nested (\<lambda>_. True) ?inner i" "svc_clone (tallied ?svc) i w = (i', w')"
    then show "calm_limiter.nested (\<lambda>_. True) ?inner i' \<and>
        advances (redis_increment lua api axum_redis_store) clock {from_secs 60} w w'"
      by (intro usr.service_clone) (simp_all add: tallied_def)
  next
    fix i q w fut i' w'
    assume "calm_limiter.nested (\<lambda>_. True) ?inner i" "svc_call (tallied ?svc) i q w = (fut, i', w')"
    then show "calm_limiter.nested (\<lambda>_. True) ?inner i' \<and>
        advances (redis_increment lua api axum_redis_store) clock {from_secs 60}
          (w\<lparr>sh_served := sh_served w @ [q]\<rparr>) w' \<and>
        calm (advances (redis_increment lua api axum_redis_store) clock {from_secs 60}) (\<lambda>_. True) fut"
      by (intro usr.service_call) (simp_all add: tallied_def)
  next
    show "calm_limiter.nested (\<lambda>_. True) ?inner (r_inner (axum_redis_me g u me))"
      by (simp add: rl usr.nested_self)
  qed (auto simp: rl example_config_def skips_def shared_store_def minute_store fun_eq_iff hosted_emit_def
      default_build_def IpKeyExtractor_def pure_extractor_def ip_extract_def ok_or_def assms(3) fixed_limit_def
      intro!: calm_ready split: option.splits)
qed

text \<open>
  C12.  The route \<open>/me\<close> of \<open>axum_redis\<close> under load.  The global limiter and the user limiter share
  one Redis store; the handler is any service, the requests are in flight in any number and
  order, and any of them may be dropped.  Within a minute at most ten requests from one address
  get past the global limiter, whatever users they name and whatever the user limiter charges.
\<close>

theorem axum_redis_me_limit:
  fixes rapi :: "('p, 'z) request_api" and svc :: "('x, 'i, 'p, 'b, 'h, 'r, 'e) inner_service"
  assumes "axum_redis_global hdr b ipapi (shared_store (redis_store_future lua api axum_redis_store clock network)) = Inr g"
    and "axum_redis_user hdr b rapi (shared_store (redis_store_future lua api axum_redis_store clock network)) = Inr u"
    and "\<And>h. extract_socket_ip ipapi h = address (parts h)"
    and "redis_api_ok api" "redis_invar lua api axum_redis_store (sw_state sw)"
    and "clock_runs (redis_valid lua) t_first t_first (from_secs 60) clock"
    and "redis_live api axum_redis_store (sw_state sw) (t_first (clock (sw_tick sw)))
      (make_key ''global-limit'' (ip_to_string ip)) = None"
    and "executes (rate_limit_service hdr (hosted_emit emit)
        (tallied (rate_limit_service hdr (hosted_emit emit) (hosted_service svc)))) (axum_redis_me g u me)
      \<lparr>sh_store = sw, sh_served = [], sh_rejected = [], sh_rest = x0\<rparr> x"
    and "one_window (\<lambda>ts. redis_opens (t_first ts) (from_secs 60)) t_first clock (sw_tick sw)
      (sw_tick (sh_store (ex_world x)))"
    and "sw_tick (sh_store (ex_world x)) - sw_tick sw \<le> nat (horizon lua)"
  shows "length (filter (\<lambda>q. address (parts q) = Some ip) (sh_served (ex_world x))) \<le> 10"
proof -
  let ?key = "\<lambda>p. case address p of Some a \<Rightarrow> ip_to_string a | None \<Rightarrow> ''''"
  let ?config = "r_config (axum_redis_me g u me)" and ?K = "make_key ''global-limit'' (ip_to_string ip)"
  have key: "scoped_key ?config k = make_key ''global-limit'' k" for k
    by (simp add: axum_redis_me_fields [OF assms(1,2)] scoped_key_def example_config_def)
  note app = axum_redis_me_application [OF assms(1-3), where me = me and emit = emit and svc = svc]
  have "length (filter (\<lambda>q. \<not> False \<and> scoped_key ?config (?key (parts q)) = ?K) (sh_served (ex_world x))) \<le> 10"
    using application_within_limit [OF app redis_fixed_window [OF assms(4)] assms(8), of ?K 10] assms(5-7,9,10) by simp
  moreover have "length (filter (\<lambda>q. address (parts q) = Some ip) (sh_served (ex_world x))) \<le>
      length (filter (\<lambda>q. \<not> False \<and> scoped_key ?config (?key (parts q)) = ?K) (sh_served (ex_world x)))"
    by (rule length_filter_mono) (simp add: key)
  ultimately show ?thesis by (rule order.trans [rotated])
qed

abbreviation me_store :: "(map_redis, (string \<times> string) list, unit, unit) shared_world store" where
  "me_store \<equiv> shared_store (redis_store_future True map_redis_api axum_redis_store sample_redis_clock (\<lambda>_. (0, 0)))"

abbreviation me_inner ::
  "((map_redis, (string \<times> string) list, unit, unit) shared_world,
    ((map_redis, (string \<times> string) list, unit, unit) shared_world, (string \<times> string) list, unit,
      (string \<times> string) list, unit, nat, string) rate_limit,
    (string \<times> string) list, unit, (string \<times> string) list, unit, string) inner_service" where
  "me_inner \<equiv> tallied (rate_limit_service list_header_api (hosted_emit (\<lambda>_ w. w)) (hosted_service slow_service))"

definition me_global ::
  "((map_redis, (string \<times> string) list, unit, unit) shared_world, (string \<times> string) list, unit,
     (string \<times> string) list, unit,
     ((map_redis, (string \<times> string) list, unit, unit) shared_world, (string \<times> string) list, unit,
      (string \<times> string) list, unit, nat, string) rate_limit, IpAddr) rate_limit" where
  "me_global =
     \<lparr>r_inner = user_limiter list_header_api () list_request_api me_store 0, r_key_extractor = IpKeyExtractor login_ip_api,
      r_store = me_store, r_limit_provider = fixed_limit 10, r_response_factory = default_build list_header_api (),
      r_config = (example_config ''global-limit'')\<lparr>cfg_key_encoder := Some (\<lambda>k. k)\<rparr>\<rparr>"

lemma me_inner_call:
  "\<exists>fut i' out v'. svc_call me_inner (user_limiter list_header_api () list_request_api me_store 0)
      (append_context login_request m) v = (fut, i', v') \<and>
     poll_future fut v' = (Ready out, v') \<and> sh_store v' = sh_store v \<and>
     sh_served v' = sh_served v @ [append_context login_request m]"
  by (simp add: tallied_def rate_limit_service_def call_def check_skip skips_def user_limiter_fields example_config_def
      user_limiter_def axum_redis_user_layer layer_def hosted_service_def slow_service_def pure_extractor_def
      user_id_extract_def list_request_api_def login_request_def request_head_def into_parts_def from_parts_def
      append_context_def Let_def response_future_error_def poll_future_as_future poll_step_def auth_build_def)

lemma me_poll:
  assumes "this = \<lparr>f_state = State_Limit (ready (Inr 10)) login_request (ip_to_string localhost),
      f_inner = r_inner me_global, f_store = me_store, f_config = r_config me_global, f_factory = r_response_factory me_global\<rparr>"
    and "w = \<lparr>sh_store = \<lparr>sw_state = (\<lambda>_. None), sw_tick = 0, sw_calls = 0\<rparr>, sh_served = [], sh_rejected = [], sh_rest = ()\<rparr>"
  shows "\<exists>out w'. poll_future (as_future list_header_api (hosted_emit (\<lambda>_ w. w)) me_inner this) w = (Ready out, w') \<and>
    sw_tick (sh_store w') = 1 \<and> length (sh_served w') = 1"
proof -
  let ?k = "make_key ''global-limit'' (ip_to_string localhost)"
  obtain u s' where i: "redis_increment True map_redis_api axum_redis_store (\<lambda>_. None) (sample_redis_clock 0) ?k (from_secs 60)
      = (Inr u, s')" "unat (used u) = 1" using sample_redis_first [unfolded sample_window] by blast
  have config: "cfg_window (r_config me_global) = from_secs 60" "scoped_key (r_config me_global) k = make_key ''global-limit'' k" for k
    by (simp_all add: me_global_def scoped_key_def example_config_def)
  have "used u \<noteq> 0" using i(2) by auto
  then have "\<exists>p. decide (r_config me_global) 10 (Inr u) = Admit p" using i(2) by (simp add: decide_def Let_def)
  then obtain p where admit: "decide (r_config me_global) 10 (Inr u) = Admit p" by blast
  let ?m = "metadata_of (r_config me_global) p"
  obtain fut i' out v' where c: "svc_call me_inner (r_inner me_global) (append_context login_request ?m)
      (w\<lparr>sh_store := \<lparr>sw_state = s', sw_tick = 1, sw_calls = 1\<rparr>\<rparr>) = (fut, i', v')"
    "poll_future fut v' = (Ready out, v')" "sw_tick (sh_store v') = 1" "length (sh_served v') = 1"
    using me_inner_call [of ?m "w\<lparr>sh_store := \<lparr>sw_state = s', sw_tick = 1, sw_calls = 1\<rparr>\<rparr>"]
    by (auto simp: me_global_def assms(2))
  show ?thesis
    using c i
    by (subst poll_future_as_future)
      (auto simp: poll_step_def ready_bang_def assms(1) after_limit_def config shared_store_def minute_store
        atomic_store_def charge_def poll_through poll_future_as_future after_store_decide admit assms(2))
qed

theorem axum_redis_me_limit_witness:
  "\<exists>g u x. axum_redis_global list_header_api () login_ip_api me_store = Inr g \<and>
     axum_redis_user list_header_api () list_request_api me_store = Inr u \<and>
     executes (rate_limit_service list_header_api (hosted_emit (\<lambda>_ w. w)) me_inner) (axum_redis_me g u 0)
       \<lparr>sh_store = \<lparr>sw_state = (\<lambda>_. None), sw_tick = 0, sw_calls = 0\<rparr>, sh_served = [], sh_rejected = [], sh_rest = ()\<rparr> x \<and>
     length (sh_served (ex_world x)) = 1 \<and> length (ex_done x) = 1 \<and>
     length (filter (\<lambda>q. Option.bind (map_of (parts q) ''connect-info'') read_ip = Some localhost)
       (sh_served (ex_world x))) \<le> 10"
proof -
  let ?sw = "\<lparr>sw_state = (\<lambda>_. None), sw_tick = 0, sw_calls = 0\<rparr> :: map_redis store_world"
  let ?w = "\<lparr>sh_store = ?sw, sh_served = [], sh_rejected = [], sh_rest = ()\<rparr> :: (map_redis, (string \<times> string) list, unit, unit) shared_world"
  let ?svc = "rate_limit_service list_header_api (hosted_emit (\<lambda>_ w. w)) me_inner"
  obtain g :: "(_, _, _, (_, _, unit, _, _) factory, _) RateLimitLayer"
    where g: "axum_redis_global list_header_api () login_ip_api me_store = Inr g" by (simp add: example_defs)
  obtain u :: "(_, _, _, (_, _, unit, _, _) factory, _) RateLimitLayer"
    where u: "axum_redis_user list_header_api () list_request_api me_store = Inr u"
    by (simp add: axum_redis_user_layer)
  have rl: "axum_redis_me g u 0 = me_global"
    using g u by (auto simp: axum_redis_me_def me_global_def user_limiter_def example_defs layer_def)
  let ?fut = "as_future list_header_api (hosted_emit (\<lambda>_ w. w)) me_inner
     \<lparr>f_state = State_Limit (ready (Inr 10)) login_request (ip_to_string localhost),
      f_inner = r_inner me_global, f_store = me_store, f_config = r_config me_global, f_factory = r_response_factory me_global\<rparr>"
  have ready: "svc_poll_ready ?svc me_global ?w = (Ready (Inr ()), me_global, ?w)"
    by (simp add: rate_limit_service_def poll_ready_def tallied_def hosted_service_def slow_service_def me_global_def
        user_limiter_def axum_redis_user_layer layer_def)
  obtain s where arrive: "svc_call ?svc me_global login_request ?w = (?fut, s, ?w)"
    by (simp add: rate_limit_service_def call_def check_skip skips_def tallied_def hosted_service_def slow_service_def
        me_global_def example_config_def IpKeyExtractor_def pure_extractor_def ip_extract_def ok_or_def login_ip_api_def
        login_request_def request_head_def into_parts_def from_parts_def read_ip_to_string fixed_limit_def
        response_future_new_def Let_def)
  obtain out w' where poll: "poll_future ?fut ?w = (Ready out, w')" "sw_tick (sh_store w') = 1" "length (sh_served w') = 1"
    using me_poll [OF refl refl] by blast
  let ?x = "\<lparr>ex_service = s, ex_world = w', ex_running = [], ex_done = [(login_request, out)], ex_dropped = []\<rparr>"
  have "executes ?svc me_global ?w
      \<lparr>ex_service = s, ex_world = ?w, ex_running = [(login_request, ?fut)], ex_done = [], ex_dropped = []\<rparr>"
    using executes_step [OF executes_start [of ?svc me_global ?w] arrives [OF _ arrive]] ready
    by (simp add: executor_start_def)
  then have x: "executes ?svc me_global ?w ?x"
    using executes_step [OF _ polled_ready [where before = "[]" and q = login_request and fut = ?fut and after = "[]"]] poll(1)
    by fastforce
  have runs: "clock_runs (redis_valid True) t_first t_first (from_secs 60) sample_redis_clock"
    using sample_redis_clock_runs by (simp only: sample_window)
  have absent: "redis_live map_redis_api axum_redis_store (sw_state ?sw) (t_first (sample_redis_clock (sw_tick ?sw)))
      (make_key ''global-limit'' (ip_to_string localhost)) = None"
    by (simp add: redis_live_def map_redis_api_def map_redis_view_def)
  have window: "one_window (\<lambda>ts. redis_opens (t_first ts) (from_secs 60)) t_first sample_redis_clock (sw_tick ?sw)
      (sw_tick (sh_store (ex_world ?x)))"
    by (auto simp: one_window_def poll(2) sample_redis_clock_def redis_at_def redis_opens_def checked_millis_secs)
  have inv: "redis_invar True map_redis_api axum_redis_store (sw_state ?sw)" using empty_redis by simp
  have "length (filter (\<lambda>q. Option.bind (map_of (parts q) ''connect-info'') read_ip = Some localhost)
      (sh_served (ex_world ?x))) \<le> 10"
    by (rule axum_redis_me_limit [OF g u _ map_redis_api_ok inv runs absent x [folded rl] window])
      (simp_all add: login_ip_api_def poll(2) horizon_def)
  then show ?thesis
    using g u x poll(3) rl by (intro exI [of _ g] exI [of _ u] exI [of _ ?x]) simp
qed

section \<open>The limiter of trusted_proxy_client_ip before any application\<close>

text \<open>
  Whom a request counts for: the socket address of its peer, unless that is the trusted proxy and
  a forwarding header names another address.
\<close>

definition requests_of :: "'p client_ip_api \<Rightarrow> ('p \<Rightarrow> IpAddr option) \<Rightarrow> IpAddr \<Rightarrow> 'p \<Rightarrow> bool" where
  "requests_of ipapi address ip p \<longleftrightarrow>
     address p = Some ip \<and> ip \<noteq> trusted_proxy \<or>
     address p = Some trusted_proxy \<and> extract_client_ip ipapi p = Inr (Some ip)"

definition proxied_key :: "'p client_ip_api \<Rightarrow> 'p \<Rightarrow> string" where
  "proxied_key ipapi p =
     (case trusted_proxy_extract ipapi (\<lambda>peer. peer = trusted_proxy) \<lparr>parts = p, extension = None, body = ()\<rparr> of
        Inl e \<Rightarrow> '''' | Inr ip \<Rightarrow> ip_to_string ip)"

lemma trusted_proxy_extract_cong:
  assumes "\<And>h. extract_socket_ip ipapi h = address (parts h)" "parts h = parts h'"
  shows "trusted_proxy_extract ipapi trusted h = trusted_proxy_extract ipapi trusted h'"
  unfolding trusted_proxy_extract_def assms by (rule refl)

lemma proxied_key_requests_of:
  assumes "\<And>h. extract_socket_ip ipapi h = address (parts h)" "requests_of ipapi address ip p"
  shows "proxied_key ipapi p = ip_to_string ip"
  using assms(2) by (auto simp: requests_of_def proxied_key_def trusted_proxy_extract_def ok_or_def assms(1))

lemma trusted_proxy_limiter_layer:
  "trusted_proxy_limiter hdr b ipapi st = Inr
     \<lparr>l_key_extractor = TrustedProxyClientIpKeyExtractor ipapi (\<lambda>peer. peer = trusted_proxy),
      l_store = st, l_limit_provider = fixed_limit 100, l_response_factory = default_build hdr b,
      l_config = example_config ''client-ip-limit''\<rparr>"
  by (simp add: example_defs)

lemma trusted_proxy_application:
  fixes cache :: "'c cache_api" and svc :: "('x, 'i, 'p, 'b, 'h, 'r, 'e) inner_service"
  assumes "trusted_proxy_limiter hdr b ipapi (shared_store (memory_store cache clock)) = Inr g"
    and "\<And>h. extract_socket_ip ipapi h = address (parts h)"
  shows "limited_application (memory_increment cache) clock (\<lambda>c t. At_Call 0) {from_secs 60}
    (proxied_key ipapi) (\<lambda>_. 100) (\<lambda>_. False) (\<lambda>_. True) (hosted_emit emit) (recorded_service svc) (layer g inner)"
proof -
  have g: "layer g inner =
      \<lparr>r_inner = inner, r_key_extractor = TrustedProxyClientIpKeyExtractor ipapi (\<lambda>peer. peer = trusted_proxy),
       r_store = shared_store (memory_store cache clock), r_limit_provider = fixed_limit 100,
       r_response_factory = default_build hdr b, r_config = example_config ''client-ip-limit''\<rparr>"
    using assms(1) by (auto simp: trusted_proxy_limiter_layer layer_def)
  have key: "proxied_key ipapi (parts h) = ip_to_string a"
    if "trusted_proxy_extract ipapi (\<lambda>peer. peer = trusted_proxy) h = Inr a" for h :: "('p, unit) http_request" and a
    using that trusted_proxy_extract_cong [OF assms(2), of "\<lparr>parts = parts h, extension = None, body = ()\<rparr>" h]
    by (simp add: proxied_key_def)
  show ?thesis
    by unfold_locales (auto simp: g key TrustedProxyClientIpKeyExtractor_def pure_extractor_def fixed_limit_def
        example_config_def skips_def memory_store_atomic recorded_service_defs hosted_emit_def default_build_def
        advances_served_rest intro!: calm_ready calm_on_rest split: prod.splits)
qed

text \<open>
  C40.  The limiter of \<open>trusted_proxy_client_ip\<close> before any application: within a minute at most a
  hundred requests of one client reach the application, however many are in flight and whichever
  are dropped.  A peer that is not the trusted proxy is one client whatever forwarding headers it
  sends, so it cannot escape its limit by naming other addresses; a request that comes
  through the proxy counts for the address the proxy's headers name.
\<close>

theorem proxied_clients_limited:
  fixes cache :: "'c cache_api" and svc :: "('x, 'i, 'p, 'b, 'h, 'r, 'e) inner_service"
  assumes "trusted_proxy_limiter hdr b ipapi (shared_store (memory_store cache clock)) = Inr g"
    and "\<And>h. extract_socket_ip ipapi h = address (parts h)"
    and "cache_api_ok cache" "memory_invar cache (sw_state sw)"
    and "clock_runs (\<lambda>ts win. valid_times ts) memory_start memory_fin (from_secs 60) clock"
    and "memory_live cache (sw_state sw) (memory_start (clock (sw_tick sw)))
      (make_key ''client-ip-limit'' (ip_to_string ip)) = None"
    and "executes (rate_limit_service hdr (hosted_emit emit) (recorded_service svc)) (layer g inner)
      \<lparr>sh_store = sw, sh_served = [], sh_rejected = [], sh_rest = x0\<rparr> x"
    and "one_window (\<lambda>ts. memory_opens (memory_start ts) (from_secs 60)) memory_fin clock
      (sw_tick sw) (sw_tick (sh_store (ex_world x)))"
    and "sw_tick (sh_store (ex_world x)) - sw_tick sw \<le> 2 ^ 64 - 1"
  shows "length (filter (\<lambda>q. requests_of ipapi address ip (parts q)) (sh_served (ex_world x))) \<le> 100"
proof -
  let ?K = "make_key ''client-ip-limit'' (ip_to_string ip)" and ?config = "r_config (layer g inner)"
  have config: "?config = example_config ''client-ip-limit''"
    using assms(1) by (auto simp: trusted_proxy_limiter_layer layer_def)
  then have key: "scoped_key ?config k = make_key ''client-ip-limit'' k" for k
    by (simp add: scoped_key_def example_config_def)
  note app = trusted_proxy_application [OF assms(1,2), where emit = emit and svc = svc and inner = inner]
  have "length (filter (\<lambda>q. \<not> False \<and> scoped_key ?config (proxied_key ipapi (parts q)) = ?K)
      (sh_served (ex_world x))) \<le> 100"
    using application_within_limit [OF app memory_fixed_window [OF assms(3)] assms(7), of ?K 100] assms(4-6,8,9) by simp
  moreover have "length (filter (\<lambda>q. requests_of ipapi address ip (parts q)) (sh_served (ex_world x))) \<le>
      length (filter (\<lambda>q. \<not> False \<and> scoped_key ?config (proxied_key ipapi (parts q)) = ?K) (sh_served (ex_world x)))"
    by (rule length_filter_mono) (simp add: key proxied_key_requests_of [OF assms(2)])
  ultimately show ?thesis by (rule order.trans [rotated])
qed

text \<open>A peer that names another address in a header of its own, which only the proxy's would count.\<close>

definition forwarding_ip_api :: "(string \<times> string) list client_ip_api" where
  "forwarding_ip_api = login_ip_api
     \<lparr>extract_client_ip := (\<lambda>p. Inr (Option.bind (map_of p ''x-forwarded-for'') read_ip))\<rparr>"

definition spoofed_request :: "((string \<times> string) list, unit) http_request" where
  "spoofed_request = login_request\<lparr>parts := (''x-forwarded-for'', ip_to_string trusted_proxy) # parts login_request\<rparr>"

lemma localhost_untrusted: "localhost \<noteq> trusted_proxy"
  by (simp add: localhost_def trusted_proxy_def)

abbreviation spoofed_store :: "(map_cache, (string \<times> string) list, unit, unit) shared_world store" where
  "spoofed_store \<equiv> shared_store (memory_store map_cache_api sample_clock)"

lemma spoofed_poll:
  assumes "this = \<lparr>f_state = State_Limit (ready (Inr 100)) spoofed_request (ip_to_string localhost),
      f_inner = 0, f_store = spoofed_store, f_config = example_config ''client-ip-limit'', f_factory = fa\<rparr>"
    and "w = \<lparr>sh_store = \<lparr>sw_state = memory_store_new map_cache_api, sw_tick = 0, sw_calls = 0\<rparr>,
      sh_served = [], sh_rejected = [], sh_rest = ()\<rparr>"
  shows "\<exists>fut' w' q. poll_future (as_future hdr (hosted_emit emit) (recorded_service slow_service) this) w = (Pending fut', w') \<and>
    sw_tick (sh_store w') = 1 \<and> sh_served w' = [q] \<and> parts q = parts spoofed_request"
proof -
  let ?c = "example_config ''client-ip-limit'' :: (string \<times> string) list RateLimitConfig"
  let ?k = "make_key ''client-ip-limit'' (ip_to_string localhost)"
  have v: "valid_times (sample_clock 0)" by (simp add: sample_clock_def valid_times_at)
  have absent: "memory_live map_cache_api (memory_store_new map_cache_api) (memory_start (sample_clock 0)) ?k = None"
    by (rule memory_new_absent [OF map_cache_api_ok])
  have opens: "memory_opens (memory_start (sample_clock 0)) (from_secs 60) = Some 60000000000"
    by (simp add: sample_clock_def times_at_def memory_opens_def memory_start_def checked_add_def instant_max_def Let_def)
  obtain u s' where i: "memory_increment map_cache_api (memory_store_new map_cache_api) (sample_clock 0) ?k (from_secs 60)
      = (Inr u, s')" "unat (used u) = 1" using mc.increment_fresh [OF mc.invar_new v absent opens] by blast
  have config: "cfg_window ?c = from_secs 60" "scoped_key ?c k = make_key ''client-ip-limit'' k" for k
    by (simp_all add: scoped_key_def example_config_def)
  have "used u \<noteq> 0" using i(2) by auto
  then have "\<exists>p. decide ?c 100 (Inr u) = Admit p" using i(2) by (simp add: decide_def Let_def)
  then obtain p where admit: "decide ?c 100 (Inr u) = Admit p" by blast
  have slow: "poll_future (delayed 2 r) x = (Pending (delayed 1 r), x)" for r and x :: unit
    by (simp add: numeral_2_eq_2)
  show ?thesis
    using i
    by (subst poll_future_as_future)
      (auto simp: poll_step_def ready_bang_def assms(1) after_limit_def config shared_store_def memory_store_atomic
        atomic_store_def charge_def poll_through poll_future_as_future after_store_decide admit assms(2)
        recorded_service_defs slow_service_def slow append_context_frame)
qed

theorem proxied_clients_limited_witness:
  "\<exists>g x. trusted_proxy_limiter list_header_api () forwarding_ip_api spoofed_store = Inr g \<and>
     executes (rate_limit_service list_header_api (hosted_emit (\<lambda>_ w. w)) (recorded_service slow_service)) (layer g 0)
       \<lparr>sh_store = \<lparr>sw_state = memory_store_new map_cache_api, sw_tick = 0, sw_calls = 0\<rparr>,
        sh_served = [], sh_rejected = [], sh_rest = ()\<rparr> x \<and>
     length (filter (\<lambda>q. requests_of forwarding_ip_api (\<lambda>p. Option.bind (map_of p ''connect-info'') read_ip) localhost
       (parts q)) (sh_served (ex_world x))) \<in> {1..100}"
proof -
  let ?sw = "\<lparr>sw_state = memory_store_new map_cache_api, sw_tick = 0, sw_calls = 0\<rparr> :: map_cache store_world"
  let ?w = "\<lparr>sh_store = ?sw, sh_served = [], sh_rejected = [], sh_rest = ()\<rparr> :: (map_cache, (string \<times> string) list, unit, unit) shared_world"
  let ?inner = "recorded_service slow_service ::
    (_, nat, (string \<times> string) list, unit, (string \<times> string) list, unit, string) inner_service"
  let ?svc = "rate_limit_service list_header_api (hosted_emit (\<lambda>_ w. w)) ?inner"
  let ?address = "\<lambda>p. Option.bind (map_of p ''connect-info'') read_ip"
  obtain g :: "(_, _, _, (_, _, unit, _, _) factory, _) RateLimitLayer"
    where g: "trusted_proxy_limiter list_header_api () forwarding_ip_api spoofed_store = Inr g"
    by (simp add: trusted_proxy_limiter_layer)
  have rl: "layer g 0 =
      \<lparr>r_inner = 0, r_key_extractor = TrustedProxyClientIpKeyExtractor forwarding_ip_api (\<lambda>peer. peer = trusted_proxy),
       r_store = spoofed_store, r_limit_provider = fixed_limit 100,
       r_response_factory = default_build list_header_api (), r_config = example_config ''client-ip-limit''\<rparr>"
    using g by (auto simp: trusted_proxy_limiter_layer layer_def)
  let ?fut = "as_future list_header_api (hosted_emit (\<lambda>_ w. w)) ?inner
     \<lparr>f_state = State_Limit (ready (Inr 100)) spoofed_request (ip_to_string localhost),
      f_inner = 0, f_store = spoofed_store, f_config = example_config ''client-ip-limit'',
      f_factory = default_build list_header_api ()\<rparr>"
  have found: "trusted_proxy_extract forwarding_ip_api (\<lambda>peer. peer = trusted_proxy) (request_head spoofed_request) = Inr localhost"
    by (simp add: trusted_proxy_extract_def forwarding_ip_api_def login_ip_api_def spoofed_request_def login_request_def
        request_head_def into_parts_def from_parts_def ok_or_def read_ip_to_string localhost_untrusted)
  have ready: "svc_poll_ready ?svc (layer g 0) ?w = (Ready (Inr ()), layer g 0, ?w)"
    by (simp add: rate_limit_service_def poll_ready_def recorded_service_defs slow_service_def rl)
  obtain s where arrive: "svc_call ?svc (layer g 0) spoofed_request ?w = (?fut, s, ?w)"
    by (simp add: rate_limit_service_def call_def check_skip skips_def recorded_service_defs slow_service_def rl
        example_config_def TrustedProxyClientIpKeyExtractor_def pure_extractor_def found fixed_limit_def
        response_future_new_def Let_def)
  obtain fut' w' q where poll: "poll_future ?fut ?w = (Pending fut', w')" "sw_tick (sh_store w') = 1"
    "sh_served w' = [q]" "parts q = parts spoofed_request"
    using spoofed_poll [OF refl refl, where emit = "\<lambda>_ w. w"] by blast
  let ?x = "\<lparr>ex_service = s, ex_world = w', ex_running = [(spoofed_request, fut')], ex_done = [], ex_dropped = []\<rparr>"
  have "executes ?svc (layer g 0) ?w
      \<lparr>ex_service = s, ex_world = ?w, ex_running = [(spoofed_request, ?fut)], ex_done = [], ex_dropped = []\<rparr>"
    using executes_step [OF executes_start [of ?svc "layer g 0" ?w] arrives [OF _ arrive]] ready
    by (simp add: executor_start_def)
  then have x: "executes ?svc (layer g 0) ?w ?x"
    using executes_step [OF _ polled_pending [where before = "[]" and q = spoofed_request and fut = ?fut and after = "[]"]] poll(1)
    by fastforce
  have runs: "clock_runs (\<lambda>ts win. valid_times ts) memory_start memory_fin (from_secs 60) sample_clock"
    using sample_clock_runs by (simp only: sample_window)
  have absent: "memory_live map_cache_api (sw_state ?sw) (memory_start (sample_clock (sw_tick ?sw)))
      (make_key ''client-ip-limit'' (ip_to_string localhost)) = None"
    by (simp add: memory_new_absent [OF map_cache_api_ok])
  have window: "one_window (\<lambda>ts. memory_opens (memory_start ts) (from_secs 60)) memory_fin sample_clock (sw_tick ?sw)
      (sw_tick (sh_store (ex_world ?x)))"
    by (auto simp: one_window_def poll(2) sample_clock_def times_at_def memory_opens_def memory_start_def
        memory_fin_def checked_add_def instant_max_def Let_def)
  have "length (filter (\<lambda>q. requests_of forwarding_ip_api ?address localhost (parts q)) (sh_served (ex_world ?x))) \<le> 100"
    by (rule proxied_clients_limited [OF g _ map_cache_api_ok _ runs absent x window])
      (simp_all add: forwarding_ip_api_def login_ip_api_def poll(2) mc.invar_new)
  moreover have "requests_of forwarding_ip_api ?address localhost (parts q)"
    by (simp add: poll(4) requests_of_def spoofed_request_def login_request_def read_ip_to_string localhost_untrusted)
  ultimately show ?thesis
    using g x poll(3) by (intro exI [of _ g] exI [of _ ?x]) simp
qed

end
