(* ===== verification/RL_Unit_Tests.thy ===== *)
theory RL_Unit_Tests
  imports RL_Examples
begin

text \<open>
  The unit tests of \<open>src/src/store/memory.rs\<close>, \<open>src/src/store/redis.rs\<close> and
  \<open>src/examples/axum_redis.rs\<close> as definitions: a test is true when every assertion in it holds
  and no \<open>unwrap\<close> panics.  The tests of the in-process store read the clock, so they are
  functions of the readings, and the theorems say for which readings they pass.
\<close>

section \<open>The in-process store\<close>

text \<open>Calls of \<open>increment_usage(..).unwrap()\<close> one after the other, on clones that share a cache.\<close>

fun unwrap_usages :: "'c cache_api \<Rightarrow> 'c \<Rightarrow> op_times charge list \<Rightarrow> (Usage list \<times> 'c) option" where
  "unwrap_usages cache c [] = Some ([], c)"
| "unwrap_usages cache c ((ts, key, win) # cs) =
     (case increment_usage cache c ts key win of
        (Inl e, c') \<Rightarrow> None
      | (Inr u, c') \<Rightarrow> map_option (map_prod ((#) u) id) (unwrap_usages cache c' cs))"

definition assert_used :: "'c cache_api \<Rightarrow> 'c \<Rightarrow> op_times charge list \<Rightarrow> u64 list \<Rightarrow> bool" where
  "assert_used cache c cs expected =
     (case unwrap_usages cache c cs of None \<Rightarrow> False | Some (us, c') \<Rightarrow> map used us = expected)"

definition test_increment_usage :: "'c cache_api \<Rightarrow> op_times \<Rightarrow> op_times \<Rightarrow> bool" where
  "test_increment_usage cache t1 t2 =
     assert_used cache (memory_store_new cache)
       [(t1, ''user1'', from_secs 60), (t2, ''user1'', from_secs 60)] [1, 2]"

definition test_fixed_window_reset :: "'c cache_api \<Rightarrow> op_times \<Rightarrow> op_times \<Rightarrow> op_times \<Rightarrow> bool" where
  "test_fixed_window_reset cache t1 t2 t3 =
     assert_used cache (memory_store_new cache)
       [(t1, ''user1'', from_millis 20), (t2, ''user1'', from_millis 20), (t3, ''user1'', from_millis 20)]
       [1, 2, 1]"

text \<open>The store and its clone hold the same cache.\<close>

definition test_clone_share_cache :: "'c cache_api \<Rightarrow> op_times \<Rightarrow> op_times \<Rightarrow> bool" where
  "test_clone_share_cache cache t1 t2 =
     (let store = memory_store_new cache
      in case unwrap_usages cache store [(t1, ''user1'', from_secs 60)] of
           None \<Rightarrow> False
         | Some (us, cloned) \<Rightarrow>
             map used us = [1] \<and> assert_used cache cloned [(t2, ''user1'', from_secs 60)] [2])"

text \<open>The threads' increments take effect in some order; the last call follows their \<open>join\<close>.\<close>

definition test_concurrent_increment :: "'c cache_api \<Rightarrow> op_times list \<Rightarrow> op_times \<Rightarrow> bool" where
  "test_concurrent_increment cache threads t =
     (case unwrap_usages cache (memory_store_new cache) (map (\<lambda>ts. (ts, ''user1'', from_secs 60)) threads) of
        None \<Rightarrow> False
      | Some (us, c) \<Rightarrow> assert_used cache c [(t, ''user1'', from_secs 60)] [11])"

text \<open>
  The blocker's \<open>and_upsert_with\<close> looks its entry up at \<open>locked\<close>, holds the key until the
  release and stores the entry again at \<open>released\<close>; the other increment waits for the key.
\<close>

definition test_contended_window ::
  "'c cache_api \<Rightarrow> op_times \<Rightarrow> Instant \<Rightarrow> Instant \<Rightarrow> op_times \<Rightarrow> op_times \<Rightarrow> bool" where
  "test_contended_window cache t1 locked released t2 t3 =
     (let key = ''contended-expiring''; initial_window = from_millis 300; new_window = from_millis 500
      in case unwrap_usages cache (memory_store_new cache) [(t1, key, initial_window)] of
           None \<Rightarrow> False
         | Some (us, c1) \<Rightarrow> map used us = [1] \<and>
             (case ca_get cache c1 locked key of
                None \<Rightarrow> False
              | Some entry \<Rightarrow>
                  (case unwrap_usages cache (snd (ca_put cache c1 released key entry)) [(t2, key, new_window)] of
                     None \<Rightarrow> False
                   | Some (us, c3) \<Rightarrow>
                       map used us = [1] \<and> list_all (\<lambda>u. from_millis 400 < reset_after u) us \<and>
                       assert_used cache c3 [(t3, key, new_window)] [2])))"

context expiring_cache
begin

lemma usage_of_increment: "memory_increment cache c ts k win = (Inr u, c') \<Longrightarrow> increment_usage cache c ts k win = (Inr u, c')"
  by (auto simp: memory_increment_def split: prod.splits sum.splits)

lemma usage_fresh:
  assumes "memory_invar cache c" "valid_times ts" "memory_live cache c (memory_start ts) k = None"
    and "memory_opens (memory_start ts) win = Some e"
  shows "\<exists>u c'. increment_usage cache c ts k win = (Inr u, c') \<and> used u = 1 \<and>
    reset_after u = memory_left ts e \<and> memory_invar cache c' \<and>
    (\<forall>t \<ge> memory_fin ts. memory_live cache c' t k = (if t < e then Some (1, e) else None))"
proof -
  obtain u c' where i: "memory_increment cache c ts k win = (Inr u, c')" "unat (used u) = 1"
    "reset_after u = memory_left ts e" "memory_invar cache c'"
    "\<forall>t \<ge> memory_fin ts. memory_live cache c' t k = (if t < e then Some (1, e) else None)"
    using increment_fresh [OF assms] by blast
  have "used u = 1" using i(2) by (simp add: word_unat_eq_iff)
  with usage_of_increment [OF i(1)] i(3-5) show ?thesis by blast
qed

lemma usage_open:
  assumes "memory_invar cache c" "valid_times ts" "memory_live cache c (memory_start ts) k = Some (n, e)"
    and "Suc n < 2 ^ 64"
  shows "\<exists>u c'. increment_usage cache c ts k win = (Inr u, c') \<and> used u = word_of_nat (Suc n) \<and>
    reset_after u = memory_left ts e \<and> memory_invar cache c' \<and>
    (\<forall>t \<ge> memory_fin ts. memory_live cache c' t k = (if t < e then Some (Suc n, e) else None))"
proof -
  have m: "min (Suc n) (2 ^ 64 - 1) = Suc n" using assms(4) by simp
  obtain u c' where i: "memory_increment cache c ts k win = (Inr u, c')" "unat (used u) = Suc n"
    "reset_after u = memory_left ts e" "memory_invar cache c'"
    "\<forall>t \<ge> memory_fin ts. memory_live cache c' t k = (if t < e then Some (Suc n, e) else None)"
    using increment_open [OF assms(1-3), of win, unfolded m] by blast
  have "used u = word_of_nat (Suc n)" using arg_cong [OF i(2), of "word_of_nat :: nat \<Rightarrow> u64"] by simp
  with usage_of_increment [OF i(1)] i(3-5) show ?thesis by blast
qed

lemma new_absent: "memory_live cache (memory_store_new cache) t k = None"
  by (simp add: memory_live_def memory_store_new_def get_new)

end

text \<open>Two increments of one key by a fresh store are counted one and two exactly when the second is in the window.\<close>

lemma two_increments:
  assumes "cache_api_ok cache" "valid_times t1" "valid_times t2" "memory_fin t1 \<le> memory_start t2"
    and "memory_opens (memory_start t1) win = Some e"
  shows "if memory_start t2 < e
     then (\<exists>us c. unwrap_usages cache (memory_store_new cache) [(t1, k, win), (t2, k, win)] = Some (us, c) \<and>
       map used us = [1, 2] \<and> memory_invar cache c \<and>
       (\<forall>t \<ge> memory_fin t2. memory_live cache c t k = (if t < e then Some (2, e) else None)))
     else \<not> assert_used cache (memory_store_new cache) ((t1, k, win) # (t2, k, win) # cs) (1 # 2 # ns)"
proof -
  have ex: "expiring_cache cache" using assms(1) by (rule expiring_cache.intro)
  obtain u1 c1 where 1: "increment_usage cache (memory_store_new cache) t1 k win = (Inr u1, c1)" "used u1 = 1"
    "memory_invar cache c1"
    "\<forall>t \<ge> memory_fin t1. memory_live cache c1 t k = (if t < e then Some (1, e) else None)"
    using expiring_cache.usage_fresh [OF ex expiring_cache.invar_new [OF ex] assms(2)
        expiring_cache.new_absent [OF ex] assms(5)] by blast
  show ?thesis
  proof (cases "memory_start t2 < e")
    case True
    have Suc_1: "Suc 1 = (2 :: nat)" by simp
    have "memory_live cache c1 (memory_start t2) k = Some (1, e)" using 1(4) assms(4) True by simp
    from expiring_cache.usage_open [OF ex 1(3) assms(3) this, of win, unfolded Suc_1] obtain u2 c2
      where 2: "increment_usage cache c1 t2 k win = (Inr u2, c2)" "used u2 = 2" "memory_invar cache c2"
        "\<forall>t \<ge> memory_fin t2. memory_live cache c2 t k = (if t < e then Some (2, e) else None)"
      by auto
    then show ?thesis using True 1(1,2) by simp
  next
    case False
    have late: "memory_live cache c1 (memory_start t2) k = None" using 1(4) assms(4) False by simp
    have "used u2 \<noteq> 2" if i: "increment_usage cache c1 t2 k win = (Inr u2, c2)" for u2 c2
    proof (cases "memory_opens (memory_start t2) win")
      case (Some e2)
      from expiring_cache.usage_fresh [OF ex 1(3) assms(3) late Some] i show ?thesis by auto
    next
      case None
      then have "compute_entry (now_in_closure t2) win (ca_get cache c1 (looked_up_at t2) k) = Inl InstantOutOfRange"
        using compute_entry_fresh [OF expiring_cache.looked_up_absent [OF ex 1(3) assms(3) late]]
        by (simp add: memory_opens_def memory_start_def)
      then show ?thesis using i by (simp add: increment_usage_def)
    qed
    then show ?thesis
      using False 1(1) by (auto simp: assert_used_def split: prod.splits sum.splits option.splits)
  qed
qed

lemma test_increment_usage_iff:
  assumes "cache_api_ok cache" "valid_times t1" "valid_times t2" "memory_fin t1 \<le> memory_start t2"
    and "memory_opens (memory_start t1) (from_secs 60) = Some e"
  shows "test_increment_usage cache t1 t2 \<longleftrightarrow> memory_start t2 < e"
  using two_increments [OF assms, of "''user1''" "[]" "[]"]
  by (auto simp: test_increment_usage_def assert_used_def split: if_splits)

lemma test_clone_share_cache_iff:
  "test_clone_share_cache cache t1 t2 \<longleftrightarrow> test_increment_usage cache t1 t2"
  by (auto simp: test_clone_share_cache_def test_increment_usage_def assert_used_def Let_def
      split: prod.splits sum.splits option.splits)

lemma test_fixed_window_reset_iff:
  assumes "cache_api_ok cache" "valid_times t1" "valid_times t2" "valid_times t3"
    and "memory_fin t1 \<le> memory_start t2" "memory_fin t2 + 30000000 \<le> memory_start t3"
    and "memory_opens (memory_start t1) (from_millis 20) = Some e"
    and "memory_opens (memory_start t3) (from_millis 20) = Some e3"
  shows "test_fixed_window_reset cache t1 t2 t3 \<longleftrightarrow> memory_start t2 < e"
proof (cases "memory_start t2 < e")
  case True
  have ex: "expiring_cache cache" using assms(1) by (rule expiring_cache.intro)
  obtain us c where us: "unwrap_usages cache (memory_store_new cache)
      [(t1, ''user1'', from_millis 20), (t2, ''user1'', from_millis 20)] = Some (us, c)"
    "map used us = [1, 2]" "memory_invar cache c"
    "\<forall>t \<ge> memory_fin t2. memory_live cache c t ''user1'' = (if t < e then Some (2, e) else None)"
    using two_increments [OF assms(1-3,5,7), of "''user1''"] True by auto
  have e: "e = memory_start t1 + 20000000"
    using assms(7) by (auto simp: memory_opens_def checked_add_def Let_def split: if_splits)
  have "memory_start t1 \<le> memory_fin t1" "memory_start t2 \<le> memory_fin t2"
    using assms(2,3) by (auto simp: valid_times_def memory_start_def memory_fin_def less_eq_Instant_def)
  then have "memory_live cache c (memory_start t3) ''user1'' = None"
    using us(4) assms(5,6) e by simp
  from expiring_cache.usage_fresh [OF ex us(3) assms(4) this assms(8)]
  obtain u3 c3 where "increment_usage cache c t3 ''user1'' (from_millis 20) = (Inr u3, c3)" "used u3 = 1" by blast
  then show ?thesis
    using True us(1,2)
    by (auto simp: test_fixed_window_reset_def assert_used_def split: prod.splits sum.splits option.splits)
next
  case False
  then show ?thesis
    using two_increments [OF assms(1-3,5,7), of "''user1''" "[(t3, ''user1'', from_millis 20)]" "[1]"]
    by (simp add: test_fixed_window_reset_def)
qed

text \<open>Increments of one key within one window, in the order they take effect, are all counted.\<close>

lemma unwrap_run_charges:
  assumes "run_charges (memory_increment cache) c cs = (map Inr us, c')"
  shows "unwrap_usages cache c cs = Some (us, c')"
  using assms
proof (induction cs arbitrary: c us)
  case (Cons x cs)
  obtain ts k win where x: "x = (ts, k, win)" by (cases x)
  obtain r c1 where i: "memory_increment cache c ts k win = (r, c1)" by fastforce
  obtain rs c2 where run: "run_charges (memory_increment cache) c1 cs = (rs, c2)" by fastforce
  obtain u us1 where us: "us = u # us1" "r = Inr u" "rs = map Inr us1" "c2 = c'"
    using Cons.prems x i run by (cases us) auto
  have "increment_usage cache c ts k win = (Inr u, c1)"
    using i us(2) by (auto simp: memory_increment_def split: prod.splits sum.splits)
  then show ?case using Cons.IH [of c1 us1] run us x by simp
qed simp

lemma results_of_one_key: "\<forall>(ts, k', win) \<in> set cs. k' = k \<Longrightarrow> length rs = length cs \<Longrightarrow> results_of k cs rs = rs"
  by (induction k cs rs rule: results_of.induct) auto

lemma one_key_counts:
  assumes "cache_api_ok cache" "cs = map (\<lambda>ts. (ts, k, win)) tss" "in_order memory_start memory_fin t cs"
    and "\<forall>ts \<in> set tss. valid_times ts \<and> (\<exists>e. memory_opens (memory_start ts) win = Some e \<and>
      (\<forall>ts' \<in> set tss. memory_fin ts' < e))"
    and "length tss < 2 ^ 64"
  shows "\<exists>us c. unwrap_usages cache (memory_store_new cache) cs = Some (us, c) \<and>
    map (\<lambda>u. unat (used u)) us = [1..<Suc (length tss)]"
proof -
  have ex: "expiring_cache cache" using assms(1) by (rule expiring_cache.intro)
  obtain rs c where run: "run_charges (memory_increment cache) (memory_store_new cache) cs = (rs, c)" by fastforce
  have n: "charges_on k cs = length tss" by (simp add: assms(2) charges_on_def comp_def)
  have "counts_of k cs rs = [1..<Suc (charges_on k cs)]"
    using assms(4,5) n
    by (intro fixed_window_store.counts_within_window [OF memory_fixed_window [OF assms(1)]
          expiring_cache.invar_new [OF ex] expiring_cache.new_absent [OF ex] assms(3) _ _ _ run])
      (auto simp: assms(2))
  then have counts: "map (\<lambda>u. unat (used u)) (usages_of k cs rs) = [1..<Suc (length tss)]"
    by (simp add: counts_of_def n)
  have len: "length rs = length cs" using length_run_charges [OF run] .
  have "length (usages_of k cs rs) = length tss" using arg_cong [OF counts, of length] by (simp del: upt_Suc)
  then have "results_of k cs rs = map Inr (usages_of k cs rs)"
    using length_results_le [of k cs rs] n by (intro results_of_usages) simp
  then have "rs = map Inr (usages_of k cs rs)"
    using results_of_one_key [of cs k rs] len by (simp add: assms(2))
  with run have "run_charges (memory_increment cache) (memory_store_new cache) cs = (map Inr (usages_of k cs rs), c)"
    by simp
  from unwrap_run_charges [OF this] counts show ?thesis by blast
qed

lemma unwrap_usages_append:
  "unwrap_usages cache c (cs @ cs') =
     (case unwrap_usages cache c cs of
        None \<Rightarrow> None
      | Some (us, c') \<Rightarrow> map_option (map_prod ((@) us) id) (unwrap_usages cache c' cs'))"
  by (induction cache c cs rule: unwrap_usages.induct)
    (auto simp: map_option_case split: prod.splits sum.splits option.splits)

lemma test_concurrent_increment_passes:
  assumes "cache_api_ok cache" "length threads = 10"
    and "in_order memory_start memory_fin t0 (map (\<lambda>ts. (ts, ''user1'', from_secs 60)) (threads @ [t]))"
    and "\<forall>ts \<in> set (threads @ [t]). valid_times ts \<and>
      (\<exists>e. memory_opens (memory_start ts) (from_secs 60) = Some e \<and> (\<forall>ts' \<in> set (threads @ [t]). memory_fin ts' < e))"
  shows "test_concurrent_increment cache threads t"
proof -
  let ?c = "\<lambda>ts. (ts, ''user1'', from_secs 60)"
  obtain us c where us: "unwrap_usages cache (memory_store_new cache) (map ?c (threads @ [t])) = Some (us, c)"
    "map (\<lambda>u. unat (used u)) us = [1..<Suc (length (threads @ [t]))]"
    using one_key_counts [OF assms(1) refl assms(3,4)] assms(2) by auto
  from us(1) obtain us1 c1 us2 where s: "unwrap_usages cache (memory_store_new cache) (map ?c threads) = Some (us1, c1)"
    "unwrap_usages cache c1 [?c t] = Some (us2, c)" "us = us1 @ us2"
    unfolding map_append unwrap_usages_append by (auto split: option.splits prod.splits)
  have "length us2 = 1" using s(2) by (auto split: prod.splits sum.splits)
  then obtain u where u: "us2 = [u]" by (auto simp: length_Suc_conv)
  have "last (map (\<lambda>u. unat (used u)) us) = 11" using us(2) assms(2) by simp
  then have "unat (used u) = 11" by (simp add: s(3) u)
  then have "used u = 11" by (simp add: word_unat_eq_iff)
  then show ?thesis by (simp add: test_concurrent_increment_def assert_used_def s(1,2) u del: unwrap_usages.simps)
qed

lemma opens_millis:
  assumes "memory_opens t (from_millis m) = Some e" "instant_range (Instant t)"
  shows "e = t + int (unat m) * 1000000" and "instant_range (Instant e)"
proof -
  obtain x where x: "checked_add (Instant t) (from_millis m) = Some x" "e = instant_nanos x"
    using assms(1) by (auto simp: memory_opens_def)
  then show "e = t + int (unat m) * 1000000" by (auto simp: checked_add_def Let_def split: if_splits)
  show "instant_range (Instant e)" using checked_add_range [OF assms(2) x(1)] x(2) by simp
qed

text \<open>
  The test in which an increment has to wait for another thread's update of the same key until
  the old window is over passes when the increment reads the clock after the release; that it
  does so in every interleaving is part of \<open>threads_linearize\<close> in \<open>RL_Threads\<close>.  The new window
  then has its full length, and the next increment within it is counted as the second.
\<close>

theorem contended_window_is_full:
  assumes "cache_api_ok cache" "valid_times t1" "valid_times t2" "valid_times t3"
    and "memory_fin t1 \<le> instant_nanos locked" "instant_nanos locked < memory_start t1 + 300000000"
    and "instant_range released" "memory_start t1 + 400000000 \<le> instant_nanos released"
    and "instant_nanos released \<le> memory_start t2"
    and "instant_nanos (now_at_end t2) < memory_start t2 + 100000000"
    and "memory_fin t2 + 200000000 \<le> memory_start t3" "memory_start t3 < memory_start t2 + 500000000"
    and "memory_opens (memory_start t1) (from_millis 300) \<noteq> None"
    and "memory_opens (memory_start t2) (from_millis 500) \<noteq> None"
  shows "test_contended_window cache t1 locked released t2 t3"
proof -
  let ?k = "''contended-expiring''"
  have ex: "expiring_cache cache" using assms(1) by (rule expiring_cache.intro)
  have range: "instant_range (Instant (memory_start t1))" "instant_range (Instant (memory_start t2))"
    using expiring_cache.valid_ranges(1) [OF ex] assms(2,3) by (simp_all add: memory_start_def)
  obtain e1 where o1: "memory_opens (memory_start t1) (from_millis 300) = Some e1" using assms(13) by blast
  obtain e2 where o2: "memory_opens (memory_start t2) (from_millis 500) = Some e2" using assms(14) by blast
  have e: "e1 = memory_start t1 + 300000000" "e2 = memory_start t2 + 500000000"
    using opens_millis(1) [OF o1 range(1)] opens_millis(1) [OF o2 range(2)] by simp_all
  obtain u1 c1 where 1: "increment_usage cache (memory_store_new cache) t1 ?k (from_millis 300) = (Inr u1, c1)"
    "used u1 = 1" "memory_invar cache c1"
    "\<forall>t \<ge> memory_fin t1. memory_live cache c1 t ?k = (if t < e1 then Some (1, e1) else None)"
    using expiring_cache.usage_fresh [OF ex expiring_cache.invar_new [OF ex] assms(2)
        expiring_cache.new_absent [OF ex] o1] by blast
  have "memory_live cache c1 (instant_nanos locked) ?k = Some (1, e1)" using 1(4) assms(5,6) e(1) by simp
  then obtain entry where entry: "ca_get cache c1 locked ?k = Some entry" "instant_nanos (expires_at entry) = e1"
    by (auto simp: memory_live_def split: option.splits if_splits)
  let ?c2 = "snd (ca_put cache c1 released ?k entry)"
  note inv = expiring_cache.invar_entry(1,2) [OF ex 1(3) entry(1)]
  have c2: "memory_invar cache ?c2" by (rule expiring_cache.invar_put [OF ex 1(3) inv assms(7)])
  have "memory_live cache ?c2 (memory_start t2) ?k = None"
    using expiring_cache.live_put [OF ex 1(3) inv(2) assms(7), of ?k "memory_start t2"] entry(2) e(1) assms(8,9) by simp
  from expiring_cache.usage_fresh [OF ex c2 assms(3) this o2] obtain u2 c3
    where 2: "increment_usage cache ?c2 t2 ?k (from_millis 500) = (Inr u2, c3)" "used u2 = 1"
      "reset_after u2 = memory_left t2 e2" "memory_invar cache c3"
      "\<forall>t \<ge> memory_fin t2. memory_live cache c3 t ?k = (if t < e2 then Some (1, e2) else None)"
    by blast
  have "instant_range (now_at_end t2)" using assms(3) by (simp add: valid_times_def)
  note left = dur_nanos_saturating_since [OF opens_millis(2) [OF o2 range(2)] this]
  have "from_millis 400 < reset_after u2"
    using assms(10) e(2) left by (simp add: 2(3) memory_left_def less_Duration_nanos)
  moreover have "memory_live cache c3 (memory_start t3) ?k = Some (1, e2)"
    using 2(5) assms(11,12) e(2) by simp
  from expiring_cache.usage_open [OF ex 2(4) assms(4) this, of "from_millis 500"]
  obtain u3 c4 where "increment_usage cache c3 t3 ?k (from_millis 500) = (Inr u3, c4)" "used u3 = 2" by auto
  ultimately show ?thesis
    using 1(1,2) entry(1) 2(1,2) by (simp add: test_contended_window_def assert_used_def Let_def)
qed

definition times_ms :: "int \<Rightarrow> op_times" where
  "times_ms t = \<lparr>looked_up_at = Instant (t * 1000000), now_in_closure = Instant (t * 1000000),
     stored_at = Instant (t * 1000000), now_at_end = Instant (t * 1000000)\<rparr>"

lemma times_ms: "memory_start (times_ms t) = t * 1000000" "memory_fin (times_ms t) = t * 1000000"
  "instant_nanos (now_at_end (times_ms t)) = t * 1000000"
  by (simp_all add: times_ms_def memory_start_def memory_fin_def)

lemma valid_times_ms: "0 \<le> t \<Longrightarrow> t \<le> 1000 \<Longrightarrow> valid_times (times_ms t)"
  by (simp add: times_ms_def valid_times_def instant_range_def instant_max_def)

lemma opens_ms: "0 \<le> t \<Longrightarrow> t \<le> 1000 \<Longrightarrow> uint m \<le> 1000 \<Longrightarrow> memory_opens (t * 1000000) (from_millis m) \<noteq> None"
  by (simp add: memory_opens_def checked_add_None instant_max_def not_less)

theorem contended_window_is_full_witness:
  "test_contended_window map_cache_api (times_ms 0) (Instant 1000000) (Instant 401000000) (times_ms 402) (times_ms 650)"
proof -
  note ok = valid_times_ms [of 0] valid_times_ms [of 402] valid_times_ms [of 650]
  have "instant_range (Instant 401000000)" by (simp add: instant_range_def instant_max_def)
  then show ?thesis
    using contended_window_is_full [OF map_cache_api_ok, of "times_ms 0" "times_ms 402" "times_ms 650"
        "Instant 1000000" "Instant 401000000"] ok opens_ms [of 0 300] opens_ms [of 402 500]
    by (simp add: times_ms)
qed

section \<open>The Redis store\<close>

definition test_increment_result :: bool where
  "test_increment_result \<longleftrightarrow>
     usage_from_increment_result (4, 1500) = Inr \<lparr>used = 4, reset_after = from_millis 1500\<rparr> \<and>
     usage_from_increment_result (0, 1500) = Inl (InvalidUsage 0) \<and>
     usage_from_increment_result (4, 0) = Inl (InvalidResetAfter 0) \<and>
     usage_from_increment_result (4, - 1) = Inl (InvalidResetAfter (- 1))"

definition test_transport_key :: bool where
  "test_transport_key \<longleftrightarrow>
     format_redis_key None ''policy:client'' = ''rl:policy:client'' \<and>
     format_redis_key (Some ''tenant'') ''policy:client'' = ''tenant:rl:policy:client'' \<and>
     format_redis_key (Some '''') ''policy:client'' = ''rl:policy:client''"

definition test_window_millis :: bool where
  "test_window_millis \<longleftrightarrow>
     checked_window_millis (Duration 0 0) = Inl WindowTooShort \<and>
     checked_window_millis (Duration 0 1) = Inl WindowTooShort \<and>
     checked_window_millis (from_millis 1) = Inr 1 \<and>
     checked_window_millis (Duration 0 1500000) = Inr 1 \<and>
     checked_window_millis (from_millis (2 ^ 63 - 1)) = Inr (2 ^ 63 - 1) \<and>
     checked_window_millis (from_millis (2 ^ 63)) = Inl WindowTooLarge"

definition test_store_error_code :: bool where
  "test_store_error_code \<longleftrightarrow>
     redis_error_into (InvalidUsage 0) = Store ''redis_store_error'' ''redis returned invalid usage 0''"

theorem redis_unit_tests: "test_increment_result \<and> test_transport_key \<and> test_store_error_code"
  by (simp add: test_increment_result_def test_transport_key_def test_store_error_code_def
      usage_from_increment_result_def format_redis_key_def redis_error_into_def
      REDIS_PREFIX_def show_i64_def show_nat.simps digit_char_def char_of_def bit_0)

theorem redis_window_tests: "test_window_millis"
  unfolding test_window_millis_def
  by (intro conjI) (simp_all add: checked_window_millis_def as_millis_def from_millis_def)

section \<open>The example's response factory\<close>

definition test_auth_responses :: "('h, 'v) header_api \<Rightarrow> 'r \<Rightarrow> ('p, 'b) http_request \<Rightarrow> 'w \<Rightarrow> bool" where
  "test_auth_responses hdr b request w \<longleftrightarrow>
     status (fst (auth_build hdr b request (Reason_Error missing_user_id) w)) = UNAUTHORIZED \<and>
     status (fst (auth_build hdr b request (Reason_Error invalid_user_id) w)) = BAD_REQUEST \<and>
     status (fst (auth_build hdr b request
       (Reason_Error (Key ''socket_ip_unavailable'' ''missing socket address'')) w)) = INTERNAL_SERVER_ERROR"

theorem auth_unit_tests: "test_auth_responses hdr b request w"
  by (simp add: test_auth_responses_def auth_build_def missing_user_id_def invalid_user_id_def)

end
