(* ===== verification/RL_Fairness.thy ===== *)
theory RL_Fairness
  imports RL_Admission
begin

text \<open>
  Who is turned away, for any application.  Where \<open>RL_Admission\<close> bounds what reaches the inner
  service from above, this theory shows the other direction: a rate-limited answer needs a client
  that has made more requests than its limit.  The books kept here record for every increment the
  request that paid for it, and for every rejected request the result it was rejected on.
\<close>

section \<open>Books on rejections\<close>

text \<open>A component that neither charges the store nor records a rejection.\<close>

definition untouched :: "('s, 'p, 'b, 'x) shared_world \<Rightarrow> ('s, 'p, 'b, 'x) shared_world \<Rightarrow> bool" where
  "untouched w w' \<longleftrightarrow> sh_store w' = sh_store w \<and> sh_rejected w' = sh_rejected w"

lemma untouched_refl [simp]: "untouched w w"
  by (simp add: untouched_def)

lemma untouched_rest [simp]:
  "untouched w (w\<lparr>sh_rest := x\<rparr>)"
  "untouched (w\<lparr>sh_served := s\<rparr>) (w\<lparr>sh_served := s, sh_rest := x\<rparr>)"
  by (simp_all add: untouched_def)

text \<open>
  Every increment since \<open>sw0\<close> is paid for by a request that arrived, and so is every ticket still
  out; a result in flight is the result of one of those increments; a rejected request was
  rejected on the result of an increment of its own key, under a limit that may be granted to it.
\<close>

definition fair_books ::
  "('s, 't) increment_fun \<Rightarrow> (nat \<Rightarrow> 't) \<Rightarrow> 'p RateLimitConfig \<Rightarrow> ('p \<Rightarrow> string) \<Rightarrow> ('p \<Rightarrow> u64 \<Rightarrow> bool) \<Rightarrow>
    ('p \<Rightarrow> bool) \<Rightarrow> 's store_world \<Rightarrow> ('p, 'b) http_request multiset \<Rightarrow> ('s, 'p, 'b, 'x) shared_world \<Rightarrow>
    token multiset \<Rightarrow> bool" where
  "fair_books inc clock config key granted bypass sw0 arr w toks \<longleftrightarrow>
     (\<exists>cs rs. performed inc clock {cfg_window config} sw0 cs rs (sh_store w) \<and>
        mset (map (\<lambda>(ts, k, win). k) cs) + tickets toks \<subseteq>#
          image_mset (\<lambda>q. scoped_key config (key (parts q))) (filter_mset (\<lambda>q. \<not> bypass (parts q)) arr) \<and>
        set_mset (results toks) \<subseteq> set_mset (charged_keys cs rs) \<and>
        (\<forall>q \<in> set (sh_rejected w). \<exists>r lim p. (scoped_key config (key (parts q)), r) \<in># charged_keys cs rs \<and>
           granted (parts q) lim \<and> decide config lim r = Limited p))"

lemma fair_start:
  "sh_store w = sw0 \<Longrightarrow> sh_rejected w = [] \<Longrightarrow> fair_books inc clock config key granted bypass sw0 {#} w {#}"
  unfolding fair_books_def by (intro exI [of _ "[]"]) (simp add: performed_none)

lemma fair_untouched:
  assumes "fair_books inc clock config key granted bypass sw0 arr w toks" "untouched w w'"
  shows "fair_books inc clock config key granted bypass sw0 arr w' toks"
  using assms unfolding fair_books_def untouched_def by simp

lemma fair_served:
  assumes "fair_books inc clock config key granted bypass sw0 arr w toks"
  shows "fair_books inc clock config key granted bypass sw0 arr (w\<lparr>sh_served := s\<rparr>) toks"
  by (rule fair_untouched [OF assms]) (simp add: untouched_def)

lemma fair_calls:
  assumes "fair_books inc clock config key granted bypass sw0 arr w toks"
  shows "fair_books inc clock config key granted bypass sw0 arr (w\<lparr>sh_store := (sh_store w)\<lparr>sw_calls := n\<rparr>\<rparr>) toks"
  using assms unfolding fair_books_def performed_def by simp

lemma fair_forget:
  assumes "fair_books inc clock config key granted bypass sw0 arr w toks" "toks' \<subseteq># toks"
  shows "fair_books inc clock config key granted bypass sw0 arr w toks'"
proof -
  note less = tokens_mono [OF assms(2)]
  have "X + tickets toks' \<subseteq># Y" if "X + tickets toks \<subseteq># Y" for X Y
    using that less(1) by (meson subset_mset.add_left_mono subset_mset.order_trans)
  moreover have "set_mset (results toks') \<subseteq> set_mset (results toks)" using less(2) by (rule set_mset_mono)
  ultimately show ?thesis using assms(1) unfolding fair_books_def by (meson order.trans)
qed

lemma fair_arrive:
  assumes "fair_books inc clock config key granted bypass sw0 arr w toks"
  shows "\<not> bypass (parts q) \<Longrightarrow> fair_books inc clock config key granted bypass sw0 (add_mset q arr) w
      (add_mset (Ticket (scoped_key config (key (parts q)))) toks)"
    and "bypass (parts q) \<Longrightarrow> fair_books inc clock config key granted bypass sw0 (add_mset q arr) w toks"
  using assms unfolding fair_books_def by simp_all

lemma fair_charge:
  assumes "fair_books inc clock config key granted bypass sw0 arr w (add_mset (Ticket k) toks)"
    and "charge inc clock k (cfg_window config) (sh_store w) = (r, sw)"
  shows "fair_books inc clock config key granted bypass sw0 arr (w\<lparr>sh_store := sw\<rparr>) (add_mset (Result k r) toks)"
proof -
  let ?paid = "image_mset (\<lambda>q. scoped_key config (key (parts q))) (filter_mset (\<lambda>q. \<not> bypass (parts q)) arr)"
  let ?on = "\<lambda>cs rs q. \<exists>r lim p. (scoped_key config (key (parts q)), r) \<in># charged_keys cs rs \<and>
    granted (parts q) lim \<and> decide config lim r = Limited p"
  obtain cs rs where a: "performed inc clock {cfg_window config} sw0 cs rs (sh_store w)"
    "mset (map (\<lambda>(ts, k, win). k) cs) + tickets (add_mset (Ticket k) toks) \<subseteq># ?paid"
    "set_mset (results (add_mset (Ticket k) toks)) \<subseteq> set_mset (charged_keys cs rs)"
    "\<forall>q \<in> set (sh_rejected w). ?on cs rs q"
    using assms(1) unfolding fair_books_def by blast
  let ?c = "(clock (sw_tick (sh_store w)), k, cfg_window config)"
  have "charged_keys (cs @ [?c]) (rs @ [r]) = charged_keys cs rs + {#(k, r)#}"
    using performed_length [OF a(1)] by (simp add: charged_keys_append)
  then have more: "set_mset (charged_keys (cs @ [?c]) (rs @ [r])) = insert (k, r) (set_mset (charged_keys cs rs))"
    by simp
  show ?thesis
    unfolding fair_books_def
  proof (intro exI [of _ "cs @ [?c]"] exI [of _ "rs @ [r]"] conjI)
    show "performed inc clock {cfg_window config} sw0 (cs @ [?c]) (rs @ [r]) (sh_store (w\<lparr>sh_store := sw\<rparr>))"
      using performed_trans [OF a(1) performed_charge [OF assms(2)]] by simp
    show "\<forall>q \<in> set (sh_rejected (w\<lparr>sh_store := sw\<rparr>)). ?on (cs @ [?c]) (rs @ [r]) q"
      unfolding more using a(4) by fastforce
  qed (use a(2,3) in \<open>auto simp: more\<close>)
qed

text \<open>A request is rejected on the result it holds.\<close>

lemma fair_rejected:
  assumes "fair_books inc clock config key granted bypass sw0 arr w
      (add_mset (Result (scoped_key config (key (parts q))) r) toks)"
    and "granted (parts q) lim" "decide config lim r = Limited p"
  shows "fair_books inc clock config key granted bypass sw0 arr (w\<lparr>sh_rejected := sh_rejected w @ [q]\<rparr>) toks"
  using assms unfolding fair_books_def by fastforce

section \<open>Counts never exceed the charges\<close>

text \<open>Every increment of the execution finds the clock where a window can be opened.\<close>

definition can_open :: "('t \<Rightarrow> int option) \<Rightarrow> ('t \<Rightarrow> int) \<Rightarrow> (nat \<Rightarrow> 't) \<Rightarrow> nat \<Rightarrow> nat \<Rightarrow> bool" where
  "can_open ends start clock n0 n \<longleftrightarrow>
     (\<forall>m. n0 \<le> m \<and> m < n \<longrightarrow> (\<exists>e. ends (clock m) = Some e \<and> start (clock m) < e))"

context fixed_window_store
begin

text \<open>
  Whatever windows open and close, a count is at most the number of charges so far, beyond a
  count \<open>c\<close> the window had at the beginning.
\<close>

lemma usages_at_most:
  assumes "invar s" "\<forall>m e. live s t k = Some (m, e) \<longrightarrow> m \<le> c" "in_order start fin t cs"
    and "\<forall>(ts, k', win) \<in> set cs. valid ts win \<and> (\<exists>e. opens (start ts) win = Some e \<and> start ts < e)"
    and "c + charges_on k cs \<le> cap" "run_charges increment s cs = (rs, s')"
  shows "\<forall>u \<in> set (usages_of k cs rs). unat (used u) \<le> c + charges_on k cs"
  using assms
proof (induction cs arbitrary: s t c rs s')
  case (Cons z cs)
  obtain ts k' win where z: "z = (ts, k', win)" by (cases z)
  obtain r s1 where i: "increment s ts k' win = (r, s1)" by (cases "increment s ts k' win")
  obtain rs1 s2 where run: "run_charges increment s1 cs = (rs1, s2)" by (cases "run_charges increment s1 cs")
  have rs: "rs = r # rs1" using Cons.prems(6) z i run by simp
  obtain e0 where v: "valid ts win" "opens (start ts) win = Some e0" "start ts < e0"
    and le: "t \<le> start ts" "start ts \<le> fin ts" "in_order start fin (fin ts) cs"
    and later: "\<forall>(ts, k', win) \<in> set cs. valid ts win \<and> (\<exists>e. opens (start ts) win = Some e \<and> start ts < e)"
    using Cons.prems(3,4) z by auto
  have inv: "invar s1" by (rule increment_invar [OF Cons.prems(1) v(1) i])
  have aged: "\<forall>m e. live s t' k = Some (m, e) \<longrightarrow> m \<le> c" if "t \<le> t'" for t'
  proof (cases "live s t k")
    case None
    then show ?thesis using absent_stays [OF Cons.prems(1) None that] by simp
  next
    case (Some x)
    obtain m e where "x = (m, e)" by (cases x)
    then show ?thesis using live_ages [OF Cons.prems(1) _ that] Some Cons.prems(2) by simp
  qed
  show ?case
  proof (cases "k' = k")
    case True
    have "\<exists>u. r = Inr u \<and> unat (used u) \<le> Suc c \<and> (\<forall>m e. live s1 (fin ts) k = Some (m, e) \<longrightarrow> m \<le> Suc c)"
    proof (cases "live s (start ts) k")
      case None
      have "0 < cap" using Cons.prems(5) z True by simp
      from increment_absent [OF Cons.prems(1) v(1) None v(2,3) this] i True show ?thesis by auto
    next
      case (Some x)
      obtain m e where x: "x = (m, e)" by (cases x)
      have m: "m \<le> c" using aged [OF le(1)] Some x by simp
      then have "m < cap" using Cons.prems(5) z True by simp
      from increment_live [OF Cons.prems(1) v(1) Some [unfolded x] this] i True m show ?thesis by auto
    qed
    then obtain u where u: "r = Inr u" "unat (used u) \<le> Suc c" "\<forall>m e. live s1 (fin ts) k = Some (m, e) \<longrightarrow> m \<le> Suc c"
      by blast
    have "\<forall>u \<in> set (usages_of k cs rs1). unat (used u) \<le> Suc c + charges_on k cs"
      using Cons.prems(5) z True by (intro Cons.IH [OF inv u(3) le(3) later _ run]) simp
    then show ?thesis using u(1,2) rs z True by auto
  next
    case False
    have "live s1 (fin ts) k = live s (fin ts) k"
      using increment_frame [OF Cons.prems(1) v(1) i] False by metis
    then have "\<forall>m e. live s1 (fin ts) k = Some (m, e) \<longrightarrow> m \<le> c" using aged [of "fin ts"] le by simp
    from Cons.IH [OF inv this le(3) later _ run] Cons.prems(5) z False rs
    show ?thesis by (auto split: sum.split)
  qed
qed simp

lemma limited_usage: "decide config lim r = Limited p \<Longrightarrow> \<exists>u. r = Inr u \<and> unat lim < unat (used u)"
  by (auto simp: decide_def store_failed_def Let_def split: sum.splits if_splits)

lemma charged_usage: "(k, Inr u) \<in># charged_keys cs rs \<Longrightarrow> u \<in> set (usages_of k cs rs)"
  by (induction k cs rs rule: usages_of.induct) (auto simp: charged_keys_def split: sum.split)

text \<open>
  Under the books on rejections, a client whose requests are no more than every limit that may be
  granted to it is not turned away.
\<close>

lemma fair_within_limit:
  assumes "fair_books increment clock config key granted bypass sw arr w toks" "invar (sw_state sw)"
    and "live (sw_state sw) (start (clock (sw_tick sw))) k = None"
    and "clock_runs valid start fin (cfg_window config) clock"
    and "can_open (\<lambda>ts. opens (start ts) (cfg_window config)) start clock (sw_tick sw) (sw_tick (sh_store w))"
    and "\<And>lim. n \<le> unat (lim :: u64) \<Longrightarrow> n \<le> cap"
    and "\<And>p lim. granted p lim \<Longrightarrow> scoped_key config (key p) = k \<Longrightarrow> n \<le> unat lim"
    and "size (filter_mset (\<lambda>q. \<not> bypass (parts q) \<and> scoped_key config (key (parts q)) = k) arr) \<le> n"
    and "q \<in> set (sh_rejected w)"
  shows "scoped_key config (key (parts q)) \<noteq> k"
proof
  let ?K = "\<lambda>q. scoped_key config (key (parts q))"
  assume k: "?K q = k"
  obtain cs rs where a: "performed increment clock {cfg_window config} sw cs rs (sh_store w)"
    "mset (map (\<lambda>(ts, k, win). k) cs) + tickets toks \<subseteq># image_mset ?K (filter_mset (\<lambda>q. \<not> bypass (parts q)) arr)"
    "\<forall>q \<in> set (sh_rejected w). \<exists>r lim p. (?K q, r) \<in># charged_keys cs rs \<and> granted (parts q) lim \<and>
      decide config lim r = Limited p"
    using assms(1) unfolding fair_books_def by blast
  obtain r lim p where r: "(k, r) \<in># charged_keys cs rs" "granted (parts q) lim" "decide config lim r = Limited p"
    using a(3) assms(9) k by blast
  obtain u where u: "r = Inr u" "unat lim < unat (used u)" using limited_usage [OF r(3)] by blast
  have n: "n \<le> unat lim" using assms(7) [OF r(2) k] .
  have "charges_on k cs = size (filter_mset (\<lambda>k'. k' = k) (mset (map (\<lambda>(ts, k, win). k) cs)))"
    by (simp add: charges_on_def case_prod_unfold filter_mset_image_mset flip: mset_filter)
  also have "\<dots> \<le> size (filter_mset (\<lambda>k'. k' = k) (image_mset ?K (filter_mset (\<lambda>q. \<not> bypass (parts q)) arr)))"
    by (intro size_mset_mono multiset_filter_mono subset_mset.order_trans [OF mset_subset_eq_add_left a(2)])
  also have "\<dots> \<le> n" using assms(8) by (simp add: filter_mset_image_mset filter_filter_mset conj_commute comp_def)
  finally have few: "charges_on k cs \<le> n" .
  have run: "run_charges increment (sw_state sw) cs = (rs, sw_state (sh_store w))"
    and ticks: "\<forall>i < length cs. fst (cs ! i) = clock (sw_tick sw + i)"
    using a(1) by (simp_all add: performed_def)
  have valid: "\<forall>(ts, k', win) \<in> set cs. valid ts win \<and> (\<exists>e. opens (start ts) win = Some e \<and> start ts < e)"
    using performed_tick [OF a(1)] assms(4,5) by (fastforce simp: clock_runs_def can_open_def)
  have "\<forall>u \<in> set (usages_of k cs rs). unat (used u) \<le> 0 + charges_on k cs"
    using few assms(6) [OF n]
    by (intro usages_at_most [OF assms(2) _ in_order_ticks [OF assms(4) order.refl ticks] valid _ run])
      (simp_all add: assms(3))
  with charged_usage [OF r(1) [unfolded u(1)]] few n u(2) show False by fastforce
qed

end

section \<open>Any application\<close>

lemma hosted_config [simp]: "r_config (hosted_limiter rl) = r_config rl"
  by (simp add: hosted_limiter_def)

text \<open>
  The books on rejections follow every application whose components live in their own part of the
  world.
\<close>

lemma hosted_fair_ledger:
  fixes rl :: "('i, ('x, 'p, 'key) key_extractor, 's store_world store, ('x, 'p) limit_provider,
     ('x, 'p, 'b, 'h, 'r) factory, 'p) RateLimit"
  assumes "application_ok rl key granted bypass"
    and "\<And>k. r_store rl k (cfg_window (r_config rl)) = atomic_store inc clock plan k (cfg_window (r_config rl))"
  shows "ledger_application inc clock plan key bypass (\<lambda>_. True) (hosted_emit emit) (recorded_service svc)
    (hosted_limiter rl) untouched granted (fair_books inc clock (r_config rl) key granted bypass sw0)"
proof
  fix h w r w'
  assume "ke_extract (r_key_extractor (hosted_limiter rl)) h w = (r, w')"
  from hosted_extract [where A = untouched, OF assms(1) untouched_rest(1) this]
  show "untouched w w' \<and>
    (\<forall>x. r = Inr x \<longrightarrow> ke_to_string (r_key_extractor (hosted_limiter rl)) x = key (parts h))" .
next
  fix h w fut w'
  assume "r_limit_provider (hosted_limiter rl) h w = (fut, w')"
  from hosted_provide [where A = untouched, OF assms(1) untouched_rest(1) this]
  show "untouched w w' \<and> calm untouched (\<lambda>r. \<forall>lim. r = Inr lim \<longrightarrow> granted (parts h) lim) fut" .
next
  fix arr r toks lim p response and q :: "('p, 'b) http_request" and w w' :: "('s, 'p, 'b, 'x) shared_world"
  let ?K = "scoped_key (r_config (hosted_limiter rl)) (key (parts q))"
  assume "fair_books inc clock (r_config rl) key granted bypass sw0 arr w (add_mset (Result ?K r) toks)"
    "granted (parts q) lim" "decide (r_config (hosted_limiter rl)) lim r = Limited p"
    and f: "r_response_factory (hosted_limiter rl) q (Reason_RateLimited p) w = (response, w')"
  then have "fair_books inc clock (r_config rl) key granted bypass sw0 arr (w\<lparr>sh_rejected := sh_rejected w @ [q]\<rparr>) toks"
    by (intro fair_rejected) simp_all
  moreover have "untouched (w\<lparr>sh_rejected := sh_rejected w @ [q]\<rparr>) w'"
    using f by (auto simp: hosted_limiter_def note_rejected_def untouched_def split: prod.splits)
  ultimately show "fair_books inc clock (r_config rl) key granted bypass sw0 arr w' toks"
    by (rule fair_untouched)
next
  fix arr toks lim r and q q' :: "('p, 'b) http_request" and w :: "('s, 'p, 'b, 'x) shared_world"
  let ?K = "scoped_key (r_config (hosted_limiter rl)) (key (parts q))"
  assume "fair_books inc clock (r_config rl) key granted bypass sw0 arr w (add_mset (Result ?K r) toks)"
  then have "fair_books inc clock (r_config rl) key granted bypass sw0 arr w toks" by (rule fair_forget) simp
  then show "fair_books inc clock (r_config rl) key granted bypass sw0 arr (w\<lparr>sh_served := sh_served w @ [q']\<rparr>) toks"
    by (rule fair_served)
next
  show "skips (r_config (hosted_limiter rl)) q \<longleftrightarrow> bypass (parts q)" for q :: "('p, 'b) http_request"
    using assms(1) by (simp add: application_ok_def)
qed (use assms(2) in \<open>auto simp: hosted_limiter_def hosted_emit_def recorded_service_defs shared_store_def fun_eq_iff
    note_rejected_def intro: fair_untouched fair_served fair_calls fair_arrive fair_charge fair_forget
    intro!: calm_on_rest split: prod.splits\<close>)

text \<open>What the books give, for any store that keeps the contract.\<close>

lemma hosted_within_limit_served:
  assumes "application_ok rl key granted bypass"
    and "\<And>k. r_store rl k (cfg_window (r_config rl)) = atomic_store inc clock plan k (cfg_window (r_config rl))"
    and "fixed_window_store inc valid start fin live opens left cap invar"
    and "executes (rate_limit_service hdr (hosted_emit emit) (recorded_service svc)) (hosted_limiter rl) w x"
    and "sh_rejected w = []" "invar (sw_state (sh_store w))"
    and "live (sw_state (sh_store w)) (start (clock (sw_tick (sh_store w)))) k = None"
    and "clock_runs valid start fin (cfg_window (r_config rl)) clock"
    and "can_open (\<lambda>ts. opens (start ts) (cfg_window (r_config rl))) start clock
      (sw_tick (sh_store w)) (sw_tick (sh_store (ex_world x)))"
    and "\<And>lim. n \<le> unat (lim :: u64) \<Longrightarrow> n \<le> cap"
    and "\<And>p lim. granted p lim \<Longrightarrow> scoped_key (r_config rl) (key p) = k \<Longrightarrow> n \<le> unat lim"
    and "size (filter_mset (\<lambda>q. \<not> bypass (parts q) \<and> scoped_key (r_config rl) (key (parts q)) = k) (arrivals x)) \<le> n"
  shows "filter (\<lambda>q. scoped_key (r_config rl) (key (parts q)) = k) (sh_rejected (ex_world x)) = []"
proof -
  have "fair_books inc clock (r_config rl) key granted bypass (sh_store w) {#} w {#}"
    by (rule fair_start [OF refl assms(5)])
  from ledger_application.executes_in_books [OF hosted_fair_ledger [OF assms(1,2)] assms(4) this]
  obtain toks where "fair_books inc clock (r_config rl) key granted bypass (sh_store w) (arrivals x) (ex_world x) toks"
    by blast
  from fixed_window_store.fair_within_limit [OF assms(3) this assms(6-12)] show ?thesis by (simp add: filter_empty_conv)
qed

section \<open>Properties\<close>

text \<open>
  C3.  A client that keeps within its limit is never turned away, whatever the application is.
  The handler, quota provider, key extractor, response factory and trace subscriber are arbitrary
  programs with a state of their own, the executor polls the requests in flight in any order and
  drops any of them, and other clients do what they like.  If a client has no open window when the
  execution begins and has made at most \<open>n\<close> requests since (answered, in flight and dropped ones
  together), where \<open>n\<close> is at most every limit the provider resolves to for it, then no request of
  the client has been answered as rate limited.  The execution may span any number of windows, as
  long as the clock is not so late that a window cannot be represented.
\<close>

theorem memory_application_fair:
  fixes cache :: "'c cache_api" and x0 :: 'x
    and svc :: "('x, 'i, 'p, 'b, 'h, 'r, 'e) inner_service"
  assumes "application_ok rl key granted bypass" "r_store rl = memory_store cache clock"
    and "cache_api_ok cache" "memory_invar cache (sw_state sw)"
    and "clock_runs (\<lambda>ts win. valid_times ts) memory_start memory_fin (cfg_window (r_config rl)) clock"
    and "memory_live cache (sw_state sw) (memory_start (clock (sw_tick sw))) k = None"
    and "executes (rate_limit_service hdr (hosted_emit emit) (recorded_service svc)) (hosted_limiter rl)
      \<lparr>sh_store = sw, sh_served = [], sh_rejected = [], sh_rest = x0\<rparr> x"
    and "can_open (\<lambda>ts. memory_opens (memory_start ts) (cfg_window (r_config rl))) memory_start clock
      (sw_tick sw) (sw_tick (sh_store (ex_world x)))"
    and "\<And>p lim. granted p lim \<Longrightarrow> scoped_key (r_config rl) (key p) = k \<Longrightarrow> n \<le> unat lim"
    and "size (filter_mset (\<lambda>q. \<not> bypass (parts q) \<and> scoped_key (r_config rl) (key (parts q)) = k) (arrivals x)) \<le> n"
  shows "filter (\<lambda>q. scoped_key (r_config rl) (key (parts q)) = k) (sh_rejected (ex_world x)) = []"
proof -
  have store: "r_store rl k (cfg_window (r_config rl)) =
      atomic_store (memory_increment cache) clock (\<lambda>c t. At_Call 0) k (cfg_window (r_config rl))" for k
    by (simp add: assms(2) memory_store_atomic)
  have bound: "n \<le> 2 ^ 64 - 1" if "n \<le> unat lim" for lim :: u64
    using that unat_less_64 [of lim] by simp
  show ?thesis
    by (rule hosted_within_limit_served [OF assms(1) store memory_fixed_window [OF assms(3)] assms(7) _ _ _ assms(5) _
          bound assms(9,10)]) (simp_all add: assms(4,6,8))
qed

text \<open>
  C10.  The same over the Redis store, with a network that delays increments and replies at will.
\<close>

theorem redis_application_fair:
  fixes api :: "'d redis_api" and x0 :: 'x
    and svc :: "('x, 'i, 'p, 'b, 'h, 'r, 'e) inner_service"
  assumes "application_ok rl key granted bypass" "r_store rl = redis_store_future lua api this clock network"
    and "redis_api_ok api" "redis_invar lua api this (sw_state sw)"
    and "clock_runs (redis_valid lua) t_first t_first (cfg_window (r_config rl)) clock"
    and "redis_live api this (sw_state sw) (t_first (clock (sw_tick sw))) k = None"
    and "executes (rate_limit_service hdr (hosted_emit emit) (recorded_service svc)) (hosted_limiter rl)
      \<lparr>sh_store = sw, sh_served = [], sh_rejected = [], sh_rest = x0\<rparr> x"
    and "n \<le> nat (horizon lua)"
    and "\<And>p lim. granted p lim \<Longrightarrow> scoped_key (r_config rl) (key p) = k \<Longrightarrow> n \<le> unat lim"
    and "size (filter_mset (\<lambda>q. \<not> bypass (parts q) \<and> scoped_key (r_config rl) (key (parts q)) = k) (arrivals x)) \<le> n"
  shows "filter (\<lambda>q. scoped_key (r_config rl) (key (parts q)) = k) (sh_rejected (ex_world x)) = []"
proof -
  have valid: "redis_valid lua (clock m) (cfg_window (r_config rl))" for m
    using assms(5) by (simp add: clock_runs_def)
  obtain ms where ms: "checked_window_millis (cfg_window (r_config rl)) = Inr ms"
    using valid [of 0] by (auto simp: redis_valid_def redis_opens_def split: option.splits sum.splits)
  have "0 < sint ms" using checked_window_millis_Inr [OF ms] by simp
  then have ends: "can_open (\<lambda>ts. redis_opens (t_first ts) (cfg_window (r_config rl))) t_first clock a b" for a b
    by (simp add: can_open_def redis_opens_def ms)
  have store: "r_store rl k (cfg_window (r_config rl)) =
      atomic_store (redis_increment lua api this) clock (\<lambda>c t. case network c of (n, m) \<Rightarrow> On_Poll n m) k
        (cfg_window (r_config rl))" for k
    by (simp add: assms(2) redis_store_atomic [OF ms])
  show ?thesis
    by (rule hosted_within_limit_served [OF assms(1) store redis_fixed_window [OF assms(3)] assms(7) _ _ _ assms(5) ends
          assms(8,9,10)]) (simp_all add: assms(4,6))
qed

section \<open>Witnesses\<close>

text \<open>
  Two clients with limits of their own: \<open>a\<close> is allowed nothing and \<open>b\<close> one request.  Each makes a
  request; that of \<open>a\<close> is rejected, that of \<open>b\<close> is with the handler.
\<close>

definition clients_config :: "string RateLimitConfig" where
  "clients_config =
     \<lparr>cfg_policy_name = ''api'', cfg_window = Duration 60 0, cfg_key_encoder = None,
      cfg_skip_predicate = None, cfg_store_failure_mode = Reject,
      cfg_store_failure_tracing_level = WARN, cfg_rate_limit_fields = Draft11\<rparr>"

definition client_limit :: "string \<Rightarrow> u64" where
  "client_limit p = (if p = ''a'' then 0 else 1)"

definition clients_application ::
  "'s store_world store \<Rightarrow>
    (nat, (unit, string, string) key_extractor, 's store_world store, (unit, string) limit_provider,
     (unit, string, unit, (string \<times> string) list, unit) factory, string) RateLimit" where
  "clients_application st =
     \<lparr>r_inner = 0, r_key_extractor = pure_extractor (\<lambda>h. Inr (parts h)) (\<lambda>k. k), r_store = st,
      r_limit_provider = (\<lambda>h x. (ready (Inr (client_limit (parts h))), x)),
      r_response_factory = default_build list_header_api (), r_config = clients_config\<rparr>"

definition client_request :: "string \<Rightarrow> (string, unit) http_request" where
  "client_request p = \<lparr>parts = p, extension = None, body = ()\<rparr>"

abbreviation clients_service ::
  "(('s, string, unit, unit) shared_world,
    (('s, string, unit, unit) shared_world, string, unit, (string \<times> string) list, unit, nat, string) rate_limit,
    string, unit, (string \<times> string) list, unit, string) inner_service" where
  "clients_service \<equiv> rate_limit_service list_header_api (hosted_emit (\<lambda>_ w. w)) (recorded_service slow_service)"

lemma clients_application_ok:
  "application_ok (clients_application st) (\<lambda>p. p) (\<lambda>p lim. lim = client_limit p) (\<lambda>_. False)"
  by (auto simp: application_ok_def clients_application_def pure_extractor_def skips_def clients_config_def)

lemma clients_key: "scoped_key clients_config k = make_key ''api'' k"
  by (simp add: scoped_key_def clients_config_def)

text \<open>The future of a request of client \<open>p\<close>, and one poll of it up to the answer of the store.\<close>

definition client_future ::
  "'s store_world store \<Rightarrow> nat \<Rightarrow> string \<Rightarrow>
    (('s, string, unit, unit) shared_world, string, unit, (string \<times> string) list, unit, string, nat) ResponseFuture" where
  "client_future st i p =
     \<lparr>f_state = State_Limit (on_rest (ready (Inr (client_limit p)))) (client_request p) p, f_inner = i,
      f_store = shared_store st, f_config = clients_config,
      f_factory = r_response_factory (hosted_limiter (clients_application st))\<rparr>"

lemma client_arrives:
  "svc_poll_ready clients_service (hosted_limiter (clients_application st)\<lparr>r_inner := i\<rparr>) w =
      (Ready (Inr ()), hosted_limiter (clients_application st)\<lparr>r_inner := i\<rparr>, w)"
  "svc_call clients_service (hosted_limiter (clients_application st)\<lparr>r_inner := i\<rparr>) (client_request p) w =
      (as_future list_header_api (hosted_emit (\<lambda>_ w. w)) (recorded_service slow_service) (client_future st i p),
       hosted_limiter (clients_application st)\<lparr>r_inner := Suc i\<rparr>, w)"
  by (simp_all add: rate_limit_service_def poll_ready_def call_def check_skip skips_def hosted_limiter_def
      clients_application_def clients_config_def recorded_service_defs slow_service_def client_future_def
      pure_extractor_def response_future_new_def client_request_def request_head_def into_parts_def from_parts_def)

lemma client_charged:
  assumes "\<And>k. st k (cfg_window clients_config) = atomic_store inc clock plan k (cfg_window clients_config)"
    and "plan (sw_calls (sh_store w)) (sw_tick (sh_store w)) \<in> {At_Call 0, On_Poll 0 0}"
    and "inc (sw_state (sh_store w)) (clock (sw_tick (sh_store w))) (make_key ''api'' p) (cfg_window clients_config) = (r, s')"
  shows "\<exists>sw. sw_state sw = s' \<and> sw_tick sw = Suc (sw_tick (sh_store w)) \<and>
    poll_future (as_future hdr emit svc (client_future st i p)) w =
      (case after_store emit svc (client_future st i p) (client_request p) (client_limit p) r (w\<lparr>sh_store := sw\<rparr>) of
         (this, w') \<Rightarrow> poll_future (as_future hdr emit svc this) w')"
proof -
  let ?called = "if plan (sw_calls (sh_store w)) (sw_tick (sh_store w)) = At_Call 0 then sh_store w
    else (sh_store w)\<lparr>sw_calls := Suc (sw_calls (sh_store w))\<rparr>"
  let ?sw = "?called\<lparr>sw_state := s', sw_tick := Suc (sw_tick (sh_store w))\<rparr>"
  let ?fut = "client_future st i p"
  have same: "after_store emit svc (?fut\<lparr>f_state := X\<rparr>) q lim r v = after_store emit svc ?fut q lim r v" for X q lim v
    by (cases "decide clients_config lim r") (simp_all add: after_store_decide client_future_def split: prod.split)
  have answered: "poll_future (as_future hdr emit svc (?fut\<lparr>f_state := State_Store f q lim\<rparr>)) v =
      (case after_store emit svc ?fut q lim r v' of (this, w') \<Rightarrow> poll_future (as_future hdr emit svc this) w')"
    if "poll_future f v = (Ready r, v')" for f q lim v v'
    by (subst poll_future_as_future) (simp add: poll_step_def ready_bang_def that same split: prod.split)
  have alone: "w\<lparr>sh_rest := ()\<rparr> = w" by (cases w) simp
  have limit: "poll_future (as_future hdr emit svc ?fut) w =
      (case shared_store st (make_key ''api'' p) (cfg_window clients_config) w of
         (f, v) \<Rightarrow> poll_future (as_future hdr emit svc (?fut\<lparr>f_state := State_Store f (client_request p) (client_limit p)\<rparr>)) v)"
    by (subst poll_future_as_future)
      (simp add: poll_step_def ready_bang_def client_future_def poll_through after_limit_def clients_key alone split: prod.split)
  have "poll_future (as_future hdr emit svc ?fut) w =
      (case after_store emit svc ?fut (client_request p) (client_limit p) r (w\<lparr>sh_store := ?sw\<rparr>) of
         (this, w') \<Rightarrow> poll_future (as_future hdr emit svc this) w')"
    using assms(2) unfolding limit
    by (auto simp: assms(1,3) shared_store_def atomic_store_def charge_def poll_through intro!: answered)
  then show ?thesis by (intro exI [of _ ?sw]) simp
qed

lemma client_outcome:
  fixes st :: "'s store_world store"
  assumes "\<And>k. st k (cfg_window clients_config) = atomic_store inc clock plan k (cfg_window clients_config)"
    and "plan (sw_calls (sh_store w)) (sw_tick (sh_store w)) \<in> {At_Call 0, On_Poll 0 0}"
    and "inc (sw_state (sh_store w)) (clock (sw_tick (sh_store w))) (make_key ''api'' p) (cfg_window clients_config) =
      (Inr u, s')" "unat (used u) = 1"
  shows "p = ''a'' \<Longrightarrow> \<exists>out w'. poll_future (as_future list_header_api (hosted_emit (\<lambda>_ w. w))
      (recorded_service slow_service) (client_future st i p)) w = (Ready out, w') \<and>
      sw_state (sh_store w') = s' \<and> sw_tick (sh_store w') = Suc (sw_tick (sh_store w)) \<and>
      sh_served w' = sh_served w \<and> sh_rejected w' = sh_rejected w @ [client_request p]"
    and "p \<noteq> ''a'' \<Longrightarrow> \<exists>fut w'. poll_future (as_future list_header_api (hosted_emit (\<lambda>_ w. w))
      (recorded_service slow_service) (client_future st i p)) w = (Pending fut, w') \<and>
      sw_state (sh_store w') = s' \<and> sw_tick (sh_store w') = Suc (sw_tick (sh_store w)) \<and>
      map parts (sh_served w') = map parts (sh_served w) @ [p] \<and> sh_rejected w' = sh_rejected w"
proof -
  let ?svc = "recorded_service slow_service :: (('s, string, unit, unit) shared_world, _, string, unit, _, _, _) inner_service"
  let ?poll = "poll_future (as_future list_header_api (hosted_emit (\<lambda>_ w. w)) ?svc (client_future st i p)) w"
  obtain sw where sw: "sw_state sw = s'" "sw_tick sw = Suc (sw_tick (sh_store w))"
    "?poll = (case after_store (hosted_emit (\<lambda>_ w. w)) ?svc (client_future st i p) (client_request p) (client_limit p)
       (Inr u) (w\<lparr>sh_store := sw\<rparr>) of (this, w') \<Rightarrow> poll_future (as_future list_header_api (hosted_emit (\<lambda>_ w. w)) ?svc this) w')"
    using client_charged [where st = st and inc = inc and clock = clock and plan = plan and w = w and i = i and p = p
        and hdr = list_header_api and emit = "hosted_emit (\<lambda>_ w. w)" and svc = ?svc, OF assms(1-3)] by blast
  have "used u \<noteq> 0" using assms(4) by auto
  then have limited: "\<exists>pol. decide clients_config 0 (Inr u) = Limited pol"
    and admit: "\<exists>pol. decide clients_config 1 (Inr u) = Admit pol"
    using assms(4) by (simp_all add: decide_def Let_def)
  show "\<exists>out w'. ?poll = (Ready out, w') \<and> sw_state (sh_store w') = s' \<and> sw_tick (sh_store w') = Suc (sw_tick (sh_store w)) \<and>
      sh_served w' = sh_served w \<and> sh_rejected w' = sh_rejected w @ [client_request p]" if "p = ''a''"
    using limited that sw(1,2) unfolding sw(3)
    by (auto simp: after_store_decide client_future_def client_limit_def poll_future_as_future
        poll_step_def hosted_limiter_def clients_application_def note_rejected_def default_build_def split: prod.split)
  show "\<exists>fut w'. ?poll = (Pending fut, w') \<and> sw_state (sh_store w') = s' \<and> sw_tick (sh_store w') = Suc (sw_tick (sh_store w)) \<and>
      map parts (sh_served w') = map parts (sh_served w) @ [p] \<and> sh_rejected w' = sh_rejected w" if "p \<noteq> ''a''"
    using admit that sw(1,2) unfolding sw(3)
    by (auto simp: after_store_decide client_future_def client_limit_def recorded_service_defs slow_service_def
        poll_future_as_future poll_step_def ready_bang_def poll_through numeral_2_eq_2 append_context_frame client_request_def)
qed

lemma clients_execution:
  fixes st :: "'s store_world store"
  assumes "\<And>k. st k (cfg_window clients_config) = atomic_store inc clock (\<lambda>_ _. plan) k (cfg_window clients_config)"
    and "plan \<in> {At_Call 0, On_Poll 0 0}"
    and "inc (sw_state sw) (clock (sw_tick sw)) (make_key ''api'' ''a'') (cfg_window clients_config) = (Inr u, s1)"
    and "inc s1 (clock (Suc (sw_tick sw))) (make_key ''api'' ''b'') (cfg_window clients_config) = (Inr u', s2)"
    and "unat (used u) = 1" "unat (used u') = 1"
  shows "\<exists>x. executes clients_service (hosted_limiter (clients_application st))
      \<lparr>sh_store = sw, sh_served = [], sh_rejected = [], sh_rest = ()\<rparr> x \<and>
    sw_tick (sh_store (ex_world x)) = sw_tick sw + 2 \<and> arrivals x = {#client_request ''a'', client_request ''b''#} \<and>
    map parts (sh_served (ex_world x)) = [''b''] \<and> sh_rejected (ex_world x) = [client_request ''a'']"
proof -
  let ?w = "\<lparr>sh_store = sw, sh_served = [], sh_rejected = [], sh_rest = ()\<rparr> :: ('s, string, unit, unit) shared_world"
  let ?rl = "\<lambda>i. hosted_limiter (clients_application st)\<lparr>r_inner := i\<rparr>"
  let ?fut = "\<lambda>i p. as_future list_header_api (hosted_emit (\<lambda>_ w. w)) (recorded_service slow_service) (client_future st i p)"
  let ?x = "\<lambda>i w fs dn. \<lparr>ex_service = ?rl i, ex_world = w, ex_running = fs, ex_done = dn, ex_dropped = []\<rparr>"
  have start: "hosted_limiter (clients_application st) = ?rl 0"
    by (simp add: hosted_limiter_def clients_application_def)
  have arrived: "executes clients_service (?rl 0) ?w (?x (Suc i) w (fs @ [(client_request p, ?fut i p)]) dn)"
    if "executes clients_service (?rl 0) ?w (?x i w fs dn)" for i w fs dn p
    using executes_step [OF that arrives [OF _ client_arrives(2)]] client_arrives(1) [where st = st and i = i and w = w] by simp
  obtain out w1 where a: "poll_future (?fut 0 ''a'') ?w = (Ready out, w1)" "sw_state (sh_store w1) = s1"
    "sw_tick (sh_store w1) = Suc (sw_tick sw)" "sh_served w1 = []" "sh_rejected w1 = [client_request ''a'']"
    using client_outcome(1) [where st = st and inc = inc and clock = clock and plan = "\<lambda>_ _. plan" and w = ?w
        and p = "''a''" and i = 0, OF assms(1) _ _ assms(5) refl] assms(2,3) by auto
  obtain fut w2 where b: "poll_future (?fut 1 ''b'') w1 = (Pending fut, w2)"
    "sw_tick (sh_store w2) = Suc (Suc (sw_tick sw))" "map parts (sh_served w2) = [''b'']"
    "sh_rejected w2 = [client_request ''a'']"
    using client_outcome(2) [where st = st and inc = inc and clock = clock and plan = "\<lambda>_ _. plan" and w = w1
        and p = "''b''" and i = 1, OF assms(1) _ _ assms(6)] assms(2,4) a(2-5) by auto
  have "executes clients_service (?rl 0) ?w (?x 0 ?w [] [])"
    using executes_start [of clients_service "?rl 0" ?w] by (simp add: executor_start_def)
  from arrived [OF this] have "executes clients_service (?rl 0) ?w (?x 1 ?w [(client_request ''a'', ?fut 0 ''a'')] [])" by simp
  from executes_step [OF this polled_ready [where before = "[]" and after = "[]" and w' = w1 and out = out]] a(1)
  have "executes clients_service (?rl 0) ?w (?x 1 w1 [] [(client_request ''a'', out)])" by simp
  from arrived [OF this]
  have "executes clients_service (?rl 0) ?w (?x 2 w1 [(client_request ''b'', ?fut 1 ''b'')] [(client_request ''a'', out)])"
    by (simp add: numeral_2_eq_2)
  from executes_step [OF this polled_pending [where before = "[]" and after = "[]" and w' = w2 and fut' = fut]] b(1)
  have "executes clients_service (?rl 0) ?w (?x 2 w2 [(client_request ''b'', fut)] [(client_request ''a'', out)])" by simp
  then show ?thesis
    using b(2-4) by (subst start) (intro exI, rule conjI, assumption, simp add: arrivals_def add_mset_commute)
qed

context fixed_window_store
begin

lemma first_of_two:
  assumes "invar s" "\<And>t. live s t k = None" "\<And>t. live s t k' = None" "k \<noteq> k'" "0 < cap"
    and "valid ts win" "opens (start ts) win = Some e" "start ts < e"
    and "valid ts' win" "opens (start ts') win = Some e'" "start ts' < e'"
  shows "\<exists>u s1 u' s2. increment s ts k win = (Inr u, s1) \<and> increment s1 ts' k' win = (Inr u', s2) \<and>
    unat (used u) = 1 \<and> unat (used u') = 1"
proof -
  obtain u s1 where i: "increment s ts k win = (Inr u, s1)" "unat (used u) = 1" "invar s1"
    using increment_absent [OF assms(1,6,2,7,8,5)] by blast
  have "live s1 (start ts') k' = None"
    using increment_frame [OF assms(1,6) i(1)] assms(3,4) by metis
  from increment_absent [OF i(3) assms(9) this assms(10,11,5)] i show ?thesis by blast
qed

end

lemma clients_distinct: "make_key ''api'' ''a'' \<noteq> make_key ''api'' ''b''"
  by (simp add: make_key_inject)

theorem memory_application_fair_witness:
  "\<exists>x. executes clients_service (hosted_limiter (clients_application (memory_store map_cache_api sample_clock)))
       \<lparr>sh_store = \<lparr>sw_state = memory_store_new map_cache_api, sw_tick = 0, sw_calls = 0\<rparr>,
        sh_served = [], sh_rejected = [], sh_rest = ()\<rparr> x \<and>
     sh_rejected (ex_world x) = [client_request ''a''] \<and> map parts (sh_served (ex_world x)) = [''b''] \<and>
     filter (\<lambda>q. scoped_key clients_config (parts q) = make_key ''api'' ''b'') (sh_rejected (ex_world x)) = []"
proof -
  let ?sw = "\<lparr>sw_state = memory_store_new map_cache_api, sw_tick = 0, sw_calls = 0\<rparr> :: map_cache store_world"
  let ?st = "memory_store map_cache_api sample_clock" and ?win = "cfg_window clients_config"
  have config: "r_config (clients_application ?st) = clients_config" by (simp add: clients_application_def)
  have inv: "memory_invar map_cache_api (sw_state ?sw)" using mc.invar_new by simp
  have absent: "memory_live map_cache_api (sw_state ?sw) t k = None" for t k
    by (simp add: memory_live_def mc.get_new memory_store_new_def)
  have runs: "clock_runs (\<lambda>ts win. valid_times ts) memory_start memory_fin win sample_clock" for win
    by (rule sample_clock_runs)
  have valid: "valid_times (sample_clock m)" for m using runs by (simp add: clock_runs_def)
  have ends: "\<exists>e. memory_opens (memory_start (sample_clock m)) ?win = Some e \<and> memory_start (sample_clock m) < e" for m
    by (auto simp: sample_clock_def times_at_def memory_opens_def memory_start_def checked_add_def
        clients_config_def instant_max_def Let_def dur_nanos_def)
  obtain e e' where ends01: "memory_opens (memory_start (sample_clock 0)) ?win = Some e" "memory_start (sample_clock 0) < e"
    "memory_opens (memory_start (sample_clock 1)) ?win = Some e'" "memory_start (sample_clock 1) < e'"
    using ends [of 0] ends [of 1] by blast
  obtain u s1 u' s2 where i: "memory_increment map_cache_api (sw_state ?sw) (sample_clock (sw_tick ?sw)) (make_key ''api'' ''a'') ?win = (Inr u, s1)"
    "memory_increment map_cache_api s1 (sample_clock (Suc (sw_tick ?sw))) (make_key ''api'' ''b'') ?win = (Inr u', s2)"
    "unat (used u) = 1" "unat (used u') = 1"
    using fixed_window_store.first_of_two [OF memory_fixed_window [OF map_cache_api_ok],
        OF inv absent absent clients_distinct _ valid ends01(1,2) valid ends01(3,4)] by auto
  obtain x where x: "executes clients_service (hosted_limiter (clients_application ?st))
      \<lparr>sh_store = ?sw, sh_served = [], sh_rejected = [], sh_rest = ()\<rparr> x"
    "sw_tick (sh_store (ex_world x)) = sw_tick ?sw + 2" "arrivals x = {#client_request ''a'', client_request ''b''#}"
    "map parts (sh_served (ex_world x)) = [''b'']" "sh_rejected (ex_world x) = [client_request ''a'']"
    using clients_execution [where st = ?st and sw = ?sw and plan = "At_Call 0"
        and inc = "memory_increment map_cache_api" and clock = sample_clock, OF _ _ i]
    by (auto simp: memory_store_atomic)
  have "filter (\<lambda>q. scoped_key (r_config (clients_application ?st)) (parts q) = make_key ''api'' ''b'')
      (sh_rejected (ex_world x)) = []"
    by (rule memory_application_fair [OF clients_application_ok _ map_cache_api_ok inv runs absent x(1), where n = 1])
      (use ends in \<open>auto simp: config clients_key can_open_def clients_application_def x(3) client_request_def client_limit_def clients_distinct\<close>)
  then show ?thesis using x by (intro exI [of _ x]) (simp add: config)
qed

theorem redis_application_fair_witness:
  "\<exists>x. executes clients_service (hosted_limiter (clients_application
         (redis_store_future True map_redis_api redis_store_new sample_redis_clock (\<lambda>_. (0, 0)))))
       \<lparr>sh_store = \<lparr>sw_state = (\<lambda>_. None), sw_tick = 0, sw_calls = 0\<rparr>,
        sh_served = [], sh_rejected = [], sh_rest = ()\<rparr> x \<and>
     sh_rejected (ex_world x) = [client_request ''a''] \<and> map parts (sh_served (ex_world x)) = [''b''] \<and>
     filter (\<lambda>q. scoped_key clients_config (parts q) = make_key ''api'' ''b'') (sh_rejected (ex_world x)) = []"
proof -
  let ?sw = "\<lparr>sw_state = (\<lambda>_. None), sw_tick = 0, sw_calls = 0\<rparr> :: map_redis store_world"
  let ?st = "redis_store_future True map_redis_api redis_store_new sample_redis_clock (\<lambda>_. (0, 0))"
  let ?win = "cfg_window clients_config"
  have config: "r_config (clients_application ?st) = clients_config" by (simp add: clients_application_def)
  have win: "?win = cfg_window sample_config" by (simp add: clients_config_def sample_config_def)
  have ms: "checked_window_millis ?win = Inr 60000" unfolding win by (simp add: sample_window checked_millis_secs)
  have inv: "redis_invar True map_redis_api redis_store_new (sw_state ?sw)" using empty_redis by simp
  have absent: "redis_live map_redis_api redis_store_new (sw_state ?sw) t k = None" for t k
    by (simp add: redis_live_def map_redis_api_def map_redis_view_def)
  have runs: "clock_runs (redis_valid True) t_first t_first ?win sample_redis_clock"
    unfolding win by (rule sample_redis_clock_runs)
  have valid: "redis_valid True (sample_redis_clock m) ?win" for m using runs by (simp add: clock_runs_def)
  have ends: "redis_opens (t_first (sample_redis_clock m)) ?win = Some (t_first (sample_redis_clock m) + 60000)"
    "t_first (sample_redis_clock m) < t_first (sample_redis_clock m) + 60000" for m
    by (simp_all add: redis_opens_def ms)
  have cap: "0 < nat (horizon True)" by (simp add: horizon_def)
  obtain u s1 u' s2 where i: "redis_increment True map_redis_api redis_store_new (sw_state ?sw)
      (sample_redis_clock (sw_tick ?sw)) (make_key ''api'' ''a'') ?win = (Inr u, s1)"
    "redis_increment True map_redis_api redis_store_new s1 (sample_redis_clock (Suc (sw_tick ?sw)))
      (make_key ''api'' ''b'') ?win = (Inr u', s2)" "unat (used u) = 1" "unat (used u') = 1"
    using fixed_window_store.first_of_two [OF redis_fixed_window [OF map_redis_api_ok],
        OF inv absent absent clients_distinct cap valid ends [of 0] valid ends [of 1]] by auto
  obtain x where x: "executes clients_service (hosted_limiter (clients_application ?st))
      \<lparr>sh_store = ?sw, sh_served = [], sh_rejected = [], sh_rest = ()\<rparr> x"
    "sw_tick (sh_store (ex_world x)) = sw_tick ?sw + 2" "arrivals x = {#client_request ''a'', client_request ''b''#}"
    "map parts (sh_served (ex_world x)) = [''b'']" "sh_rejected (ex_world x) = [client_request ''a'']"
    using clients_execution [where st = ?st and sw = ?sw and plan = "On_Poll 0 0"
        and inc = "redis_increment True map_redis_api redis_store_new" and clock = sample_redis_clock, OF _ _ i]
    by (auto simp: redis_store_atomic [OF ms])
  have "filter (\<lambda>q. scoped_key (r_config (clients_application ?st)) (parts q) = make_key ''api'' ''b'')
      (sh_rejected (ex_world x)) = []"
    by (rule redis_application_fair [OF clients_application_ok _ map_redis_api_ok inv runs [folded config] absent x(1), where n = 1])
      (auto simp: config clients_key clients_application_def x(3) client_request_def client_limit_def clients_distinct horizon_def)
  then show ?thesis using x by (intro exI [of _ x]) (simp add: config)
qed

end
