(* ===== verification/RL_Benchmark.thy ===== *)
theory RL_Benchmark
  imports RL_Examples
begin

text \<open>
  \<open>src/benchmarks/benchmark_server.rs\<close>: the key extractor, the configuration read from the
  environment, the two limiters, the information page and the routes.  The environment and the
  connection to Redis are parameters; parsing the listening address and serving are left out.
\<close>

section \<open>The server\<close>

definition DEFAULT_LIMIT :: u64 where "DEFAULT_LIMIT = 1000000000"
definition DEFAULT_WINDOW_SECS :: u64 where "DEFAULT_WINDOW_SECS = 3600"
definition POLICY_NAME :: string where "POLICY_NAME = ''default-policy''"

definition benchmark_extract ::
  "('p, 'v) request_api \<Rightarrow> ('p, unit) http_request \<Rightarrow> (RateLimitError, string) result" where
  "benchmark_extract api request =
     (case rq_get api (parts request) ''x-bench-key'' of
        Some value \<Rightarrow>
          ok_or (Key ''invalid_benchmark_key'' ''x-bench-key must be valid UTF-8'') (hv_to_str api value)
      | None \<Rightarrow> Inr ''hot'')"

text \<open>\<open>str::parse::<u64>\<close>: an optional plus sign and digits, within the width.\<close>

datatype int_error = Empty | InvalidDigit | PosOverflow

fun parse_digits :: "nat \<Rightarrow> string \<Rightarrow> (int_error, nat) result" where
  "parse_digits n [] = Inr n"
| "parse_digits n (c # cs) =
     (if \<not> is_digit c then Inl InvalidDigit
      else if 2 ^ 64 \<le> n * 10 \<or> 2 ^ 64 \<le> n * 10 + (of_char c - 48) then Inl PosOverflow
      else parse_digits (n * 10 + (of_char c - 48)) cs)"

definition parse_u64 :: "string \<Rightarrow> (int_error, u64) result" where
  "parse_u64 s =
     (if s = [] then Inl Empty
      else if s = ''+'' \<or> s = ''-'' then Inl InvalidDigit
      else map_sum id of_nat (parse_digits 0 (if hd s = CHR ''+'' then tl s else s)))"

datatype env_error = Not_Unicode | Parse_Int int_error

datatype var_error = NotPresent | NotUnicode

definition u64_from_env ::
  "(string \<Rightarrow> (var_error, string) result) \<Rightarrow> string \<Rightarrow> u64 \<Rightarrow> (env_error, u64) result" where
  "u64_from_env env nm fallback =
     (case env nm of
        Inr value \<Rightarrow> (case parse_u64 value of Inl e \<Rightarrow> Inl (Parse_Int e) | Inr n \<Rightarrow> Inr n)
      | Inl NotPresent \<Rightarrow> Inr fallback
      | Inl NotUnicode \<Rightarrow> Inl Not_Unicode)"

definition benchmark_limiter ::
  "('h, 'v) header_api \<Rightarrow> 'r \<Rightarrow> ('p, 'z) request_api \<Rightarrow> u64 \<Rightarrow> u64 \<Rightarrow> 'w store \<Rightarrow>
    (ConfigError, (('w, 'p, string) key_extractor, 'w store, ('w, 'p) limit_provider,
      ('w, 'p, 'b, 'h, 'r) factory, 'p) RateLimitLayer) result" where
  "benchmark_limiter hdr b api lim window_secs st =
     build (with_store st (builder_window (from_secs window_secs) (builder_limit lim
       (builder_policy_name POLICY_NAME
         (layer_builder hdr b (pure_extractor (benchmark_extract api) (\<lambda>k. k)))))))"

text \<open>The rest of \<open>main\<close> up to the listener: which store the Redis limiter counts in, the text of the
  information page, and the routes.\<close>

definition REDIS_IMPLEMENTATION :: "bool \<Rightarrow> string" where
  "REDIS_IMPLEMENTATION redis_lua = (if redis_lua then ''lua'' else ''transaction'')"

definition redis_namespace :: "bool \<Rightarrow> (string \<Rightarrow> (var_error, string) result) \<Rightarrow> string" where
  "redis_namespace redis_lua env =
     (case env ''BENCH_REDIS_NAMESPACE'' of
        Inr value \<Rightarrow> value
      | Inl e \<Rightarrow> ''benchmark-'' @ REDIS_IMPLEMENTATION redis_lua)"

definition benchmark_info :: "bool \<Rightarrow> u64 \<Rightarrow> Duration \<Rightarrow> string \<Rightarrow> string" where
  "benchmark_info redis_lua lim win ns =
     ''redis_benchmark='' @ REDIS_IMPLEMENTATION redis_lua @ [CHR 0x0A] @
     ''policy_name='' @ POLICY_NAME @ [CHR 0x0A] @
     ''limit='' @ show_u64 lim @ [CHR 0x0A] @
     ''window_secs='' @ show_u64 (as_secs win) @ [CHR 0x0A] @
     ''redis_namespace='' @ ns @ [CHR 0x0A]"

definition empty_response :: nat where "empty_response = 204"

datatype benchmark_page = Info_Page string | Status_Page nat

record 'l benchmark_route =
  br_path :: string
  br_page :: benchmark_page
  br_limiter :: "'l option"

definition benchmark_app :: "string \<Rightarrow> 'l \<Rightarrow> 'l \<Rightarrow> 'l benchmark_route list" where
  "benchmark_app info memory_limiter redis_limiter =
     [\<lparr>br_path = ''/info'', br_page = Info_Page info, br_limiter = None\<rparr>,
      \<lparr>br_path = ''/baseline'', br_page = Status_Page empty_response, br_limiter = None\<rparr>,
      \<lparr>br_path = ''/memory'', br_page = Status_Page empty_response, br_limiter = Some memory_limiter\<rparr>,
      \<lparr>br_path = ''/redis'', br_page = Status_Page empty_response, br_limiter = Some redis_limiter\<rparr>]"

datatype 'x benchmark_error =
    Variable env_error
  | No_Redis_Url
  | Connect_Failed 'x
  | Refused ConfigError

text \<open>
  \<open>connect\<close> opens the client and its connection, \<open>memory\<close> is the store of a new \<open>MemoryStore\<close> and
  \<open>redis conn\<close> the one of a \<open>RedisStore\<close> on a connection.  The missing \<open>REDIS_URL\<close> is a panic.
\<close>

definition benchmark_setup ::
  "('h, 'v) header_api \<Rightarrow> 'r \<Rightarrow> ('p, 'z) request_api \<Rightarrow> bool \<Rightarrow> (string \<Rightarrow> (var_error, string) result) \<Rightarrow>
    (string \<Rightarrow> ('x, 'conn) result) \<Rightarrow> 'w store \<Rightarrow> ('conn \<Rightarrow> RedisStore \<Rightarrow> 'w store) \<Rightarrow>
    ('x benchmark_error, (('w, 'p, string) key_extractor, 'w store, ('w, 'p) limit_provider,
      ('w, 'p, 'b, 'h, 'r) factory, 'p) RateLimitLayer benchmark_route list) result" where
  "benchmark_setup hdr b api redis_lua env connect memory redis =
     (case u64_from_env env ''BENCH_LIMIT'' DEFAULT_LIMIT of
        Inl e \<Rightarrow> Inl (Variable e)
      | Inr lim \<Rightarrow>
     (case u64_from_env env ''BENCH_WINDOW_SECS'' DEFAULT_WINDOW_SECS of
        Inl e \<Rightarrow> Inl (Variable e)
      | Inr secs \<Rightarrow>
     (case env ''REDIS_URL'' of
        Inl e \<Rightarrow> Inl No_Redis_Url
      | Inr url \<Rightarrow>
     (case connect url of
        Inl e \<Rightarrow> Inl (Connect_Failed e)
      | Inr conn \<Rightarrow>
          let ns = redis_namespace redis_lua env;
              info = benchmark_info redis_lua lim (from_secs secs) ns
          in (case benchmark_limiter hdr b api lim secs memory of
                Inl e \<Rightarrow> Inl (Refused e)
              | Inr memory_limiter \<Rightarrow>
             (case benchmark_limiter hdr b api lim secs (redis conn (with_namespace redis_store_new ns)) of
                Inl e \<Rightarrow> Inl (Refused e)
              | Inr redis_limiter \<Rightarrow> Inr (benchmark_app info memory_limiter redis_limiter)))))))"

section \<open>Configuration\<close>

text \<open>A configured value that was printed from a number is read back as that number.\<close>

lemma parse_digits_read:
  "list_all is_digit s \<Longrightarrow> foldl (\<lambda>a c. a * 10 + (of_char c - 48)) n s < 2 ^ 64 \<Longrightarrow>
   parse_digits n s = Inr (foldl (\<lambda>a c. a * 10 + (of_char c - 48)) n s)"
proof (induction s arbitrary: n)
  case (Cons c cs)
  let ?n = "n * 10 + (of_char c - 48)"
  have "m \<le> foldl (\<lambda>a c. a * 10 + (of_char c - 48)) m cs" for m :: nat
  proof (induction cs arbitrary: m)
    case (Cons c cs)
    have "m \<le> m * 10 + (of_char c - 48)" by simp
    also have "\<dots> \<le> foldl (\<lambda>a c. a * 10 + (of_char c - 48)) (m * 10 + (of_char c - 48)) cs" by (rule Cons)
    finally show ?case by simp
  qed simp
  from this [of ?n] Cons.prems(2) have "?n < 2 ^ 64" by simp
  then show ?case using Cons by simp
qed simp

lemma parse_show_u64: "parse_u64 (show_u64 n) = Inr n"
proof -
  have digits: "list_all is_digit (show_u64 n)" by (rule show_u64_digits)
  have ne: "show_u64 n \<noteq> []" by (simp add: show_u64_def)
  then have hd: "is_digit (hd (show_u64 n))" using digits by (cases "show_u64 n") simp_all
  have "hd (show_u64 n) \<noteq> CHR ''+''" "show_u64 n \<noteq> ''+''" "show_u64 n \<noteq> ''-''"
    using hd by (auto simp: is_digit_def)
  moreover have "parse_digits 0 (show_u64 n) = Inr (unat n)"
    using parse_digits_read [OF digits, of 0] read_show_u64 [of n] unat_less_64 [of n]
    by (simp add: read_nat_def)
  ultimately show ?thesis using ne by (simp add: parse_u64_def)
qed

text \<open>
  A benchmark configured through its environment: a limit and a window given in decimal are
  used as given, absent ones are the defaults, and the limiters are refused only for a window of
  zero seconds.
\<close>

theorem benchmark_configuration:
  assumes "env ''BENCH_LIMIT'' = Inr (show_u64 lim) \<or> env ''BENCH_LIMIT'' = Inl NotPresent \<and> lim = DEFAULT_LIMIT"
    and "env ''BENCH_WINDOW_SECS'' = Inr (show_u64 secs) \<or>
      env ''BENCH_WINDOW_SECS'' = Inl NotPresent \<and> secs = DEFAULT_WINDOW_SECS"
  shows "u64_from_env env ''BENCH_LIMIT'' DEFAULT_LIMIT = Inr lim \<and>
    u64_from_env env ''BENCH_WINDOW_SECS'' DEFAULT_WINDOW_SECS = Inr secs \<and>
    benchmark_limiter hdr b api lim secs st =
      (if secs = 0 then Inl (ConfigError.WindowTooShort (from_secs 0) (from_millis 1))
       else Inr \<lparr>l_key_extractor = pure_extractor (benchmark_extract api) (\<lambda>k. k), l_store = st,
          l_limit_provider = fixed_limit lim, l_response_factory = default_build hdr b,
          l_config = (example_config ''default-policy'')\<lparr>cfg_window := from_secs secs\<rparr>\<rparr>)"
proof -
  have "from_secs secs < MINIMUM_WINDOW \<longleftrightarrow> secs = 0"
    by (auto simp: window_too_short_iff word_unat_eq_iff)
  then show ?thesis
    using assms
    by (auto simp: u64_from_env_def parse_show_u64 benchmark_limiter_def build_def validate_def builder_defs
        POLICY_NAME_def MINIMUM_WINDOW_def example_config_def default_store_failure_mode_def
        default_rate_limit_fields_def)
qed

theorem benchmark_configuration_witness:
  "u64_from_env (\<lambda>nm. if nm = ''BENCH_LIMIT'' then Inr ''25'' else Inl NotPresent) ''BENCH_LIMIT'' DEFAULT_LIMIT
     = Inr 25"
proof -
  let ?env = "\<lambda>nm. if nm = ''BENCH_LIMIT'' then Inr ''25'' else Inl NotPresent"
  have "show_u64 25 = ''25''" by (simp add: show_u64_def show_nat.simps digit_char_def char_of_def bit_iff_odd)
  then have 1: "?env ''BENCH_LIMIT'' = Inr (show_u64 25) \<or>
      ?env ''BENCH_LIMIT'' = Inl NotPresent \<and> 25 = DEFAULT_LIMIT" by simp
  have 2: "?env ''BENCH_WINDOW_SECS'' = Inr (show_u64 3600) \<or>
      ?env ''BENCH_WINDOW_SECS'' = Inl NotPresent \<and> 3600 = DEFAULT_WINDOW_SECS"
    by (simp add: DEFAULT_WINDOW_SECS_def)
  show ?thesis by (rule conjunct1 [OF benchmark_configuration [OF 1 2]])
qed

text \<open>
  The information page identifies the benchmark: two servers whose pages agree have the same
  implementation, limit, window in seconds and namespace, whatever the namespaces contain.
\<close>

lemma newline_not_digit: "CHR 0x0A \<notin> set (show_u64 n)"
  using show_u64_digits [of n] by (auto simp: list_all_iff is_digit_def)

theorem benchmark_info_inject:
  "benchmark_info lua lim win ns = benchmark_info lua' lim' win' ns' \<longleftrightarrow>
     lua = lua' \<and> lim = lim' \<and> as_secs win = as_secs win' \<and> ns = ns'"
proof
  assume eq: "benchmark_info lua lim win ns = benchmark_info lua' lim' win' ns'"
  have lua: "lua = lua'"
    using eq by (auto simp: benchmark_info_def REDIS_IMPLEMENTATION_def split: if_splits)
  let ?rest = "\<lambda>win ns. ''window_secs='' @ show_u64 (as_secs win) @ CHR 0x0A # ''redis_namespace='' @ ns @ [CHR 0x0A]"
  have "show_u64 lim @ CHR 0x0A # ?rest win ns = show_u64 lim' @ CHR 0x0A # ?rest win' ns'"
    using eq lua by (simp add: benchmark_info_def)
  from split_at_unique [OF this newline_not_digit newline_not_digit]
  have lim: "lim = lim'" and rest: "?rest win ns = ?rest win' ns'" by (simp_all add: show_u64_inject)
  have "show_u64 (as_secs win) @ CHR 0x0A # (''redis_namespace='' @ ns @ [CHR 0x0A]) =
      show_u64 (as_secs win') @ CHR 0x0A # (''redis_namespace='' @ ns' @ [CHR 0x0A])"
    using rest by simp
  from split_at_unique [OF this newline_not_digit newline_not_digit]
  show "lua = lua' \<and> lim = lim' \<and> as_secs win = as_secs win' \<and> ns = ns'"
    using lua lim by (simp add: show_u64_inject)
qed (simp add: benchmark_info_def)

text \<open>
  The two implementations can be benchmarked on one server: with the namespaces they choose by
  themselves, no Redis key of one is a key of the other.
\<close>

theorem benchmark_namespaces_apart:
  assumes "env ''BENCH_REDIS_NAMESPACE'' = Inl e"
  shows "redis_key (with_namespace redis_store_new (redis_namespace True env)) (make_key p c) \<noteq>
    redis_key (with_namespace redis_store_new (redis_namespace False env)) (make_key p' c')"
  using assms
  by (simp add: redis_key_def with_namespace_def format_scoped_inject effective_namespace_def redis_namespace_def
      REDIS_IMPLEMENTATION_def)

text \<open>
  The server as configured: with decimal or absent limit and window, a URL that can be connected
  to and a window that is not zero, the pages \<open>/info\<close> and \<open>/baseline\<close> are not limited, and \<open>/memory\<close> and
  \<open>/redis\<close> are limited with the same policy, limit and window, each on its own store.
\<close>

theorem benchmark_setup_routes:
  assumes "env ''BENCH_LIMIT'' = Inr (show_u64 lim) \<or> env ''BENCH_LIMIT'' = Inl NotPresent \<and> lim = DEFAULT_LIMIT"
    and "env ''BENCH_WINDOW_SECS'' = Inr (show_u64 secs) \<or>
      env ''BENCH_WINDOW_SECS'' = Inl NotPresent \<and> secs = DEFAULT_WINDOW_SECS"
    and "secs \<noteq> 0" "env ''REDIS_URL'' = Inr url" "connect url = Inr conn"
  shows "\<exists>app. benchmark_setup hdr b api redis_lua env connect memory redis = Inr app \<and>
    map br_path app = [''/info'', ''/baseline'', ''/memory'', ''/redis''] \<and>
    map (map_option (\<lambda>l. (cfg_policy_name (l_config l), cfg_window (l_config l), l_store l))) (map br_limiter app) =
      [None, None, Some (POLICY_NAME, from_secs secs, memory),
       Some (POLICY_NAME, from_secs secs, redis conn (with_namespace redis_store_new (redis_namespace redis_lua env)))]"
proof -
  have "u64_from_env env ''BENCH_LIMIT'' DEFAULT_LIMIT = Inr lim"
    "u64_from_env env ''BENCH_WINDOW_SECS'' DEFAULT_WINDOW_SECS = Inr secs"
    using assms(1,2) by (auto simp: u64_from_env_def parse_show_u64)
  moreover have "\<not> from_secs secs < MINIMUM_WINDOW"
    using assms(3) by (auto simp: window_too_short_iff word_unat_eq_iff)
  ultimately show ?thesis
    using assms(4,5) by (simp add: benchmark_setup_def benchmark_app_def benchmark_limiter_def build_def validate_def
        builder_defs Let_def POLICY_NAME_def)
qed

end
