(* ===== verification/RL_Threads.thy ===== *)
theory RL_Threads
  imports Memory_Store
begin

text \<open>
  Threads that call \<open>MemoryStore::increment_usage\<close> at the same time (\<open>src/src/store/memory.rs\<close>).

  A call of the method is taken apart at the points where another thread can come in between and
  at every reading of the clock: the call, the lookup of the key by the cache, the closure, the
  storing of its entry, the final \<open>Instant::now()\<close>.  What \<open>moka\<close> documents of
  \<open>and_try_compute_with\<close> is the guard of the lookup: computations on one key are serialized, so a
  thread starts one only when no other thread is between lookup and storing on that key.  Threads
  on other keys go on meanwhile.  The clock does not go back.
\<close>

section \<open>Definitions\<close>

text \<open>
  How far a call has come, with the readings of the clock so far: not yet at the key; inside
  \<open>and_try_compute_with\<close>, with what was found; with the entry the closure made; after the entry
  was stored; returned.
\<close>

datatype phase =
    Called
  | Entered Instant "Entry option"
  | Computed Instant Instant Entry
  | Stored Instant Instant Instant Entry
  | Returned op_times "(MemoryStoreError, Usage) result"

record thread =
  th_key :: string
  th_window :: Duration
  th_called :: Instant
  th_phase :: phase

text \<open>One stretch of \<open>increment_usage\<close>, at time \<open>t\<close> on the contents \<open>c\<close> of the cache.\<close>

definition advance :: "'c cache_api \<Rightarrow> Instant \<Rightarrow> thread \<Rightarrow> 'c \<Rightarrow> phase \<times> 'c" where
  "advance cache t th c =
     (case th_phase th of
        Called \<Rightarrow> (Entered t (ca_get cache c t (th_key th)), c)
      | Entered t0 found \<Rightarrow>
          (case compute_entry t (th_window th) found of
             Inl err \<Rightarrow> (Returned \<lparr>looked_up_at = t0, now_in_closure = t, stored_at = t, now_at_end = t\<rparr> (Inl err), c)
           | Inr entry \<Rightarrow> (Computed t0 t entry, c))
      | Computed t0 t1 entry \<Rightarrow>
          (case ca_put cache c t (th_key th) entry of
             (None, c') \<Rightarrow>
               (Returned \<lparr>looked_up_at = t0, now_in_closure = t1, stored_at = t, now_at_end = t\<rparr> (Inl FailedToCompute), c')
           | (Some entry', c') \<Rightarrow> (Stored t0 t1 t entry', c'))
      | Stored t0 t1 t2 entry \<Rightarrow>
          (Returned \<lparr>looked_up_at = t0, now_in_closure = t1, stored_at = t2, now_at_end = t\<rparr>
             (Inr \<lparr>used = e_used entry, reset_after = saturating_duration_since (expires_at entry) t\<rparr>), c)
      | Returned ts r \<Rightarrow> (Returned ts r, c))"

fun holding :: "phase \<Rightarrow> bool" where
  "holding (Entered t0 found) = True"
| "holding (Computed t0 t1 entry) = True"
| "holding _ = False"

fun effective :: "phase \<Rightarrow> bool" where
  "effective (Stored t0 t1 t2 entry) = True"
| "effective (Returned ts r) = True"
| "effective _ = False"

fun has_returned :: "phase \<Rightarrow> bool" where
  "has_returned (Returned ts r) = True"
| "has_returned _ = False"

text \<open>
  The threads on one store: its contents, the time of the last event, the threads, and the order
  in which their calls took effect.
\<close>

record 'c machine =
  mc_cache :: 'c
  mc_time :: Instant
  mc_threads :: "thread list"
  mc_log :: "nat list"

definition machine_start :: "'c \<Rightarrow> Instant \<Rightarrow> thread list \<Rightarrow> 'c machine" where
  "machine_start c t ths = \<lparr>mc_cache = c, mc_time = t, mc_threads = ths, mc_log = []\<rparr>"

inductive thread_step :: "'c cache_api \<Rightarrow> 'c machine \<Rightarrow> 'c machine \<Rightarrow> bool" for cache where
  thread_step: "i < length (mc_threads m) \<Longrightarrow> th = mc_threads m ! i \<Longrightarrow> \<not> has_returned (th_phase th) \<Longrightarrow>
     mc_time m \<le> t \<Longrightarrow> th_called th \<le> t \<Longrightarrow> instant_range t \<Longrightarrow>
     (th_phase th = Called \<Longrightarrow>
        \<forall>other \<in> set (mc_threads m). th_key other = th_key th \<longrightarrow> \<not> holding (th_phase other)) \<Longrightarrow>
     advance cache t th (mc_cache m) = (ph, c) \<Longrightarrow>
     thread_step cache m
       \<lparr>mc_cache = c, mc_time = t, mc_threads = (mc_threads m)[i := th\<lparr>th_phase := ph\<rparr>],
        mc_log = (if effective ph \<and> \<not> effective (th_phase th) then mc_log m @ [i] else mc_log m)\<rparr>"

section \<open>Runs\<close>

text \<open>
  The readings and the answer of a call that has taken effect; when it has not returned yet,
  \<open>t\<close> stands for the reading still to come.
\<close>

fun times_of :: "Instant \<Rightarrow> phase \<Rightarrow> op_times" where
  "times_of t Called = \<lparr>looked_up_at = t, now_in_closure = t, stored_at = t, now_at_end = t\<rparr>"
| "times_of t (Entered t0 found) = \<lparr>looked_up_at = t0, now_in_closure = t, stored_at = t, now_at_end = t\<rparr>"
| "times_of t (Computed t0 t1 entry) = \<lparr>looked_up_at = t0, now_in_closure = t1, stored_at = t, now_at_end = t\<rparr>"
| "times_of t (Stored t0 t1 t2 entry) = \<lparr>looked_up_at = t0, now_in_closure = t1, stored_at = t2, now_at_end = t\<rparr>"
| "times_of t (Returned ts r) = ts"

fun answer_of :: "Instant \<Rightarrow> phase \<Rightarrow> (RateLimitError, Usage) result" where
  "answer_of t (Stored t0 t1 t2 entry) =
     Inr \<lparr>used = e_used entry, reset_after = saturating_duration_since (expires_at entry) t\<rparr>"
| "answer_of t (Returned ts r) = map_sum memory_error_into id r"
| "answer_of t _ = Inl (memory_error_into FailedToCompute)"

definition charge_of :: "(nat \<Rightarrow> Instant) \<Rightarrow> thread list \<Rightarrow> nat \<Rightarrow> op_times charge" where
  "charge_of ends ths i = (times_of (ends i) (th_phase (ths ! i)), th_key (ths ! i), th_window (ths ! i))"

text \<open>
  What is true of a thread: its readings are in order and not after the last event, and what it
  found under the key it holds is still what the cache has.
\<close>

definition thread_ok :: "'c cache_api \<Rightarrow> Instant \<Rightarrow> 'c \<Rightarrow> Instant \<Rightarrow> thread \<Rightarrow> bool" where
  "thread_ok cache since c now th \<longleftrightarrow>
     (case th_phase th of
        Called \<Rightarrow> True
      | Entered t0 found \<Rightarrow> since \<le> t0 \<and> th_called th \<le> t0 \<and> t0 \<le> now \<and> instant_range t0 \<and>
          ca_get cache c t0 (th_key th) = found
      | Computed t0 t1 entry \<Rightarrow> since \<le> t0 \<and> th_called th \<le> t0 \<and> t0 \<le> t1 \<and> t1 \<le> now \<and> instant_range t0 \<and>
          compute_entry t1 (th_window th) (ca_get cache c t0 (th_key th)) = Inr entry
      | Stored t0 t1 t2 entry \<Rightarrow> since \<le> t0 \<and> th_called th \<le> t0 \<and> t0 \<le> t1 \<and> t1 \<le> t2 \<and> t2 \<le> now \<and> instant_range t0
      | Returned ts r \<Rightarrow> since \<le> looked_up_at ts \<and> th_called th \<le> looked_up_at ts \<and> valid_times ts \<and> now_at_end ts \<le> now)"

text \<open>
  The invariant of a run.  The calls that took effect are those of the log, and performing them
  in that order, one after the other, gives their answers and the contents of the cache, whatever
  the final readings of those that have not returned will be.  Along the log, effects are in the
  order of time, and on one key each call is looked up after the previous one was stored.
\<close>

abbreviation stored_time :: "thread list \<Rightarrow> nat \<Rightarrow> Instant" where
  "stored_time ths i \<equiv> stored_at (times_of (Instant 0) (th_phase (ths ! i)))"

abbreviation entered_time :: "thread list \<Rightarrow> nat \<Rightarrow> Instant" where
  "entered_time ths i \<equiv> looked_up_at (times_of (Instant 0) (th_phase (ths ! i)))"

definition log_ordered :: "thread list \<Rightarrow> nat list \<Rightarrow> bool" where
  "log_ordered ths ids \<longleftrightarrow>
     sorted_wrt (\<lambda>i j. stored_time ths i \<le> stored_time ths j \<and>
       (th_key (ths ! i) = th_key (ths ! j) \<longrightarrow> stored_time ths i \<le> entered_time ths j)) ids"

definition machine_ok :: "'c cache_api \<Rightarrow> 'c \<Rightarrow> Instant \<Rightarrow> 'c machine \<Rightarrow> bool" where
  "machine_ok cache c0 since m \<longleftrightarrow> since \<le> mc_time m \<and>
     (\<forall>th \<in> set (mc_threads m). thread_ok cache since (mc_cache m) (mc_time m) th) \<and>
     (\<forall>i j. i < length (mc_threads m) \<longrightarrow> j < length (mc_threads m) \<longrightarrow>
        holding (th_phase (mc_threads m ! i)) \<longrightarrow> holding (th_phase (mc_threads m ! j)) \<longrightarrow>
        th_key (mc_threads m ! i) = th_key (mc_threads m ! j) \<longrightarrow> i = j) \<and>
     distinct (mc_log m) \<and>
     set (mc_log m) = {i. i < length (mc_threads m) \<and> effective (th_phase (mc_threads m ! i))} \<and>
     log_ordered (mc_threads m) (mc_log m) \<and>
     (\<forall>i \<in> set (mc_log m). \<forall>j < length (mc_threads m). holding (th_phase (mc_threads m ! j)) \<longrightarrow>
        th_key (mc_threads m ! i) = th_key (mc_threads m ! j) \<longrightarrow>
        stored_time (mc_threads m) i \<le> entered_time (mc_threads m) j) \<and>
     (\<forall>ends. run_charges (memory_increment cache) c0 (map (charge_of ends (mc_threads m)) (mc_log m)) =
        (map (\<lambda>i. answer_of (ends i) (th_phase (mc_threads m ! i))) (mc_log m), mc_cache m))"

lemma machine_okD:
  assumes "machine_ok cache c0 since m"
  shows "since \<le> mc_time m"
    and "i < length (mc_threads m) \<Longrightarrow> thread_ok cache since (mc_cache m) (mc_time m) (mc_threads m ! i)"
    and "i < length (mc_threads m) \<Longrightarrow> j < length (mc_threads m) \<Longrightarrow> holding (th_phase (mc_threads m ! i)) \<Longrightarrow>
      holding (th_phase (mc_threads m ! j)) \<Longrightarrow> th_key (mc_threads m ! i) = th_key (mc_threads m ! j) \<Longrightarrow> i = j"
    and "distinct (mc_log m)"
    and "set (mc_log m) = {i. i < length (mc_threads m) \<and> effective (th_phase (mc_threads m ! i))}"
    and "log_ordered (mc_threads m) (mc_log m)"
    and "i \<in> set (mc_log m) \<Longrightarrow> j < length (mc_threads m) \<Longrightarrow> holding (th_phase (mc_threads m ! j)) \<Longrightarrow>
      th_key (mc_threads m ! i) = th_key (mc_threads m ! j) \<Longrightarrow>
      stored_time (mc_threads m) i \<le> entered_time (mc_threads m) j"
    and "run_charges (memory_increment cache) c0 (map (charge_of ends (mc_threads m)) (mc_log m)) =
      (map (\<lambda>i. answer_of (ends i) (th_phase (mc_threads m ! i))) (mc_log m), mc_cache m)"
  using assms by (simp_all add: machine_ok_def)

lemma machine_ok_start:
  "\<forall>th \<in> set ths. th_phase th = Called \<Longrightarrow> machine_ok cache c t (machine_start c t ths)"
  by (auto simp: machine_ok_def machine_start_def thread_ok_def log_ordered_def)

text \<open>The stretches of a call that has not returned.\<close>

lemma advance_cases:
  assumes "advance cache t th c = (ph, c')" "\<not> has_returned (th_phase th)"
  obtains (enter) "th_phase th = Called" "ph = Entered t (ca_get cache c t (th_key th))" "c' = c"
  | (fail) t0 found err where "th_phase th = Entered t0 found" "compute_entry t (th_window th) found = Inl err"
      "ph = Returned \<lparr>looked_up_at = t0, now_in_closure = t, stored_at = t, now_at_end = t\<rparr> (Inl err)" "c' = c"
  | (compute) t0 found entry where "th_phase th = Entered t0 found"
      "compute_entry t (th_window th) found = Inr entry" "ph = Computed t0 t entry" "c' = c"
  | (lost) t0 t1 entry where "th_phase th = Computed t0 t1 entry" "ca_put cache c t (th_key th) entry = (None, c')"
      "ph = Returned \<lparr>looked_up_at = t0, now_in_closure = t1, stored_at = t, now_at_end = t\<rparr> (Inl FailedToCompute)"
  | (store) t0 t1 entry entry' where "th_phase th = Computed t0 t1 entry"
      "ca_put cache c t (th_key th) entry = (Some entry', c')" "ph = Stored t0 t1 t entry'"
  | (give) t0 t1 t2 entry where "th_phase th = Stored t0 t1 t2 entry"
      "ph = Returned \<lparr>looked_up_at = t0, now_in_closure = t1, stored_at = t2, now_at_end = t\<rparr>
         (Inr \<lparr>used = e_used entry, reset_after = saturating_duration_since (expires_at entry) t\<rparr>)" "c' = c"
proof (cases "th_phase th")
  case Called
  with assms(1) show thesis by (intro enter) (auto simp: advance_def)
next
  case (Entered t0 found)
  show thesis
  proof (cases "compute_entry t (th_window th) found")
    case (Inl err)
    with Entered assms(1) show thesis by (intro fail) (auto simp: advance_def)
  next
    case (Inr entry)
    with Entered assms(1) show thesis by (intro compute) (auto simp: advance_def)
  qed
next
  case (Computed t0 t1 entry)
  obtain r c1 where put: "ca_put cache c t (th_key th) entry = (r, c1)" by (rule prod.exhaust)
  show thesis
  proof (cases r)
    case None
    with Computed put assms(1) show thesis by (intro lost) (auto simp: advance_def)
  next
    case (Some entry')
    with Computed put assms(1) show thesis by (intro store) (auto simp: advance_def)
  qed
next
  case (Stored t0 t1 t2 entry)
  with assms(1) show thesis by (intro give) (auto simp: advance_def)
next
  case (Returned ts r)
  then show thesis using assms(2) by simp
qed

text \<open>The contents of the cache change only when an entry is stored, and then for that key only.\<close>

lemma advance_cache:
  assumes "advance cache t th c = (ph, c')" "\<not> has_returned (th_phase th)"
  shows "c' = c \<or> (\<exists>entry. holding (th_phase th) \<and> c' = snd (ca_put cache c t (th_key th) entry))"
  by (cases rule: advance_cases [OF assms]) (simp_all, metis snd_conv, metis snd_conv)

text \<open>
  A stretch that takes effect is, together with those before it, one increment of the store: the
  answer is that of \<open>memory_increment\<close> on the contents at that moment.
\<close>

lemma advance_effect:
  assumes "advance cache t th c = (ph, c')" "\<not> has_returned (th_phase th)" "thread_ok cache since c now th"
    and "effective ph" "\<not> effective (th_phase th)"
  shows "memory_increment cache c (times_of t' ph) (th_key th) (th_window th) = (answer_of t' ph, c')"
  using assms(3-)
  by (cases rule: advance_cases [OF assms(1,2)])
    (auto simp: thread_ok_def memory_increment_def increment_usage_def)

lemma advance_returns:
  assumes "advance cache t th c = (ph, c')" "\<not> has_returned (th_phase th)" "effective (th_phase th)"
  shows "times_of t' ph = times_of t (th_phase th)" "answer_of t' ph = answer_of t (th_phase th)"
    "effective ph" "c' = c"
  using assms(3) by (cases rule: advance_cases [OF assms(1,2)]; simp)+

lemma advance_holding:
  assumes "advance cache t th c = (ph, c')" "\<not> has_returned (th_phase th)" "holding ph"
  shows "th_phase th = Called \<and> looked_up_at (times_of t' ph) = t \<or>
    holding (th_phase th) \<and> looked_up_at (times_of t' ph) = looked_up_at (times_of t' (th_phase th))"
  using assms(3) by (cases rule: advance_cases [OF assms(1,2)]; simp)

lemma advance_stored:
  assumes "advance cache t th c = (ph, c')" "\<not> has_returned (th_phase th)" "effective ph" "\<not> effective (th_phase th)"
  shows "stored_at (times_of t' ph) = t" "holding (th_phase th)"
    "looked_up_at (times_of t' ph) = looked_up_at (times_of t' (th_phase th))"
  using assms(3,4) by (cases rule: advance_cases [OF assms(1,2)]; simp)+

lemma advance_thread_ok:
  assumes "advance cache t th c = (ph, c')" "\<not> has_returned (th_phase th)" "thread_ok cache since c now th"
    and "since \<le> now" "now \<le> t" "th_called th \<le> t" "instant_range t"
  shows "thread_ok cache since c' t (th\<lparr>th_phase := ph\<rparr>)"
  using assms(3-) by (cases rule: advance_cases [OF assms(1,2)]) (auto simp: thread_ok_def valid_times_def)

lemma thread_ok_later:
  assumes "thread_ok cache since c now th" "now \<le> now'"
    and "holding (th_phase th) \<Longrightarrow> \<forall>t. ca_get cache c' t (th_key th) = ca_get cache c t (th_key th)"
  shows "thread_ok cache since c' now' th"
  using assms by (cases "th_phase th") (auto simp: thread_ok_def)

lemma effective_times:
  assumes "effective ph"
  shows "stored_at (times_of t ph) = stored_at (times_of t' ph)" "looked_up_at (times_of t ph) = looked_up_at (times_of t' ph)"
  using assms by (cases ph; simp)+

lemma thread_ok_stored:
  "thread_ok cache since c now th \<Longrightarrow> effective (th_phase th) \<Longrightarrow> stored_at (times_of t (th_phase th)) \<le> now"
  by (cases "th_phase th") (auto simp: thread_ok_def valid_times_def)

text \<open>A step in the middle of a run: thread \<open>i\<close> goes on at \<open>t\<close>.\<close>

locale running = expiring_cache +
  fixes c0 :: 'a and since :: Instant and m :: "'a machine" and i :: nat and t :: Instant and ph :: phase and c' :: 'a
  assumes ok: "machine_ok cache c0 since m"
    and index: "i < length (mc_threads m)"
    and unfinished: "\<not> has_returned (th_phase (mc_threads m ! i))"
    and later: "mc_time m \<le> t" "th_called (mc_threads m ! i) \<le> t" "instant_range t"
    and free: "th_phase (mc_threads m ! i) = Called \<Longrightarrow>
      \<forall>other \<in> set (mc_threads m). th_key other = th_key (mc_threads m ! i) \<longrightarrow> \<not> holding (th_phase other)"
    and advanced: "advance cache t (mc_threads m ! i) (mc_cache m) = (ph, c')"
begin

definition ths' :: "thread list" where
  "ths' = (mc_threads m)[i := (mc_threads m ! i)\<lparr>th_phase := ph\<rparr>]"

lemma ths'_nth: "j < length (mc_threads m) \<Longrightarrow>
    ths' ! j = (if j = i then (mc_threads m ! i)\<lparr>th_phase := ph\<rparr> else mc_threads m ! j)"
  by (simp add: ths'_def nth_list_update)

lemma length_ths' [simp]: "length ths' = length (mc_threads m)"
  by (simp add: ths'_def)

lemma key' [simp]: "j < length (mc_threads m) \<Longrightarrow> th_key (ths' ! j) = th_key (mc_threads m ! j)"
  and window' [simp]: "j < length (mc_threads m) \<Longrightarrow> th_window (ths' ! j) = th_window (mc_threads m ! j)"
  and called' [simp]: "j < length (mc_threads m) \<Longrightarrow> th_called (ths' ! j) = th_called (mc_threads m ! j)"
  by (simp_all add: ths'_nth)

lemma phase': "j < length (mc_threads m) \<Longrightarrow>
    th_phase (ths' ! j) = (if j = i then ph else th_phase (mc_threads m ! j))"
  by (simp add: ths'_nth)

lemma threads_ok': "j < length (mc_threads m) \<Longrightarrow> thread_ok cache since c' t (ths' ! j)"
proof (cases "j = i")
  case True
  then show ?thesis
    using advance_thread_ok [OF advanced unfinished machine_okD(2) [OF ok index] machine_okD(1) [OF ok] later]
    by (simp add: ths'_nth index)
next
  case False
  assume j: "j < length (mc_threads m)"
  have "\<forall>t'. ca_get cache c' t' (th_key (mc_threads m ! j)) = ca_get cache (mc_cache m) t' (th_key (mc_threads m ! j))"
    if h: "holding (th_phase (mc_threads m ! j))"
  proof (cases "th_key (mc_threads m ! j) = th_key (mc_threads m ! i)")
    case True
    then have "\<not> holding (th_phase (mc_threads m ! i))" using machine_okD(3) [OF ok j index h] False by blast
    then have "c' = mc_cache m" using advance_cache [OF advanced unfinished] by auto
    then show ?thesis by simp
  qed (use advance_cache [OF advanced unfinished] get_put_other in metis)
  then show ?thesis
    using thread_ok_later [OF machine_okD(2) [OF ok j] later(1)] j False by (simp add: ths'_nth)
qed

lemma exclusive':
  assumes "j < length (mc_threads m)" "l < length (mc_threads m)" "holding (th_phase (ths' ! j))"
    "holding (th_phase (ths' ! l))" "th_key (ths' ! j) = th_key (ths' ! l)"
  shows "j = l"
proof -
  have other: "i = x"
    if x: "x < length (mc_threads m)" "x \<noteq> i" "holding (th_phase (mc_threads m ! x))"
      "th_key (mc_threads m ! x) = th_key (mc_threads m ! i)" "holding ph" for x
  proof (cases "th_phase (mc_threads m ! i) = Called")
    case True
    then show ?thesis using free x nth_mem [OF x(1)] by blast
  next
    case False
    then have "holding (th_phase (mc_threads m ! i))" using advance_holding [OF advanced unfinished x(5)] by blast
    from machine_okD(3) [OF ok index x(1) this x(3)] x(4) show ?thesis by simp
  qed
  show ?thesis
    using assms other [of j] other [of l] machine_okD(3) [OF ok assms(1,2)]
    by (cases "j = i"; cases "l = i") (auto simp: phase')
qed

definition log' :: "nat list" where
  "log' = (if effective ph \<and> \<not> effective (th_phase (mc_threads m ! i)) then mc_log m @ [i] else mc_log m)"

lemma effective': "effective (th_phase (mc_threads m ! i)) \<Longrightarrow> effective ph"
  using advance_returns(3) [OF advanced unfinished] .

lemma log'_set: "set log' = {j. j < length ths' \<and> effective (th_phase (ths' ! j))}"
proof (intro set_eqI)
  fix j
  show "j \<in> set log' \<longleftrightarrow> j \<in> {j. j < length ths' \<and> effective (th_phase (ths' ! j))}"
    using effective' index
    by (cases "j = i"; cases "j < length (mc_threads m)") (auto simp: log'_def machine_okD(5) [OF ok] phase')
qed

lemma log'_distinct: "distinct log'"
  using machine_okD(4,5) [OF ok] by (auto simp: log'_def)

lemma logged: "j \<in> set (mc_log m) \<Longrightarrow> j < length (mc_threads m) \<and> effective (th_phase (mc_threads m ! j))"
  using machine_okD(5) [OF ok] by simp

text \<open>What the log says of the calls in it does not change when one of them returns.\<close>

lemma logged_times:
  assumes "j \<in> set (mc_log m)"
  shows "stored_time ths' j = stored_time (mc_threads m) j" "entered_time ths' j = entered_time (mc_threads m) j"
    "th_key (ths' ! j) = th_key (mc_threads m ! j)"
proof -
  have j: "j < length (mc_threads m)" "effective (th_phase (mc_threads m ! j))" using logged [OF assms] by simp_all
  note same = effective_times [OF j(2), of t "Instant 0"]
  have "times_of (Instant 0) (th_phase (ths' ! j)) = times_of t (th_phase (mc_threads m ! j)) \<or>
      times_of (Instant 0) (th_phase (ths' ! j)) = times_of (Instant 0) (th_phase (mc_threads m ! j))"
    using advance_returns(1) [OF advanced unfinished, of "Instant 0"] j by (cases "j = i") (simp_all add: phase')
  then show "stored_time ths' j = stored_time (mc_threads m) j" "entered_time ths' j = entered_time (mc_threads m) j"
    using same by (elim disjE; simp only:)+
  show "th_key (ths' ! j) = th_key (mc_threads m ! j)" by (rule key' [OF j(1)])
qed

lemma stored_before:
  assumes "j \<in> set (mc_log m)"
  shows "stored_time (mc_threads m) j \<le> mc_time m"
  by (rule thread_ok_stored [OF machine_okD(2) [OF ok]]) (use logged [OF assms] in simp_all)

end

context running
begin

lemma log_ordered': "log_ordered ths' log'"
proof -
  have old: "log_ordered ths' (mc_log m)"
    using machine_okD(6) [OF ok] unfolding log_ordered_def
    by (rule sorted_wrt_mono_rel [rotated]) (simp add: logged_times)
  show ?thesis
  proof (cases "effective ph \<and> \<not> effective (th_phase (mc_threads m ! i))")
    case True
    have e: "effective ph" "\<not> effective (th_phase (mc_threads m ! i))" using True by simp_all
    note s = advance_stored(1) [OF advanced unfinished e, of "Instant 0"] advance_stored(2) [OF advanced unfinished e]
      advance_stored(3) [OF advanced unfinished e, of "Instant 0"]
    have "stored_time ths' j \<le> stored_time ths' i \<and>
        (th_key (ths' ! j) = th_key (ths' ! i) \<longrightarrow> stored_time ths' j \<le> entered_time ths' i)" if j: "j \<in> set (mc_log m)" for j
      using stored_before [OF j] later(1) machine_okD(7) [OF ok j index s(2)] s(1,3) logged_times [OF j]
      by (simp add: phase' index)
    then show ?thesis using old True by (simp add: log'_def log_ordered_def sorted_wrt_append)
  next
    case False
    then have "log' = mc_log m" by (auto simp: log'_def)
    then show ?thesis using old by (simp only:)
  qed
qed

lemma holders_wait':
  assumes "j \<in> set log'" "l < length (mc_threads m)" "holding (th_phase (ths' ! l))" "th_key (ths' ! j) = th_key (ths' ! l)"
  shows "stored_time ths' j \<le> entered_time ths' l"
proof (cases "j \<in> set (mc_log m)")
  case True
  note j = logged_times [OF True] stored_before [OF True]
  have eff: "j < length (mc_threads m)" using logged [OF True] by simp
  show ?thesis
  proof (cases "l = i")
    case l: True
    then have h: "holding ph" using assms(2,3) by (simp add: phase')
    from advance_holding [OF advanced unfinished h, of "Instant 0"] show ?thesis
    proof
      assume "th_phase (mc_threads m ! i) = Called \<and> looked_up_at (times_of (Instant 0) ph) = t"
      then show ?thesis using j later(1) l index by (simp add: phase')
    next
      assume "holding (th_phase (mc_threads m ! i)) \<and>
        looked_up_at (times_of (Instant 0) ph) = looked_up_at (times_of (Instant 0) (th_phase (mc_threads m ! i)))"
      then show ?thesis
        using machine_okD(7) [OF ok True index] j l index assms(4) by (simp add: phase')
    qed
  next
    case False
    then show ?thesis
      using machine_okD(7) [OF ok True assms(2)] j assms(2-4) by (simp add: phase')
  qed
next
  case False
  then have i: "j = i" "effective ph" "\<not> effective (th_phase (mc_threads m ! i))"
    using assms(1) by (simp_all add: log'_def split: if_splits)
  have "\<not> holding ph" using i(2) by (cases ph) simp_all
  then have l: "l \<noteq> i" using assms(2,3) by (auto simp: phase')
  have "l = i"
    using machine_okD(3) [OF ok assms(2) index] advance_stored(2) [OF advanced unfinished i(2,3)] assms(2-4) i(1) l index
    by (simp add: phase')
  then show ?thesis using l by simp
qed

text \<open>The run of the store that the log stands for, carried on by a step.\<close>

lemma run':
  "run_charges (memory_increment cache) c0 (map (charge_of ends ths') log') =
     (map (\<lambda>j. answer_of (ends j) (th_phase (ths' ! j))) log', c')"
proof (cases "effective (th_phase (mc_threads m ! i))")
  case True
  note r = advance_returns [OF advanced unfinished True]
  have "charge_of ends ths' j = charge_of (ends(i := t)) (mc_threads m) j"
    "answer_of (ends j) (th_phase (ths' ! j)) = answer_of ((ends(i := t)) j) (th_phase (mc_threads m ! j))"
    if "j \<in> set (mc_log m)" for j
    using logged [OF that] r(1,2) by (simp_all add: charge_of_def phase')
  then have same: "map (charge_of ends ths') (mc_log m) = map (charge_of (ends(i := t)) (mc_threads m)) (mc_log m)"
    "map (\<lambda>j. answer_of (ends j) (th_phase (ths' ! j))) (mc_log m) =
      map (\<lambda>j. answer_of ((ends(i := t)) j) (th_phase (mc_threads m ! j))) (mc_log m)"
    by (simp_all cong: map_cong)
  have "log' = mc_log m" using True by (simp add: log'_def)
  then show ?thesis unfolding same r(4) by (simp only: same machine_okD(8) [OF ok])
next
  case False
  have "j \<noteq> i" if "j \<in> set (mc_log m)" for j using logged [OF that] False by blast
  then have "map (charge_of ends ths') (mc_log m) = map (charge_of ends (mc_threads m)) (mc_log m)"
    "map (\<lambda>j. answer_of (ends j) (th_phase (ths' ! j))) (mc_log m) =
      map (\<lambda>j. answer_of (ends j) (th_phase (mc_threads m ! j))) (mc_log m)"
    using logged by (auto simp: charge_of_def phase')
  then have old: "run_charges (memory_increment cache) c0 (map (charge_of ends ths') (mc_log m)) =
      (map (\<lambda>j. answer_of (ends j) (th_phase (ths' ! j))) (mc_log m), mc_cache m)"
    by (simp only: machine_okD(8) [OF ok])
  show ?thesis
  proof (cases "effective ph")
    case e: True
    have "run_charges (memory_increment cache) (mc_cache m) [charge_of ends ths' i] =
        ([answer_of (ends i) (th_phase (ths' ! i))], c')"
      using advance_effect [OF advanced unfinished machine_okD(2) [OF ok index] e False]
      by (simp add: charge_of_def phase' index)
    from run_charges_append [OF old this] show ?thesis using e False by (simp add: log'_def)
  next
    case e: False
    have "c' = mc_cache m"
      using e False by (cases rule: advance_cases [OF advanced unfinished]) simp_all
    then show ?thesis using old e by (simp add: log'_def)
  qed
qed

lemma step_ok: "machine_ok cache c0 since \<lparr>mc_cache = c', mc_time = t, mc_threads = ths', mc_log = log'\<rparr>"
  unfolding machine_ok_def
proof (intro conjI allI ballI impI)
  show "thread_ok cache since (mc_cache \<lparr>mc_cache = c', mc_time = t, mc_threads = ths', mc_log = log'\<rparr>)
      (mc_time \<lparr>mc_cache = c', mc_time = t, mc_threads = ths', mc_log = log'\<rparr>) th"
    if "th \<in> set (mc_threads \<lparr>mc_cache = c', mc_time = t, mc_threads = ths', mc_log = log'\<rparr>)" for th
    using that threads_ok' by (auto simp: in_set_conv_nth)
qed (use machine_okD(1) [OF ok] later(1) exclusive' log'_distinct log'_set log_ordered' holders_wait' run' in \<open>simp_all\<close>)

end

lemma machine_ok_step:
  assumes "cache_api_ok cache" "machine_ok cache c0 since m" "thread_step cache m m'"
  shows "machine_ok cache c0 since m'"
  using assms(3)
proof cases
  case (thread_step i th t ph c)
  have run: "running cache c0 since m i t ph c"
    using assms(1,2) thread_step by (simp add: running_def running_axioms_def expiring_cache_def)
  from running.step_ok [OF run] show ?thesis
    by (simp add: thread_step running.ths'_def [OF run] running.log'_def [OF run])
qed

lemma machine_ok_run:
  assumes "cache_api_ok cache" "\<forall>th \<in> set ths. th_phase th = Called" "(thread_step cache)\<^sup>*\<^sup>* (machine_start c t ths) m"
  shows "machine_ok cache c t m"
  using assms(3)
proof (induction rule: rtranclp_induct)
  case base
  show ?case by (rule machine_ok_start [OF assms(2)])
next
  case (step m m')
  from step(3,2) show ?case by (rule machine_ok_step [OF assms(1)])
qed

text \<open>The threads, their keys, windows and the times of their calls stay the same.\<close>

lemma run_calls:
  assumes "\<forall>th \<in> set ths. th_phase th = Called" "(thread_step cache)\<^sup>*\<^sup>* (machine_start c t ths) m"
  shows "map (\<lambda>th. th\<lparr>th_phase := Called\<rparr>) (mc_threads m) = ths"
  using assms(2)
proof (induction rule: rtranclp_induct)
  case base
  have "th\<lparr>th_phase := Called\<rparr> = th" if "th \<in> set ths" for th using assms(1) that by (auto intro: thread.equality)
  then show ?case by (simp add: machine_start_def map_idI)
next
  case (step m m')
  from step(2) show ?case
  proof cases
    case (thread_step i th t ph c)
    have "(mc_threads m ! i)\<lparr>th_phase := Called\<rparr> = ths ! i" using thread_step(2) by (simp add: step(3) [symmetric])
    then show ?thesis using step(3) thread_step(1,3) by (simp add: map_update)
  qed
qed

lemma run_call:
  assumes "\<forall>th \<in> set ths. th_phase th = Called" "(thread_step cache)\<^sup>*\<^sup>* (machine_start c t ths) m"
  shows "length (mc_threads m) = length ths"
    and "i < length ths \<Longrightarrow> th_key (mc_threads m ! i) = th_key (ths ! i) \<and>
      th_window (mc_threads m ! i) = th_window (ths ! i) \<and> th_called (mc_threads m ! i) = th_called (ths ! i)"
proof -
  note calls = run_calls [OF assms]
  show len: "length (mc_threads m) = length ths" using arg_cong [OF calls, of length] by simp
  assume "i < length ths"
  then have "ths ! i = (mc_threads m ! i)\<lparr>th_phase := Called\<rparr>"
    using arg_cong [OF calls, of "\<lambda>xs. xs ! i"] len by simp
  then show "th_key (mc_threads m ! i) = th_key (ths ! i) \<and>
      th_window (mc_threads m ! i) = th_window (ths ! i) \<and> th_called (mc_threads m ! i) = th_called (ths ! i)" by simp
qed

text \<open>All the invariant says of a run in which every call has returned.\<close>

lemma returned_run:
  assumes "cache_api_ok cache" "\<forall>th \<in> set ths. th_phase th = Called"
    and "(thread_step cache)\<^sup>*\<^sup>* (machine_start c t ths) m"
    and "\<forall>i < length ths. th_phase (mc_threads m ! i) = Returned (ts i) (rs i)"
  shows "distinct (mc_log m)" "set (mc_log m) = {..<length ths}"
    and "run_charges (memory_increment cache) c (map (\<lambda>i. (ts i, th_key (ths ! i), th_window (ths ! i))) (mc_log m)) =
      (map (\<lambda>i. map_sum memory_error_into id (rs i)) (mc_log m), mc_cache m)"
    and "i < length ths \<Longrightarrow> valid_times (ts i) \<and> t \<le> looked_up_at (ts i) \<and> th_called (ths ! i) \<le> looked_up_at (ts i) \<and>
      now_at_end (ts i) \<le> mc_time m"
    and "sorted_wrt (\<lambda>i j. stored_at (ts i) \<le> stored_at (ts j) \<and>
      (th_key (ths ! i) = th_key (ths ! j) \<longrightarrow> stored_at (ts i) \<le> looked_up_at (ts j))) (mc_log m)"
proof -
  note ok = machine_ok_run [OF assms(1-3)] and call = run_call [OF assms(2,3)]
  show "distinct (mc_log m)" by (rule machine_okD(4) [OF ok])
  show ids: "set (mc_log m) = {..<length ths}"
    unfolding machine_okD(5) [OF ok] using assms(4) by (auto simp: call(1))
  have "map (charge_of (\<lambda>_. t) (mc_threads m)) (mc_log m) =
      map (\<lambda>i. (ts i, th_key (ths ! i), th_window (ths ! i))) (mc_log m)"
    "map (\<lambda>i. answer_of ((\<lambda>_. t) i) (th_phase (mc_threads m ! i))) (mc_log m) =
      map (\<lambda>i. map_sum memory_error_into id (rs i)) (mc_log m)"
    using ids assms(4) call(2) by (auto simp: charge_of_def)
  with machine_okD(8) [OF ok, of "\<lambda>_. t"]
  show "run_charges (memory_increment cache) c (map (\<lambda>i. (ts i, th_key (ths ! i), th_window (ths ! i))) (mc_log m)) =
      (map (\<lambda>i. map_sum memory_error_into id (rs i)) (mc_log m), mc_cache m)" by (simp only:)
  show "sorted_wrt (\<lambda>i j. stored_at (ts i) \<le> stored_at (ts j) \<and>
      (th_key (ths ! i) = th_key (ths ! j) \<longrightarrow> stored_at (ts i) \<le> looked_up_at (ts j))) (mc_log m)"
    using machine_okD(6) [OF ok] unfolding log_ordered_def
    by (rule sorted_wrt_mono_rel [rotated]) (use ids assms(4) call(2) in simp)
  show "valid_times (ts i) \<and> t \<le> looked_up_at (ts i) \<and> th_called (ths ! i) \<le> looked_up_at (ts i) \<and>
      now_at_end (ts i) \<le> mc_time m" if "i < length ths"
    using machine_okD(2) [OF ok, of i] that assms(4) call by (simp add: thread_ok_def)
qed

section \<open>Properties\<close>

text \<open>
  C34.  Threads that increment one in-process store at the same time, on any keys, interleaved in
  any way the serialization of computations on one key allows: once all calls have returned, they
  gave the answers, and left the contents, of the same increments made one after the other in some
  order.  That order respects time: a call that had returned before another was made comes
  before it.  Each call reads the clock only after it got hold of its key: on one key, all four
  readings of a later increment come after the entry of the earlier one was stored.  So a call
  that had to wait while the old window ended opens a window that has its full length from then
  on.
\<close>

theorem threads_linearize:
  assumes "cache_api_ok cache" "\<forall>th \<in> set ths. th_phase th = Called"
    and "(thread_step cache)\<^sup>*\<^sup>* (machine_start c t ths) m"
    and "\<forall>i < length ths. th_phase (mc_threads m ! i) = Returned (ts i) (rs i)"
  shows "\<exists>order. distinct order \<and> set order = {..<length ths} \<and>
    run_charges (memory_increment cache) c (map (\<lambda>i. (ts i, th_key (ths ! i), th_window (ths ! i))) order) =
      (map (\<lambda>i. map_sum memory_error_into id (rs i)) order, mc_cache m) \<and>
    (\<forall>i < length ths. valid_times (ts i) \<and> th_called (ths ! i) \<le> looked_up_at (ts i)) \<and>
    (\<forall>a b. a < b \<longrightarrow> b < length order \<longrightarrow>
       \<not> now_at_end (ts (order ! b)) < th_called (ths ! (order ! a)) \<and>
       (th_key (ths ! (order ! a)) = th_key (ths ! (order ! b)) \<longrightarrow>
          stored_at (ts (order ! a)) \<le> looked_up_at (ts (order ! b)) \<and>
          looked_up_at (ts (order ! b)) \<le> now_in_closure (ts (order ! b))))"
proof -
  note run = returned_run [OF assms]
  have order: "stored_at (ts (mc_log m ! a)) \<le> stored_at (ts (mc_log m ! b))"
    "th_key (ths ! (mc_log m ! a)) = th_key (ths ! (mc_log m ! b)) \<Longrightarrow>
       stored_at (ts (mc_log m ! a)) \<le> looked_up_at (ts (mc_log m ! b))"
    "mc_log m ! a < length ths" "mc_log m ! b < length ths" if "a < b" "b < length (mc_log m)" for a b
    using sorted_wrt_nth_less [OF run(5) that] run(2) that nth_mem [of a "mc_log m"] nth_mem [of b "mc_log m"] by auto
  have "\<not> now_at_end (ts (mc_log m ! b)) < th_called (ths ! (mc_log m ! a)) \<and>
       (th_key (ths ! (mc_log m ! a)) = th_key (ths ! (mc_log m ! b)) \<longrightarrow>
          stored_at (ts (mc_log m ! a)) \<le> looked_up_at (ts (mc_log m ! b)) \<and>
          looked_up_at (ts (mc_log m ! b)) \<le> now_in_closure (ts (mc_log m ! b)))"
    if "a < b" "b < length (mc_log m)" for a b
    using order [OF that] run(4) [OF order(3) [OF that]] run(4) [OF order(4) [OF that]]
    by (auto simp: valid_times_def)
  then show ?thesis using run(1-4) by (intro exI [of _ "mc_log m"]) blast
qed

section \<open>Counts across threads\<close>

text \<open>The charges of a list of threads, restricted to one key.\<close>

lemma results_of_map:
  "results_of k (map (\<lambda>i. (ts i, key i, win i)) xs) (map r xs) = map r (filter (\<lambda>i. key i = k) xs)"
  by (induction xs) simp_all

lemma charges_on_map: "charges_on k (map (\<lambda>i. (ts i, key i, win i)) xs) = length (filter (\<lambda>i. key i = k) xs)"
  by (induction xs) simp_all

lemma key_order_map:
  assumes "sorted_wrt (\<lambda>i j. key i = key j \<longrightarrow> fin (ts i) \<le> start (ts j)) xs"
    and "\<forall>i \<in> set xs. start (ts i) \<le> fin (ts i) \<and> (key i = k \<longrightarrow> t \<le> start (ts i))"
  shows "key_order start fin k t (map (\<lambda>i. (ts i, key i, win i)) xs)"
  using assms by (induction xs arbitrary: t) auto

text \<open>If the usages of one key count up from one, each thread got its own count.\<close>

lemma counted_results:
  assumes "counts_of k cs rs = [1..<Suc (charges_on k cs)]" "cs = map (\<lambda>i. (ts i, key i, win i)) xs" "rs = map r xs"
    and "distinct xs"
  defines "I \<equiv> {i \<in> set xs. key i = k}"
  shows "\<forall>i \<in> I. \<exists>u. r i = Inr u" "bij_betw (\<lambda>i. unat (used (projr (r i)))) I {1..card I}"
proof -
  let ?xs = "filter (\<lambda>i. key i = k) xs" and ?us = "usages_of k cs rs"
  have I: "set ?xs = I" "distinct ?xs" using assms(4) by (auto simp: I_def)
  have n: "charges_on k cs = length ?xs" by (simp add: assms(2) charges_on_map)
  have used: "map (\<lambda>u. unat (used u)) ?us = [1..<Suc (length ?xs)]" using assms(1) by (simp add: counts_of_def n)
  then have "length ?us = length ?xs" by (metis length_map length_upt diff_Suc_1)
  then have "results_of k cs rs = map Inr ?us"
    by (intro results_of_usages) (simp add: assms(2,3) results_of_map)
  then have r: "map r ?xs = map Inr ?us" by (simp add: assms(2,3) results_of_map)
  then have "r i \<in> set (map Inr ?us)" if "i \<in> I" for i using that I(1) by (metis image_eqI set_map)
  then show "\<forall>i \<in> I. \<exists>u. r i = Inr u" by auto
  have "map (\<lambda>i. unat (used (projr (r i)))) ?xs = [1..<Suc (length ?xs)]"
    using used arg_cong [OF r, of "map (\<lambda>x. unat (used (projr x)))"] by (simp add: comp_def)
  then have "inj_on (\<lambda>i. unat (used (projr (r i)))) I" "(\<lambda>i. unat (used (projr (r i)))) ` I = {1..<Suc (length ?xs)}"
    using I by (metis distinct_map distinct_upt, metis set_map set_upt)
  moreover have "length ?xs = card I" using distinct_card [OF I(2)] I(1) by simp
  ultimately show "bij_betw (\<lambda>i. unat (used (projr (r i)))) I {1..card I}"
    by (simp add: bij_betw_def atLeastLessThanSuc_atLeastAtMost)
qed

text \<open>Of different counts from one on, as many are within a limit as the limit says.\<close>

lemma admitted_card:
  assumes "bij_betw (\<lambda>i. unat (used (u i))) I {1..card I}"
  shows "card {i \<in> I. admitted nm win lim (u i)} = min (unat lim) (card I)"
proof -
  let ?f = "\<lambda>i. unat (used (u i))" and ?A = "{i \<in> I. admitted nm win lim (u i)}"
  have "?f ` ?A = {x \<in> ?f ` I. 0 < x \<and> x \<le> unat lim}" by (auto simp: admitted_iff)
  also have "\<dots> = {1..min (unat lim) (card I)}" using assms by (auto simp: bij_betw_def)
  finally have "?f ` ?A = {1..min (unat lim) (card I)}" .
  moreover have "inj_on ?f ?A" using assms by (auto simp: bij_betw_def intro: inj_on_subset)
  ultimately show ?thesis using card_image by fastforce
qed

text \<open>
  C37.  Threads never share a count and never skip one.  Take any number of calls by threads on one
  in-process store, interleaved in any way, of which those on key \<open>k\<close> find no open window at the
  start and are over before a window one of them could have opened ends.  Then each call on
  \<open>k\<close> succeeds and the \<open>n\<close> calls on it get the counts \<open>1\<close> to \<open>n\<close>, each exactly once, whatever the
  threads on other keys do; so of these calls exactly \<open>min lim n\<close> are within a limit \<open>lim\<close>.
\<close>

theorem threads_count:
  assumes "cache_api_ok cache" "\<forall>th \<in> set ths. th_phase th = Called"
    and "(thread_step cache)\<^sup>*\<^sup>* (machine_start c t ths) m"
    and "\<forall>i < length ths. th_phase (mc_threads m ! i) = Returned (ts i) (rs i)"
    and "memory_invar cache c" "memory_live cache c (instant_nanos t) k = None"
    and "I = {i. i < length ths \<and> th_key (ths ! i) = k}"
    and "\<forall>i \<in> I. \<exists>e. memory_opens (memory_start (ts i)) (th_window (ths ! i)) = Some e \<and> instant_nanos (mc_time m) < e"
    and "length ths < 2 ^ 64"
  shows "(\<forall>i \<in> I. \<exists>u. rs i = Inr u) \<and>
    bij_betw (\<lambda>i. unat (used (projr (rs i)))) I {1..card I} \<and>
    card {i \<in> I. admitted nm win lim (projr (rs i))} = min (unat lim) (card I)"
proof -
  note run = returned_run [OF assms(1-4)]
  let ?key = "\<lambda>i. th_key (ths ! i)" and ?r = "\<lambda>i. map_sum memory_error_into id (rs i)"
  define cs where "cs = map (\<lambda>i. (ts i, ?key i, th_window (ths ! i))) (mc_log m)"
  have times: "valid_times (ts i) \<and> instant_nanos t \<le> memory_start (ts i) \<and> memory_start (ts i) \<le> memory_fin (ts i) \<and>
      memory_fin (ts i) \<le> instant_nanos (mc_time m)" if "i \<in> set (mc_log m)" for i
    using run(2,4) that
    by (fastforce simp: valid_times_def memory_start_def memory_fin_def less_eq_Instant_def)
  have order: "key_order memory_start memory_fin k (instant_nanos t) cs"
    unfolding cs_def
  proof (rule key_order_map)
    show "sorted_wrt (\<lambda>i j. ?key i = ?key j \<longrightarrow> memory_fin (ts i) \<le> memory_start (ts j)) (mc_log m)"
    proof (rule sorted_wrt_mono_rel [OF _ run(5)])
      show "?key i = ?key j \<longrightarrow> memory_fin (ts i) \<le> memory_start (ts j)"
        if "i \<in> set (mc_log m)" "j \<in> set (mc_log m)" "stored_at (ts i) \<le> stored_at (ts j) \<and>
          (?key i = ?key j \<longrightarrow> stored_at (ts i) \<le> looked_up_at (ts j))" for i j
        using that times [OF that(2)] by (auto simp: valid_times_def memory_start_def memory_fin_def less_eq_Instant_def)
    qed
  qed (use times in blast)
  have window: "\<forall>(ts', k', win) \<in> set cs. k' = k \<longrightarrow> (\<exists>e. memory_opens (memory_start ts') win = Some e \<and>
      (\<forall>(ts'', k'', _) \<in> set cs. k'' = k \<longrightarrow> memory_fin ts'' < e))"
    using assms(7,8) times run(2) by (fastforce simp: cs_def)
  have n: "charges_on k cs \<le> 2 ^ 64 - 1"
  proof -
    have "charges_on k cs \<le> length (mc_log m)" by (simp add: cs_def charges_on_map)
    also have "\<dots> = length ths" using distinct_card [OF run(1)] run(2) by simp
    finally show ?thesis using assms(9) by simp
  qed
  have "counts_of k cs (map ?r (mc_log m)) = [1..<Suc (charges_on k cs)]"
    using times
    by (intro fixed_window_store.counts_of_key_within_window [OF memory_fixed_window [OF assms(1)] assms(5,6)
          order _ window n run(3) [folded cs_def]]) (auto simp: cs_def)
  from counted_results [OF this cs_def refl run(1)]
  have I: "\<forall>i \<in> I. \<exists>u. ?r i = Inr u" "bij_betw (\<lambda>i. unat (used (projr (?r i)))) I {1..card I}"
    by (simp_all add: assms(7) run(2) conj_commute)
  have inr: "\<exists>u. rs i = Inr u" if "i \<in> I" for i
    using I(1) that by (cases "rs i") auto
  have "bij_betw (\<lambda>i. unat (used (projr (rs i)))) I {1..card I} \<longleftrightarrow>
      bij_betw (\<lambda>i. unat (used (projr (?r i)))) I {1..card I}"
    by (rule bij_betw_cong) (use inr in force)
  with I(2) inr admitted_card [of "\<lambda>i. projr (rs i)" I] show ?thesis by simp
qed

section \<open>No deadlock\<close>

fun phase_rank :: "phase \<Rightarrow> nat" where
  "phase_rank Called = 4"
| "phase_rank (Entered t0 found) = 3"
| "phase_rank (Computed t0 t1 entry) = 2"
| "phase_rank (Stored t0 t1 t2 entry) = 1"
| "phase_rank (Returned ts r) = 0"

lemma advance_rank:
  assumes "advance cache t th c = (ph, c')" "\<not> has_returned (th_phase th)"
  shows "phase_rank ph < phase_rank (th_phase th)"
  by (cases rule: advance_cases [OF assms]) simp_all

text \<open>While a call has not returned, some thread can go on: a holder of a key, or else any thread.\<close>

lemma can_step:
  assumes "th \<in> set (mc_threads m)" "\<not> has_returned (th_phase th)"
    and "mc_time m \<le> b" "\<forall>th \<in> set (mc_threads m). th_called th \<le> b" "instant_range b"
  obtains i ph c where "i < length (mc_threads m)"
    "phase_rank ph < phase_rank (th_phase (mc_threads m ! i))"
    "thread_step cache m \<lparr>mc_cache = c, mc_time = b, mc_threads = (mc_threads m)[i := (mc_threads m ! i)\<lparr>th_phase := ph\<rparr>],
        mc_log = (if effective ph \<and> \<not> effective (th_phase (mc_threads m ! i)) then mc_log m @ [i] else mc_log m)\<rparr>"
proof -
  have "\<exists>x \<in> set (mc_threads m). \<not> has_returned (th_phase x) \<and> (th_phase x = Called \<longrightarrow>
      (\<forall>other \<in> set (mc_threads m). th_key other = th_key x \<longrightarrow> \<not> holding (th_phase other)))"
  proof (cases "\<exists>x \<in> set (mc_threads m). holding (th_phase x)")
    case True
    then obtain x where x: "x \<in> set (mc_threads m)" "holding (th_phase x)" by blast
    then have "\<not> has_returned (th_phase x)" "th_phase x \<noteq> Called" by (cases "th_phase x"; simp)+
    then show ?thesis using x(1) by blast
  next
    case False
    then show ?thesis using assms(1,2) by blast
  qed
  then obtain x where x: "x \<in> set (mc_threads m)" "\<not> has_returned (th_phase x)" "th_phase x = Called \<longrightarrow>
      (\<forall>other \<in> set (mc_threads m). th_key other = th_key x \<longrightarrow> \<not> holding (th_phase other))" by blast
  obtain i where "i < length (mc_threads m)" "x = mc_threads m ! i" using x(1) by (auto simp: in_set_conv_nth)
  with x have i: "i < length (mc_threads m)" "\<not> has_returned (th_phase (mc_threads m ! i))"
    "th_phase (mc_threads m ! i) = Called \<Longrightarrow>
      \<forall>other \<in> set (mc_threads m). th_key other = th_key (mc_threads m ! i) \<longrightarrow> \<not> holding (th_phase other)"
    by simp_all
  obtain ph c where a: "advance cache b (mc_threads m ! i) (mc_cache m) = (ph, c)" by (rule prod.exhaust)
  have "th_called (mc_threads m ! i) \<le> b" using assms(4) i(1) by simp
  from thread_step [OF i(1) refl i(2) assms(3) this assms(5) i(3) a] that [OF i(1) advance_rank [OF a i(2)]]
  show thesis by blast
qed

lemma threads_can_finish:
  assumes "mc_time m \<le> b" "\<forall>th \<in> set (mc_threads m). th_called th \<le> b" "instant_range b"
  shows "\<exists>m'. (thread_step cache)\<^sup>*\<^sup>* m m' \<and> (\<forall>th \<in> set (mc_threads m'). has_returned (th_phase th)) \<and> mc_time m' \<le> b"
  using assms(1,2)
proof (induction "sum_list (map (\<lambda>th. phase_rank (th_phase th)) (mc_threads m))" arbitrary: m rule: less_induct)
  case less
  show ?case
  proof (cases "\<forall>th \<in> set (mc_threads m). has_returned (th_phase th)")
    case True
    then show ?thesis using less.prems(1) by blast
  next
    case False
    then obtain th where th: "th \<in> set (mc_threads m)" "\<not> has_returned (th_phase th)" by blast
    obtain i ph c where i: "i < length (mc_threads m)" "phase_rank ph < phase_rank (th_phase (mc_threads m ! i))"
      and step: "thread_step cache m \<lparr>mc_cache = c, mc_time = b,
        mc_threads = (mc_threads m)[i := (mc_threads m ! i)\<lparr>th_phase := ph\<rparr>],
        mc_log = (if effective ph \<and> \<not> effective (th_phase (mc_threads m ! i)) then mc_log m @ [i] else mc_log m)\<rparr>"
      using can_step [OF th less.prems assms(3)] by blast
    let ?m = "\<lparr>mc_cache = c, mc_time = b, mc_threads = (mc_threads m)[i := (mc_threads m ! i)\<lparr>th_phase := ph\<rparr>],
        mc_log = (if effective ph \<and> \<not> effective (th_phase (mc_threads m ! i)) then mc_log m @ [i] else mc_log m)\<rparr>"
    let ?rank = "\<lambda>th. phase_rank (th_phase th)"
    have le: "?rank (mc_threads m ! i) \<le> sum_list (map ?rank (mc_threads m))"
      using i(1) by (intro member_le_sum_list) simp_all
    have "sum_list (map ?rank (mc_threads ?m)) =
        sum_list (map ?rank (mc_threads m)) + phase_rank ph - ?rank (mc_threads m ! i)"
      using i(1) by (simp add: map_update sum_list_update)
    then have "sum_list (map ?rank (mc_threads ?m)) < sum_list (map ?rank (mc_threads m))"
      using i(2) le by linarith
    moreover have "\<forall>th \<in> set (mc_threads ?m). th_called th \<le> b"
      using less.prems(2) i(1) by (auto dest!: set_update_subset_insert [THEN subsetD])
    ultimately obtain m' where "(thread_step cache)\<^sup>*\<^sup>* ?m m'" "\<forall>th \<in> set (mc_threads m'). has_returned (th_phase th)"
      "mc_time m' \<le> b" using less.hyps [of ?m] by auto
    then show ?thesis using converse_rtranclp_into_rtranclp [of "thread_step cache" m ?m, OF step] by blast
  qed
qed

text \<open>Three threads on a new store, two of them on one key.\<close>

definition calling :: "string \<Rightarrow> thread" where
  "calling k = \<lparr>th_key = k, th_window = from_secs 60, th_called = Instant 0, th_phase = Called\<rparr>"

definition sample_threads :: "thread list" where
  "sample_threads = [calling ''p:k'', calling ''p:other'', calling ''p:k'']"

lemma sample_threads_run:
  obtains m ts rs where "(thread_step map_cache_api)\<^sup>*\<^sup>*
      (machine_start (memory_store_new map_cache_api) (Instant 0) sample_threads) m"
    "\<forall>i < length sample_threads. th_phase (mc_threads m ! i) = Returned (ts i) (rs i)" "mc_time m \<le> Instant 0"
proof -
  let ?m0 = "machine_start (memory_store_new map_cache_api) (Instant 0) sample_threads"
  have called: "\<forall>th \<in> set sample_threads. th_phase th = Called" by (simp add: sample_threads_def calling_def)
  obtain m where m: "(thread_step map_cache_api)\<^sup>*\<^sup>* ?m0 m" "\<forall>th \<in> set (mc_threads m). has_returned (th_phase th)"
    "mc_time m \<le> Instant 0"
    using threads_can_finish [of ?m0 "Instant 0" map_cache_api]
    by (auto simp: machine_start_def sample_threads_def calling_def instant_range_def instant_max_def)
  have "\<exists>ts r. th_phase (mc_threads m ! i) = Returned ts r" if "i < length sample_threads" for i
  proof -
    have "has_returned (th_phase (mc_threads m ! i))" using m(2) that run_call(1) [OF called m(1)] by simp
    then show ?thesis by (cases "th_phase (mc_threads m ! i)") simp_all
  qed
  then obtain ts rs where "\<forall>i < length sample_threads. th_phase (mc_threads m ! i) = Returned (ts i) (rs i)" by metis
  with m that show thesis by blast
qed

theorem threads_linearize_witness:
  "\<exists>m ts rs order. (thread_step map_cache_api)\<^sup>*\<^sup>*
      (machine_start (memory_store_new map_cache_api) (Instant 0) sample_threads) m \<and>
     (\<forall>i < 3. th_phase (mc_threads m ! i) = Returned (ts i) (rs i)) \<and> set order = {..<3} \<and>
     fst (run_charges (memory_increment map_cache_api) (memory_store_new map_cache_api)
       (map (\<lambda>i. (ts i, th_key (sample_threads ! i), from_secs 60)) order)) =
     map (\<lambda>i. map_sum memory_error_into id (rs i)) order"
proof -
  obtain m ts rs where m: "(thread_step map_cache_api)\<^sup>*\<^sup>*
      (machine_start (memory_store_new map_cache_api) (Instant 0) sample_threads) m"
    "\<forall>i < length sample_threads. th_phase (mc_threads m ! i) = Returned (ts i) (rs i)"
    by (rule sample_threads_run)
  have called: "\<forall>th \<in> set sample_threads. th_phase th = Called" by (simp add: sample_threads_def calling_def)
  have three: "length sample_threads = 3" by (simp add: sample_threads_def)
  from threads_linearize [OF map_cache_api_ok called m, unfolded three] obtain order where
    o: "set order = {..<3}" "run_charges (memory_increment map_cache_api) (memory_store_new map_cache_api)
      (map (\<lambda>i. (ts i, th_key (sample_threads ! i), th_window (sample_threads ! i))) order) =
      (map (\<lambda>i. map_sum memory_error_into id (rs i)) order, mc_cache m)" by blast
  have "th_window th = from_secs 60" if "th \<in> set sample_threads" for th
    using that by (auto simp: sample_threads_def calling_def)
  then have "th_window (sample_threads ! i) = from_secs 60" if "i \<in> set order" for i
    using that o(1) three by simp
  then have "map (\<lambda>i. (ts i, th_key (sample_threads ! i), th_window (sample_threads ! i))) order =
      map (\<lambda>i. (ts i, th_key (sample_threads ! i), from_secs 60)) order" by simp
  note run = o(2) [unfolded this]
  show ?thesis
    by (intro exI [of _ m] exI [of _ ts] exI [of _ rs] exI [of _ order] conjI m(1) m(2) [unfolded three] o(1))
      (simp only: run fst_conv)
qed

theorem threads_count_witness:
  "\<exists>m ts rs. (thread_step map_cache_api)\<^sup>*\<^sup>*
      (machine_start (memory_store_new map_cache_api) (Instant 0) sample_threads) m \<and>
     (\<forall>i < 3. th_phase (mc_threads m ! i) = Returned (ts i) (rs i)) \<and>
     bij_betw (\<lambda>i. unat (used (projr (rs i)))) {0, 2} {1..2}"
proof -
  obtain m ts rs where m: "(thread_step map_cache_api)\<^sup>*\<^sup>*
      (machine_start (memory_store_new map_cache_api) (Instant 0) sample_threads) m"
    "\<forall>i < length sample_threads. th_phase (mc_threads m ! i) = Returned (ts i) (rs i)" "mc_time m \<le> Instant 0"
    by (rule sample_threads_run)
  have called: "\<forall>th \<in> set sample_threads. th_phase th = Called" by (simp add: sample_threads_def calling_def)
  have I: "{0, 2} = {i. i < length sample_threads \<and> th_key (sample_threads ! i) = ''p:k''}"
    by (auto simp: sample_threads_def calling_def less_Suc_eq numeral_2_eq_2)
  have absent: "memory_live map_cache_api (memory_store_new map_cache_api) (instant_nanos (Instant 0)) ''p:k'' = None"
    by (simp add: memory_live_def mc.get_new memory_store_new_def)
  have "memory_opens (memory_start (ts i)) (th_window (sample_threads ! i)) = Some 60000000000" if "i \<in> {0, 2}" for i
  proof -
    have "i < length sample_threads" "th_window (sample_threads ! i) = from_secs 60"
      using that by (auto simp: sample_threads_def calling_def)
    moreover from this(1) have "memory_start (ts i) = 0"
      using returned_run(4) [OF map_cache_api_ok called m(1,2)] m(3)
      by (fastforce simp: valid_times_def memory_start_def less_eq_Instant_def)
    ultimately show ?thesis by (simp add: memory_opens_def checked_add_def instant_max_def)
  qed
  moreover have "instant_nanos (mc_time m) < 60000000000" using m(3) by (simp add: less_eq_Instant_def)
  ultimately have window: "\<forall>i \<in> {0, 2}. \<exists>e. memory_opens (memory_start (ts i)) (th_window (sample_threads ! i)) = Some e \<and>
      instant_nanos (mc_time m) < e" by blast
  have "bij_betw (\<lambda>i. unat (used (projr (rs i)))) {0, 2} {1..card {0 :: nat, 2}}"
    using threads_count [OF map_cache_api_ok called m(1,2) mc.invar_new absent I window]
    by (simp add: sample_threads_def)
  moreover have "card {0 :: nat, 2} = 2" "length sample_threads = 3" by (simp_all add: sample_threads_def)
  ultimately show ?thesis using m(1,2) by (intro exI [of _ m] exI [of _ ts] exI [of _ rs]) (simp only: simp_thms)
qed

text \<open>The first step of that run: the first thread gets hold of its key.\<close>

interpretation begun: running map_cache_api "memory_store_new map_cache_api" "Instant 0"
  "machine_start (memory_store_new map_cache_api) (Instant 0) sample_threads" 0 "Instant 0"
  "Entered (Instant 0) None" "memory_store_new map_cache_api"
proof
  show "machine_ok map_cache_api (memory_store_new map_cache_api) (Instant 0)
      (machine_start (memory_store_new map_cache_api) (Instant 0) sample_threads)"
    by (rule machine_ok_start) (simp add: sample_threads_def calling_def)
qed (auto simp: machine_start_def sample_threads_def calling_def advance_def memory_store_new_def mc.get_new
    instant_range_def instant_max_def)

end
