(* ===== verification/Spec2Isabelle.thy ===== *)
theory Spec2Isabelle
  imports RL_Unit_Tests RL_Fairness RL_Benchmark RL_Threads
begin

text \<open>
  A verification of \<^bold>\<open>tower-rate-limiter\<close>, a fixed-window rate limiting middleware for
  Tower services.

  \<^bold>\<open>The program.\<close>  A \<open>RateLimitLayer\<close>, made by a validating builder, wraps an inner service in a
  \<open>RateLimit\<close> service.  A call clones the inner service, checks the skip predicate, extracts the
  client key and asks the quota provider for a limit; what happens next is a state machine, the
  \<open>ResponseFuture\<close>: it awaits the limit, charges a \<open>Store\<close> under the key scoped to the policy,
  and then admits the request to the inner service, answers 429, or follows the configured mode
  when the store failed.  The response gains the rate-limit header fields.  Two stores come with
  the crate, one over an in-process \<open>moka\<close> cache and one over Redis.

  \<^bold>\<open>The theories\<close>, each over the ones before it:
    \<^item> \<open>RL_Prelude\<close>: widths of the machine integers, saturating arithmetic, string lemmas.
    \<^item> \<open>RL_Time\<close>: \<open>Duration\<close> and \<open>Instant\<close> of the standard library, with their order.
    \<^item> \<open>RL_Format\<close>: decimal printing of \<open>u64\<close> and \<open>i64\<close>, with readers.
    \<^item> \<open>RL_Ip\<close>: \<open>IpAddr\<close> of the standard library, its \<open>Display\<close> form and a reader for it.
    \<^item> \<open>RL_Error\<close> (\<open>limiter/error.rs\<close>): \<open>RateLimitError\<close>, \<open>ConfigError\<close> and their messages.
    \<^item> \<open>RL_Http\<close>: requests, responses and the header map of the \<open>http\<close> crate as a parameter.
    \<^item> \<open>RL_Policy\<close> (\<open>limiter/policy.rs\<close>, \<open>limiter/store.rs\<close>, the key helpers of
      \<open>limiter/future.rs\<close>): usage, policy state, request context, scoped keys.
    \<^item> \<open>RL_Response\<close> (\<open>limiter/response.rs\<close>): the header fields of the two drafts,
      \<open>Retry-After\<close>, default responses.
    \<^item> \<open>RL_Async\<close>: futures as coinductive values, awaiting under interference, Tower services.
    \<^item> \<open>RL_Key_Extractor\<close> (\<open>limiter/key_extractor.rs\<close>, \<open>limiter/limit.rs\<close>): the extractors by
      socket address, by forwarding headers and by trusted proxy; fixed limits.
    \<^item> \<open>RL_Builder\<close> (\<open>limiter/builder.rs\<close>): configuration, the setters, validation.
    \<^item> \<open>RL_Future\<close> (\<open>limiter/future.rs\<close>): the state machine, arm by arm, and its poll loop.
    \<^item> \<open>RL_Lifecycle\<close>: the direct-style lifecycle as an inductive specification, the refinement of
      the state machine to it, completion.
    \<^item> \<open>RL_Service\<close> (\<open>limiter/layer.rs\<close>, \<open>limiter/service.rs\<close>): layer, service, call; what each
      kind of request is answered with.
    \<^item> \<open>RL_Store\<close> (the contract of \<open>limiter/store.rs\<close>): the locale \<open>fixed_window_store\<close> and what
      follows for sequences of increments.
    \<^item> \<open>Memory_Store\<close> (\<open>store/memory.rs\<close>): the in-process store over a cache, given by the locale
      \<open>expiring_cache\<close>, as an instance of \<open>fixed_window_store\<close>.
    \<^item> \<open>RL_Threads\<close> (\<open>store/memory.rs\<close>): threads inside \<open>increment_usage\<close> at the same time: the method
      taken apart at every lookup, store and reading of the clock, a step relation that interleaves
      the parts, its invariant in the locale \<open>running\<close>.
    \<^item> \<open>Redis_Store\<close> (\<open>store/redis.rs\<close>): the Redis store, Lua script and transaction, over a
      server given by the locale \<open>redis_server\<close>, as an instance of \<open>fixed_window_store\<close>.
    \<^item> \<open>RL_Session\<close>: middleware and stores together, for sequences of requests that are each
      awaited before the next; a session is a run of the store.
    \<^item> \<open>RL_Executor\<close>: concurrent requests: an executor as a step relation that calls the service,
      polls the futures in flight in any order and drops some; every execution is a session.
    \<^item> \<open>RL_World\<close>: applications around the middleware: arbitrary asynchronous components in a world
      beside the shared store, in which calls of the inner service and rate-limited answers are
      recorded.
    \<^item> \<open>RL_Ledger\<close>: books on an execution, carried through every poll and every step of the
      executor; the locale \<open>ledger_application\<close> says through which events books must be kept.
    \<^item> \<open>RL_Admission\<close>: the number of calls of the inner service, for arbitrary asynchronous
      components around the middleware; the locale \<open>limited_application\<close> says what is asked of
      them, gives one \<open>ledger_application\<close>, and holds of any application beside the store.
    \<^item> \<open>RL_Fairness\<close>: who is turned away, by another \<open>ledger_application\<close> on the same executions.
    \<^item> \<open>RL_Nesting\<close>: limiters inside limiters on one store; the locale \<open>calm_limiter\<close>.
    \<^item> \<open>RL_Examples\<close> (\<open>examples/\<close>): the extractors, quota provider, response factory and limiters
      of the example programs, the run of \<open>tower_dynamic\<close>, the nested routes; the limiter of
      \<open>tower_dynamic\<close> and the user limiter of \<open>axum_redis\<close> interpret the locales of applications.
    \<^item> \<open>RL_Benchmark\<close> (\<open>benchmarks/benchmark_server.rs\<close>): the configuration of the benchmark
      server, its limiters, its information page and its routes.
    \<^item> \<open>RL_Unit_Tests\<close>: the unit tests of the stores and of \<open>axum_redis\<close>, and for which readings
      of the clock they pass.

  \<^bold>\<open>How the model relates to the code.\<close>  Structs are records (field names carry a short prefix
  where two structs share one), enums are datatypes, \<open>u64\<close>, \<open>u32\<close>, \<open>u128\<close> and \<open>i64\<close> are words,
  \<open>Result\<close> is a sum with the error on the left.  Everything shared (caches, servers, clocks,
  other tasks) is a world \<open>'w\<close> that operations take and return; an operation with \<open>&mut self\<close>
  returns the new value.  A future is what polling it does to the world.  Code outside the
  repository is a parameter with its documented behaviour as a named hypothesis: the header map
  (\<open>header_api_ok\<close>), the cache (\<open>cache_api_ok\<close>), the Redis server and its client
  (\<open>redis_api_ok\<close>), request heads (\<open>request_api_ok\<close>), the client-address functions of
  \<open>http-extract\<close> (\<open>client_ip_api\<close>), and every
  component the application supplies (extractor, provider, store, factory, inner service).  Each
  hypothesis is shown to hold of a concrete instance: \<open>list_header_api\<close>, \<open>list_request_api\<close>,
  \<open>map_cache_api\<close>, \<open>map_redis_api\<close>.

  \<^bold>\<open>What is shown.\<close>
    \<^item> The poll loop terminates in every poll (its measure is the rank of the state), and awaiting
      the future is exactly the documented lifecycle, for arbitrary component futures and
      arbitrary interference between polls; it completes when its components do, and panics when
      polled after completion.
    \<^item> The service serves requests in the documented order: bypass, key, quota, store, decision;
      bypass is transparent, failures before the store never charge it, no call of an instance
      other than the one that was polled ready has any influence, store failures follow the
      configured mode.
    \<^item> Scoped keys determine policy name and client key, within one store and across Redis
      namespaces; rounding, header values, read-back of both header formats.
    \<^item> The builder and the stores agree on the smallest window, and every window a layer was built
      with can be counted in by both stores.
    \<^item> Threads inside the in-process store are linearizable: in any interleaving the cache allows, the
      calls answer as if made one after the other in an order that respects time, a call reads the
      clock only once it has got hold of its key, and the calls of one key in a window get each count once.
    \<^item> Both stores are fixed-window stores: in a window exactly the first \<open>limit\<close> requests of a key
      are within the limit; errors, saturation, resets and isolation of keys; the two Redis
      increments agree; every usage they return is well formed.
    \<^item> End to end, over either store, a client gets exactly \<open>limit\<close> answers other than 429 in a
      window.  With any number of requests in flight, polled in any order, delayed and dropped at
      will, the answers are those of some sequence of the requests, so at most \<open>limit\<close> are let
      through, and exactly as many as the limit allows once all are answered.
    \<^item> Whatever the application does, the inner service is called for a client at most as often in
      a window as the limits its provider resolves to allow: handler, provider, extractor, factory
      and subscriber are arbitrary programs, in flight in any number, with or without other
      limiters on the same store.  The proof keeps books: every call that is not bypassed stands
      on an increment of its own key that no other call stands on.
    \<^item> Conversely, no client is turned away undeservedly: for the same arbitrary applications, a
      client whose requests do not exceed the limits resolved for it is never answered as rate
      limited.  These books hold for every increment a request of the client that arrived, and for
      every rejection the count it was based on.
    \<^item> Addresses of clients: the text of an address determines it, so address keys keep clients
      apart.
    \<^item> Nested layers: the outer policy comes first in the context, the inner one first in the
      header fields.
    \<^item> The example programs configure valid limiters, \<open>tower_dynamic\<close> lets through what it
      announces, and before the limiter of \<open>trusted_proxy_client_ip\<close> a peer cannot escape its limit
      with forwarding headers.

  \<^bold>\<open>Bounds.\<close>  No fuel is used in the model; \<open>block_on\<close> bounds polls in closed evaluations only,
  and \<open>awaits_block_on\<close> shows that enough polls always exist.  Counts are exact up to the largest
  \<open>u64\<close> in memory, the largest \<open>i64\<close> in a Redis transaction, and \<open>2 ^ 53\<close> in a script, whose
  numbers are binary64.

  \<^bold>\<open>Not modelled.\<close>  The text of \<open>Debug\<close> output beyond the fields handed to the formatter, re-exports, the trait bounds and
  auto-trait assertions; Axum routing, listening addresses, serving and printing of the examples.  Dropping a future
  runs no code of the crate: in an execution the future is no longer polled, which leaves an
  increment that was not sent unsent; one the server still performs for a dropped request is
  covered as a request in flight whose answer nobody reads.  Above the
  stores, an increment is one event: for the in-process store \<open>RL_Threads\<close> derives this from the
  documented serialization of computations on one key, and the server runs scripts and
  transactions alone.  In \<open>redis_api_ok\<close> a key is gone from the millisecond of its expiry on; a
  server may keep it to the end of that millisecond and report a remaining time of zero, which
  \<open>usage_from_increment_result\<close> turns into an error.  Connections and the loading of the script on
  first use are not parts of \<open>RedisStore\<close> here: a failing connection is an outcome of the increment.
  In sessions and in the executions of \<open>RL_Executor\<close> the handler behind the middleware answers at
  once, and the quota provider and key extractor are functions of the request, so that the answers
  can be stated exactly; for other components \<open>RL_Admission\<close> and \<open>RL_Fairness\<close> give the two bounds, and the
  refinement of the state machine the outcome of a single request under interference.  The unit
  test of the physical removal of expired entries is about the cache, and the type-level tests
  have no content here.
\<close>

section \<open>Properties across components\<close>

text \<open>
  C30.  Policies and clients do not disturb each other: charging one pair of policy name and
  client key leaves the window of every other pair as it is, in the in-process store, and in a
  Redis server that stores with any namespaces share.
\<close>

theorem policies_isolated:
  assumes "cache_api_ok cache" "redis_api_ok api"
  shows "((p, c) \<noteq> (p', c') \<longrightarrow>
      memory_increment cache s ts (make_key p c) win = (r, s') \<longrightarrow>
      memory_live cache s' t (make_key p' c') = memory_live cache s t (make_key p' c')) \<and>
    ((effective_namespace (namespace this), p, c) \<noteq> (effective_namespace (namespace that), p', c') \<longrightarrow>
      redis_increment lua api this d ts' (make_key p c) win = (r', d') \<longrightarrow>
      redis_live api that d' t (make_key p' c') = redis_live api that d t (make_key p' c'))"
proof (intro conjI impI)
  assume "(p, c) \<noteq> (p', c')"
    and i: "memory_increment cache s ts (make_key p c) win = (r, s')"
  then have "make_key p' c' \<noteq> make_key p c" by (auto simp: make_key_inject)
  then show "memory_live cache s' t (make_key p' c') = memory_live cache s t (make_key p' c')"
    by (rule expiring_cache.increment_other_key [OF expiring_cache.intro [OF assms(1)] i])
next
  assume "(effective_namespace (namespace this), p, c) \<noteq> (effective_namespace (namespace that), p', c')"
    and i: "redis_increment lua api this d ts' (make_key p c) win = (r', d')"
  then have other: "redis_key that (make_key p' c') \<noteq> redis_key this (make_key p c)"
    by (auto simp: redis_key_def format_scoped_inject)
  have "redis_store api" using assms(2) by (simp add: redis_store_def redis_server_def)
  from redis_store.increment_other [OF this i other]
  show "redis_live api that d' t (make_key p' c') = redis_live api that d t (make_key p' c')"
    by (simp add: redis_live_def)
qed

theorem policies_isolated_witness:
  "memory_live map_cache_api
     (snd (memory_increment map_cache_api (memory_store_new map_cache_api) (times_at 5)
        (make_key ''a'' ''b:c'') (from_secs 60))) 6000000000 (make_key ''a:b'' ''c'') = None"
proof -
  obtain r s' where i: "memory_increment map_cache_api (memory_store_new map_cache_api) (times_at 5)
      (make_key ''a'' ''b:c'') (from_secs 60) = (r, s')" by (rule prod.exhaust)
  have "memory_live map_cache_api (memory_store_new map_cache_api) 6000000000 (make_key ''a:b'' ''c'') = None"
    by (simp add: memory_live_def mc.get_new memory_store_new_def)
  then show ?thesis
    using policies_isolated [OF map_cache_api_ok map_redis_api_ok, of "''a''" "''b:c''" "''a:b''" "''c''"
        "memory_store_new map_cache_api" "times_at 5" "from_secs 60" r s' 6000000000] i by simp
qed

text \<open>
  C28.  Every usage that reaches the middleware from one of the two stores is of the declared kind:
  its count is at least one, so that the policy state can be built from it, and its duration is
  a valid one; a usage read from Redis also has time left.  The contents of the in-process store
  stay well formed.
\<close>

theorem store_usages_typed:
  assumes "cache_api_ok cache" "memory_invar cache s" "valid_times ts"
  shows "(memory_increment cache s ts k win = (Inr u, s') \<longrightarrow>
      wf_usage u \<and> memory_invar cache s' \<and> (\<exists>p. from_usage nm win lim u = Inr p)) \<and>
    (redis_increment lua api this r ts' k win = (Inr u', r') \<longrightarrow>
      wf_usage u' \<and> 0 < dur_nanos (reset_after u') \<and> (\<exists>p. from_usage nm win lim u' = Inr p))"
proof (intro conjI impI)
  assume i: "memory_increment cache s ts k win = (Inr u, s')"
  have ex: "expiring_cache cache" using assms(1) by (rule expiring_cache.intro)
  have "wf_usage u" using expiring_cache.usage_wf [OF ex assms(2,3) i] by simp
  moreover have "memory_invar cache s'"
    by (rule expiring_cache.increment_keeps_invar [OF ex assms(2,3) i])
  ultimately show "wf_usage u" "memory_invar cache s'" "\<exists>p. from_usage nm win lim u = Inr p"
    by (simp_all add: wf_usage_def from_usage_def)
next
  assume "redis_increment lua api this r ts' k win = (Inr u', r')"
  then obtain n m where "usage_from_increment_result (n, m) = Inr u'"
    by (auto simp: redis_increment_def split: sum.splits prod.splits)
  then have n: "0 < sint n" "0 < sint m" "u' = \<lparr>used = ucast n, reset_after = from_millis (ucast m)\<rparr>"
    by (auto simp: usage_from_increment_result_def split: if_splits)
  have pos: "0 < unat n" "0 < unat m"
    using n(1,2) unat_of_positive [OF n(1)] unat_of_positive [OF n(2)] by linarith+
  show "wf_usage u'" "0 < dur_nanos (reset_after u')" "\<exists>p. from_usage nm win lim u' = Inr p"
    using n pos by (auto simp: wf_usage_def from_usage_def)
qed

theorem store_usages_typed_witness:
  "\<exists>u s'. memory_increment map_cache_api (memory_store_new map_cache_api) (times_at 0) ''p:k'' (from_secs 60)
     = (Inr u, s') \<and> wf_usage u"
proof -
  have inv: "memory_invar map_cache_api (memory_store_new map_cache_api)" by (rule mc.invar_new)
  have v: "valid_times (times_at 0)" by (simp add: valid_times_at)
  have absent: "memory_live map_cache_api (memory_store_new map_cache_api) (memory_start (times_at 0)) ''p:k'' = None"
    by (rule memory_new_absent [OF map_cache_api_ok])
  have opens: "memory_opens (memory_start (times_at 0)) (from_secs 60) = Some 60000000000"
    and first: "memory_start (times_at 0) < 60000000000"
    by (simp_all add: memory_opens_def memory_start_def times_at_def checked_add_def instant_max_def Let_def)
  obtain u s' where i: "memory_increment map_cache_api (memory_store_new map_cache_api) (times_at 0) ''p:k''
      (from_secs 60) = (Inr u, s')"
    using fixed_window_store.increment_absent [OF memory_fixed_window [OF map_cache_api_ok] inv v absent opens first]
    by auto
  have "wf_usage u" using conjunct1 [OF store_usages_typed [OF map_cache_api_ok inv v]] i by blast
  with i show ?thesis by (intro exI conjI)
qed

text \<open>
  C29.  Clients identified by address are told apart: the text a built-in extractor makes of an
  address, in decimal or in compressed hexadecimal form, determines the address, so two requests
  are charged under one scoped key exactly when the policies have one name and the extracted
  addresses are equal.
\<close>

theorem ip_clients_isolated:
  assumes "\<forall>c \<in> {config, config'}. cfg_key_encoder c = None"
    and "ex \<in> {IpKeyExtractor ipapi, ClientIpKeyExtractor ipapi, TrustedProxyClientIpKeyExtractor ipapi trusted}"
    and "ex' \<in> {IpKeyExtractor ipapi, ClientIpKeyExtractor ipapi, TrustedProxyClientIpKeyExtractor ipapi trusted}"
    and "ke_extract ex request w = (Inr ip, w1)" "ke_extract ex' request' w' = (Inr ip', w1')"
  shows "(scoped_key config (ke_to_string ex ip) = scoped_key config' (ke_to_string ex' ip') \<longleftrightarrow>
      cfg_policy_name config = cfg_policy_name config' \<and> ip = ip') \<and>
    read_ip (ke_to_string ex ip) = Some ip"
proof -
  have "ke_to_string ex = ip_to_string" "ke_to_string ex' = ip_to_string"
    using assms(2,3)
    by (auto simp: IpKeyExtractor_def ClientIpKeyExtractor_def TrustedProxyClientIpKeyExtractor_def pure_extractor_def)
  with assms(1) show ?thesis by (auto simp: read_ip_to_string scoped_key_def make_key_inject)
qed

definition connected_from :: "IpAddr \<Rightarrow> ((string \<times> string) list, unit) http_request" where
  "connected_from ip = \<lparr>parts = [(''connect-info'', ip_to_string ip)], extension = None, body = ()\<rparr>"

theorem ip_clients_isolated_witness:
  "ip_to_string (V6 (Ipv6Addr 0x2001 0xdb8 0 0 1 0 0 1)) = ''2001:db8::1:0:0:1'' \<and>
   ip_to_string (V6 (Ipv6Addr 0x2001 0xdb8 0 0 0 0 0 1)) = ''2001:db8::1'' \<and>
   scoped_key (example_config ''global-limit'' :: unit RateLimitConfig) ''2001:db8::1:0:0:1'' \<noteq>
   scoped_key (example_config ''global-limit'' :: unit RateLimitConfig) ''2001:db8::1''"
proof -
  let ?a = "V6 (Ipv6Addr 0x2001 0xdb8 0 0 1 0 0 1)" and ?b = "V6 (Ipv6Addr 0x2001 0xdb8 0 0 0 0 0 1)"
  let ?ex = "IpKeyExtractor login_ip_api :: (unit, _, _) key_extractor" and ?c = "example_config ''global-limit'' :: unit RateLimitConfig"
  have found: "ke_extract ?ex (connected_from ip) () = (Inr ip, ())" for ip
    by (simp add: IpKeyExtractor_def pure_extractor_def ip_extract_def ok_or_def login_ip_api_def
        connected_from_def read_ip_to_string)
  have shown: "ip_to_string ?a = ''2001:db8::1:0:0:1''" "ip_to_string ?b = ''2001:db8::1''"
    by (simp_all add: ipv6_to_string_def fmt_subslice_def show_hex.simps hex_char_def char_of_def bit_0)
  have "scoped_key ?c (ke_to_string ?ex ?a) \<noteq> scoped_key ?c (ke_to_string ?ex ?b)"
    using ip_clients_isolated [of ?c ?c ?ex login_ip_api "\<lambda>_. True" ?ex, OF _ _ _ found [of ?a] found [of ?b]]
    by (simp add: example_config_def)
  then show ?thesis
    by (simp add: shown IpKeyExtractor_def pure_extractor_def del: ip_to_string.simps)
qed

text \<open>No other failure of the Redis store reads like that of a window that is too short.\<close>

lemma redis_window_too_short_iff:
  assumes "redis_increment lua api this r ts k win = (res, r')"
  shows "res = Inl (redis_error_into Redis_Store.WindowTooShort) \<longleftrightarrow>
      checked_window_millis win = Inl Redis_Store.WindowTooShort"
    and "checked_window_millis win = Inl Redis_Store.WindowTooShort \<Longrightarrow> r' = r"
proof -
  have e: "redis_error_into err = redis_error_into Redis_Store.WindowTooShort \<longleftrightarrow>
      err = Redis_Store.WindowTooShort" for err
    by (cases err) (simp_all add: redis_error_into_def)
  have pair: "decode_pair api a b \<noteq> Inl Redis_Store.WindowTooShort" for a b
    by (simp add: decode_pair_def decode_int_def split: redis_reply.split sum.split)
  have "fst (increment_script api r ts key ms) \<noteq> Inl Redis_Store.WindowTooShort"
    "fst (increment_transaction api r ts key ms) \<noteq> Inl Redis_Store.WindowTooShort" for key ms
    by (auto simp: increment_script_def increment_transaction_def pair
        split: prod.splits redis_reply.splits)
  then have counter: "increment_counter lua api r ts key ms \<noteq> (Inl Redis_Store.WindowTooShort, r'')" for key ms r''
    by (auto simp: increment_counter_def Let_def split: connection_outcome.splits if_splits dest: arg_cong [of _ _ fst])
  have usage: "usage_from_increment_result x \<noteq> Inl Redis_Store.WindowTooShort" for x
    by (simp add: usage_from_increment_result_def split: prod.split)
  show "res = Inl (redis_error_into Redis_Store.WindowTooShort) \<longleftrightarrow>
      checked_window_millis win = Inl Redis_Store.WindowTooShort"
    using assms by (auto simp: redis_increment_def e counter usage split: sum.splits prod.splits)
  show "r' = r" if "checked_window_millis win = Inl Redis_Store.WindowTooShort"
    using assms that by (simp add: redis_increment_def)
qed

lemma memory_window_at_least:
  assumes "cache_api_ok cache" "memory_invar cache c" "valid_times ts"
    and "memory_live cache c (memory_start ts) k = None"
    and "memory_increment cache c ts k win = (Inr u, c')" "n \<le> dur_nanos win"
  shows "\<exists>e \<ge> memory_start ts + int n. \<forall>t \<ge> memory_fin ts.
    memory_live cache c' t k = (if t < e then Some (1, e) else None)"
proof -
  have ex: "expiring_cache cache" using assms(1) by (rule expiring_cache.intro)
  note fresh = compute_entry_fresh [OF expiring_cache.looked_up_absent [OF ex assms(2-4)], of win]
  obtain x where x: "checked_add (now_in_closure ts) win = Some x"
    using fresh assms(5) by (cases "checked_add (now_in_closure ts) win")
      (auto simp: memory_increment_def increment_usage_def)
  then have o: "memory_opens (memory_start ts) win = Some (instant_nanos x)"
    by (simp add: memory_opens_def memory_start_def)
  have "memory_start ts + int n \<le> instant_nanos x"
    using checked_add_Some [OF x] assms(6) by (simp add: memory_start_def)
  then show ?thesis using expiring_cache.increment_fresh [OF ex assms(2-4) o] assms(5) by auto
qed

text \<open>
  C36.  Builder and stores agree on the smallest window.  The builder turns a window down as too
  short exactly when an increment of the Redis store fails with its error for such windows, which
  then has not reached the server; both builds, every store, key and state of the server.  The
  window of a layer that was built is usable by both stores: the Redis store turns it into a
  positive number of milliseconds unless there are \<open>2 ^ 63\<close> or more, and an increment of the
  in-process store that opens it leaves it open for at least a millisecond from the closure's
  reading of the clock.
\<close>

theorem built_windows_usable:
  assumes "wf_duration (cfg_window (b_config b))"
    and "redis_increment lua api this r ts' k' (cfg_window (b_config b)) = (res, r')"
    and "cache_api_ok cache" "memory_invar cache c" "valid_times ts"
    and "memory_live cache c (memory_start ts) k = None"
  shows "((\<exists>m. build b = Inl (ConfigError.WindowTooShort (cfg_window (b_config b)) m)) \<longleftrightarrow>
        res = Inl (redis_error_into RedisStoreError.WindowTooShort)) \<and>
    (res = Inl (redis_error_into RedisStoreError.WindowTooShort) \<longrightarrow> r' = r) \<and>
    (build b = Inr l \<longrightarrow>
      (dur_nanos (cfg_window (l_config l)) < 2 ^ 63 * 1000000 \<longrightarrow>
         (\<exists>ms. checked_window_millis (cfg_window (l_config l)) = Inr ms \<and> 0 < sint ms)) \<and>
      (memory_increment cache c ts k (cfg_window (l_config l)) = (Inr u, c') \<longrightarrow>
         (\<exists>e \<ge> memory_start ts + 1000000. \<forall>t \<ge> memory_fin ts.
            memory_live cache c' t k = (if t < e then Some (1, e) else None))))"
proof -
  let ?win = "cfg_window (b_config b)"
  let ?short = "res = Inl (redis_error_into RedisStoreError.WindowTooShort)"
  note millis = checked_window_millis_cases [OF assms(1)]
  have small: "?short \<longleftrightarrow> dur_nanos ?win < 1000000"
  proof -
    have "dur_nanos ?win < 1000000 \<longleftrightarrow> dur_nanos ?win div 1000000 = 0" by (simp add: div_eq_0_iff)
    with millis show ?thesis
      unfolding redis_window_too_short_iff(1) [OF assms(2)] by (metis RedisStoreError.distinct(1) not_less
          not_gr_zero sum.distinct(1) sum.inject(1))
  qed
  have refused: "(\<exists>m. build b = Inl (ConfigError.WindowTooShort ?win m)) \<longleftrightarrow> ?short"
    by (simp add: build_def validate_def window_too_short_iff [OF assms(1)] small)
  have built: "l_config l = b_config b \<and> 1000000 \<le> dur_nanos ?win" if "build b = Inr l"
    using that by (auto simp: build_def validate_def window_too_short_iff [OF assms(1)] split: if_splits)
  have redis: "\<exists>ms. checked_window_millis ?win = Inr ms \<and> 0 < sint ms"
    if "1000000 \<le> dur_nanos ?win" "dur_nanos ?win < 2 ^ 63 * 1000000"
    using millis(3) checked_window_millis_Inr that
    by (metis div_greater_zero_iff less_mult_imp_div_less zero_less_numeral)
  show ?thesis
    using refused redis built redis_window_too_short_iff [OF assms(2)]
      memory_window_at_least [OF assms(3-6), of ?win u c' 1000000] by auto
qed

theorem built_windows_usable_witness:
  "(\<exists>m. build (sample_builder (Duration 0 999999) ''api'') = Inl (ConfigError.WindowTooShort (Duration 0 999999) m)) \<and>
   (\<forall>r ts. fst (redis_increment True map_redis_api redis_store_new r ts ''p:k'' (Duration 0 999999)) =
      Inl (redis_error_into RedisStoreError.WindowTooShort)) \<and>
   (\<exists>ms. checked_window_millis (Duration 0 1000000) = Inr ms \<and> 0 < sint ms)"
proof -
  have wf: "wf_duration (cfg_window (b_config (sample_builder (Duration 0 n) ''api'')))" if "n \<le> 1000000" for n
    using that by (simp add: sample_builder_def builder_defs wf_duration_def word_le_nat_alt)
  have win: "cfg_window (b_config (sample_builder (Duration 0 n) ''api'')) = Duration 0 n" for n
    by (simp add: sample_builder_def builder_defs)
  have absent: "memory_live map_cache_api (memory_store_new map_cache_api) (memory_start (times_at 5)) ''p:k'' = None"
    by (simp add: memory_live_def mc.get_new memory_store_new_def)
  have v: "valid_times (times_at 5)" by (simp add: valid_times_at)
  note spec = built_windows_usable [OF wf _ map_cache_api_ok mc.invar_new v absent, unfolded win]
  have short: "build (sample_builder (Duration 0 999999) ''api'') =
      Inl (ConfigError.WindowTooShort (Duration 0 999999) (from_millis 1))"
    by (simp add: build_def validate_def win MINIMUM_WINDOW_def less_Duration_def from_millis_def)
  obtain l where l: "build (sample_builder (Duration 0 1000000) ''api'') = Inr l"
    "l_config l = b_config (sample_builder (Duration 0 1000000) ''api'')"
    by (simp add: build_def validate_def win MINIMUM_WINDOW_def less_Duration_def from_millis_def)
      (simp add: sample_builder_def builder_defs)
  have "fst (redis_increment True map_redis_api redis_store_new r ts ''p:k'' (Duration 0 999999)) =
      Inl (redis_error_into RedisStoreError.WindowTooShort)" for r ts
    using spec [of 999999 True map_redis_api redis_store_new r ts "''p:k''"] short
    by (cases "redis_increment True map_redis_api redis_store_new r ts ''p:k'' (Duration 0 999999)") simp
  moreover have "\<exists>ms. checked_window_millis (Duration 0 1000000) = Inr ms \<and> 0 < sint ms"
    using spec [of 1000000 True map_redis_api, where l = l, OF _ prod.collapse [symmetric]] l(1)
    by (simp add: l(2) win dur_nanos_def)
  ultimately show ?thesis using short by blast
qed

end
